(* ===== verification/Prelude.thy ===== *)
theory Prelude
  imports Main "HOL-Library.Word"
begin

text \<open>
  Types and generic facts shared by every component of the development.

  \<^item> Machine integers keep their width: \<open>u8\<close> to \<open>u64\<close> are words, so \<open>+\<close> wraps as the
    release build of the crates does. \<open>usize\<close> values are lengths and offsets of buffers
    that exist in memory and are natural numbers.
  \<^item> \<open>le_bytes\<close> and \<open>le_nat\<close> are Rust's \<open>to_le_bytes\<close> and \<open>from_le_bytes\<close>.
  \<^item> \<open>omap\<close> is the ordered map of the sources (\<open>BTreeMap\<close>, crossbeam's \<open>SkipMap\<close>): an
    association list kept in key order.
  \<^item> \<open>codec\<close> is the contract of a self-delimiting encoding, with the facts its clients use.
\<close>

named_theorems om_simps \<open>evaluation of ordered-map reads after writes\<close>
named_theorems le_simps \<open>facts about little-endian byte strings\<close>

type_synonym u8 = "8 word"
type_synonym u16 = "16 word"
type_synonym u32 = "32 word"
type_synonym u64 = "64 word"
type_synonym bytes = "8 word list"

abbreviation u64_max :: "64 word" where
  "u64_max \<equiv> - 1"

section \<open>Little-endian integers\<close>

primrec le_bytes :: "nat \<Rightarrow> nat \<Rightarrow> bytes" where
  "le_bytes 0 k = []"
| "le_bytes (Suc n) k = of_nat (k mod 256) # le_bytes n (k div 256)"

primrec le_nat :: "bytes \<Rightarrow> nat" where
  "le_nat [] = 0"
| "le_nat (b # bs) = unat b + 256 * le_nat bs"

definition u16_le :: "u16 \<Rightarrow> bytes" where
  "u16_le w = le_bytes 2 (unat w)"

definition u32_le :: "u32 \<Rightarrow> bytes" where
  "u32_le w = le_bytes 4 (unat w)"

definition u64_le :: "u64 \<Rightarrow> bytes" where
  "u64_le w = le_bytes 8 (unat w)"

definition u16_of_le :: "bytes \<Rightarrow> u16" where
  "u16_of_le bs = of_nat (le_nat bs)"

definition u32_of_le :: "bytes \<Rightarrow> u32" where
  "u32_of_le bs = of_nat (le_nat bs)"

definition u64_of_le :: "bytes \<Rightarrow> u64" where
  "u64_of_le bs = of_nat (le_nat bs)"

text \<open>The Rust slice \<open>data[a..b]\<close> with both ends in range.\<close>

definition slice :: "nat \<Rightarrow> nat \<Rightarrow> 'a list \<Rightarrow> 'a list" where
  "slice a b xs = take (b - a) (drop a xs)"

section \<open>Fallible results\<close>

text \<open>The \<open>?\<close> operator: an error of the first computation is the error of both.\<close>

definition bind_sum :: "'e + 'a \<Rightarrow> ('a \<Rightarrow> 'e + 'b) \<Rightarrow> 'e + 'b" where
  "bind_sum m f = (case m of Inl e \<Rightarrow> Inl e | Inr x \<Rightarrow> f x)"

section \<open>Ordered maps\<close>

type_synonym ('k, 'v) omap = "('k \<times> 'v) list"

abbreviation om_get :: "('k, 'v) omap \<Rightarrow> 'k \<Rightarrow> 'v option" where
  "om_get m k \<equiv> map_of m k"

fun om_put :: "'k::linorder \<Rightarrow> 'v \<Rightarrow> ('k, 'v) omap \<Rightarrow> ('k, 'v) omap" where
  "om_put k v [] = [(k, v)]"
| "om_put k v (e # m) =
     (if fst e < k then e # om_put k v m
      else if fst e = k then (k, v) # m
      else (k, v) # e # m)"

definition om_del :: "'k \<Rightarrow> ('k, 'v) omap \<Rightarrow> ('k, 'v) omap" where
  "om_del k m = filter (\<lambda>e. fst e \<noteq> k) m"

definition om_sorted :: "('k::linorder, 'v) omap \<Rightarrow> bool" where
  "om_sorted m = sorted_wrt (<) (map fst m)"

section \<open>Little-endian facts\<close>

lemma unat_bound: "unat (w :: 'a::len word) < 2 ^ LENGTH('a)"
  by (rule unsigned_less)

lemma length_le_bytes [simp, le_simps]: "length (le_bytes n k) = n"
  by (induction n arbitrary: k) auto

lemma le_bytes_numeral:
  "le_bytes (numeral n) k = of_nat (k mod 256) # le_bytes (pred_numeral n) (k div 256)"
  by (simp only: numeral_eq_Suc [of n] le_bytes.simps)

lemma le_nat_less: "le_nat bs < 256 ^ length bs"
proof (induction bs)
  case (Cons b bs)
  have "unat b < 256" using unat_bound [of b] by simp
  with Cons show ?case by simp
qed simp

lemma le_nat_le_bytes: "k < 256 ^ n \<Longrightarrow> le_nat (le_bytes n k) = k"
proof (induction n arbitrary: k)
  case (Suc n)
  have "k div 256 < 256 ^ n"
    using Suc.prems by (simp add: less_mult_imp_div_less mult.commute)
  moreover have "unat (of_nat (k mod 256) :: u8) = k mod 256"
    by (simp add: unat_of_nat take_bit_eq_mod)
  ultimately show ?case by (simp add: Suc.IH)
qed simp

lemma le_bytes_le_nat: "le_bytes (length bs) (le_nat bs) = bs"
proof (induction bs)
  case (Cons b bs)
  have b: "unat b < 256" using unat_bound [of b] by simp
  then show ?case using Cons by simp
qed simp

lemma length_u16_le [simp, le_simps]: "length (u16_le w) = 2"
  by (simp add: u16_le_def)

lemma length_u32_le [simp, le_simps]: "length (u32_le w) = 4"
  by (simp add: u32_le_def)

lemma length_u64_le [simp, le_simps]: "length (u64_le w) = 8"
  by (simp add: u64_le_def)

lemma u16_of_le_u16_le [simp, le_simps]: "u16_of_le (u16_le w) = w"
  using unat_bound [of w] by (simp add: u16_of_le_def u16_le_def le_nat_le_bytes)

lemma u32_of_le_u32_le [simp, le_simps]: "u32_of_le (u32_le w) = w"
  using unat_bound [of w] by (simp add: u32_of_le_def u32_le_def le_nat_le_bytes)

lemma u64_of_le_u64_le [simp, le_simps]: "u64_of_le (u64_le w) = w"
  using unat_bound [of w] by (simp add: u64_of_le_def u64_le_def le_nat_le_bytes)

lemma u32_le_u32_of_le: "length bs = 4 \<Longrightarrow> u32_le (u32_of_le bs) = bs"
  using le_nat_less [of bs] le_bytes_le_nat [of bs]
  by (simp add: u32_of_le_def u32_le_def unat_of_nat take_bit_eq_mod)

lemma u16_le_u16_of_le: "length bs = 2 \<Longrightarrow> u16_le (u16_of_le bs) = bs"
  using le_nat_less [of bs] le_bytes_le_nat [of bs]
  by (simp add: u16_of_le_def u16_le_def unat_of_nat take_bit_eq_mod)

lemma u64_le_u64_of_le: "length bs = 8 \<Longrightarrow> u64_le (u64_of_le bs) = bs"
  using le_nat_less [of bs] le_bytes_le_nat [of bs]
  by (simp add: u64_of_le_def u64_le_def unat_of_nat take_bit_eq_mod)

lemma length_slice [simp]: "length (slice a b xs) = min (b - a) (length xs - a)"
  by (simp add: slice_def min.commute)

section \<open>Ordered-map facts\<close>

lemma map_of_om_put [simp, om_simps]: "map_of (om_put k v m) = (map_of m)(k \<mapsto> v)"
proof (induction m)
  case (Cons e m)
  then show ?case by (cases e) (auto simp: fun_eq_iff)
qed auto

lemma map_of_om_del [simp, om_simps]:
  "map_of (om_del k m) = (map_of m)(k := None)"
  by (induction m) (auto simp: om_del_def fun_eq_iff)

lemma set_fst_om_put [simp, om_simps]: "fst ` set (om_put k v m) = insert k (fst ` set m)"
  by (induction m) auto

lemma set_om_put_subset: "set (om_put k v m) \<subseteq> insert (k, v) (set m)"
  by (induction m) auto

lemma om_sorted_Nil [simp]: "om_sorted []"
  by (simp add: om_sorted_def)

lemma om_sorted_Cons [simp]:
  "om_sorted (e # m) \<longleftrightarrow> (\<forall>k \<in> fst ` set m. fst e < k) \<and> om_sorted m"
  by (auto simp: om_sorted_def)

lemma om_sorted_put [simp, intro]: "om_sorted m \<Longrightarrow> om_sorted (om_put k v m)"
proof (induction m)
  case (Cons e m)
  then show ?case by (auto dest: less_trans)
qed simp

lemma om_sorted_filter [simp, intro]: "om_sorted m \<Longrightarrow> om_sorted (filter P m)"
  by (induction m) auto

lemma om_sorted_del [simp, intro]: "om_sorted m \<Longrightarrow> om_sorted (om_del k m)"
  by (simp add: om_del_def)

lemma om_sorted_distinct: "om_sorted m \<Longrightarrow> distinct (map fst m)"
  by (induction m) auto

lemma om_sorted_get_iff: "om_sorted m \<Longrightarrow> om_get m k = Some v \<longleftrightarrow> (k, v) \<in> set m"
  using om_sorted_distinct map_of_eq_Some_iff by metis

lemma map_fst_unique:
  "map fst m = map fst m' \<Longrightarrow> set m = set m' \<Longrightarrow> distinct (map fst m) \<Longrightarrow> m = m'"
proof (rule nth_equalityI)
  assume h: "map fst m = map fst m'" "set m = set m'" "distinct (map fst m)"
  then show len: "length m = length m'" by (metis length_map)
  fix i assume i: "i < length m"
  then have "m ! i \<in> set m'" using h(2) by (metis nth_mem)
  then obtain j where j: "j < length m'" "m' ! j = m ! i" by (auto simp: in_set_conv_nth)
  then have "map fst m ! j = map fst m ! i" using i len h(1) by (metis nth_map)
  then have "i = j" using h(3) i j len by (metis length_map nth_eq_iff_index_eq)
  then show "m ! i = m' ! i" using j by simp
qed

lemma om_sorted_eqI:
  assumes "om_sorted m" and "om_sorted m'" and "\<And>k. om_get m k = om_get m' k"
  shows "m = m'"
proof -
  have "set m = set m'"
    using assms by (metis om_sorted_get_iff subset_antisym subrelI)
  moreover have "map fst m = map fst m'"
  proof (rule sorted_distinct_set_unique)
    show "sorted (map fst m)" "sorted (map fst m')"
      using assms(1,2) by (simp_all add: om_sorted_def strict_sorted_iff)
    show "distinct (map fst m)" "distinct (map fst m')"
      using assms(1,2) by (simp_all add: om_sorted_distinct)
    show "set (map fst m) = set (map fst m')" using \<open>set m = set m'\<close> by simp
  qed
  ultimately show ?thesis
    using om_sorted_distinct [OF assms(1)] map_fst_unique [of m m'] by simp
qed

lemma om_del_absent: "om_get m k = None \<Longrightarrow> om_del k m = m"
  by (induction m) (auto simp: om_del_def split: if_splits)

lemma map_of_filter_key:
  "map_of (filter (\<lambda>e. P (fst e)) m) k = (if P k then map_of m k else None)"
  by (induction m) auto

lemma length_om_del_less:
  "om_get m k \<noteq> None \<Longrightarrow> length (om_del k m) < length m"
proof (induction m)
  case (Cons e m)
  then show ?case
    using length_filter_le [of "\<lambda>e. fst e \<noteq> k" m]
    by (auto simp: om_del_def le_imp_less_Suc split: if_splits)
qed simp

lemma takeWhile_filter_closed:
  "sorted_wrt R xs \<Longrightarrow> (\<And>x y. R x y \<Longrightarrow> P y \<Longrightarrow> P x) \<Longrightarrow> takeWhile P xs = filter P xs"
proof (induction xs)
  case (Cons x xs)
  then have "\<not> P x \<Longrightarrow> \<forall>y \<in> set xs. \<not> P y" by auto
  then show ?case using Cons by (cases "P x") auto
qed simp

lemma dropWhile_filter_closed:
  "sorted_wrt R xs \<Longrightarrow> (\<And>x y. R x y \<Longrightarrow> P y \<Longrightarrow> P x) \<Longrightarrow>
   dropWhile P xs = filter (\<lambda>x. \<not> P x) xs"
proof (induction xs)
  case (Cons x xs)
  then have "\<not> P x \<Longrightarrow> \<forall>y \<in> set xs. \<not> P y" by auto
  then show ?case using Cons by (cases "P x") auto
qed simp

lemma in_set_map_filter: "x \<in> set (List.map_filter f xs) \<longleftrightarrow> (\<exists>y \<in> set xs. f y = Some x)"
  by (induction xs) (auto simp: List.map_filter_simps split: option.split)

lemma om_sorted_wrt: "om_sorted m \<longleftrightarrow> sorted_wrt (\<lambda>x y. fst x < fst y) m"
  by (simp add: om_sorted_def sorted_wrt_map)

section \<open>Successor of a machine word\<close>

lemma unat_succ: "c < n \<Longrightarrow> unat (c + 1 :: u64) = Suc (unat c)"
  using unat_bound [of n] by (simp add: word_less_nat_alt unat_word_ariths)

lemma word_succ_le: "c < n \<Longrightarrow> c + 1 \<le> (n :: u64)"
  using unat_succ [of c n] by (simp add: word_le_nat_alt word_less_nat_alt)

lemma word_succ_pos: "c < n \<Longrightarrow> 0 < c + (1 :: u64)"
  using unat_succ [of c n] by (simp add: word_less_nat_alt)

lemma word_less_succ: "c < n \<Longrightarrow> c < c + (1 :: u64)"
  using unat_succ [of c n] by (simp add: word_less_nat_alt)

lemma word_pos_of_less: "c < (n :: u64) \<Longrightarrow> 0 < n"
  by (meson le_less_trans word_zero_le)

lemma word_interval_split:
  assumes "c \<le> (c' :: u64)"
  shows "{0<..c'} = {0<..c} \<union> {c<..c'}"
proof -
  have "0 < x" if "c < x" for x using that by (rule word_pos_of_less)
  then show ?thesis using assms by (auto simp: order_trans)
qed

lemma word_between_succ: "c < k \<Longrightarrow> k \<le> c + (1 :: u64) \<Longrightarrow> k = c + 1"
  using word_succ_le by (simp add: antisym)

section \<open>The contract of an ordered map\<close>

text \<open>
  What the components rely on when they use an ordered map: reads after writes and after
  removals, and that writing keeps the key order that iteration depends on.
\<close>

locale ordered_map =
  fixes get :: "'m \<Rightarrow> 'k::linorder \<Rightarrow> 'v option"
    and put :: "'k \<Rightarrow> 'v \<Rightarrow> 'm \<Rightarrow> 'm"
    and del :: "'k \<Rightarrow> 'm \<Rightarrow> 'm"
    and inv :: "'m \<Rightarrow> bool"
  assumes get_put: "get (put k v m) k' = (if k' = k then Some v else get m k')"
    and get_del: "get (del k m) k' = (if k' = k then None else get m k')"
    and inv_put: "inv m \<Longrightarrow> inv (put k v m)"
    and inv_del: "inv m \<Longrightarrow> inv (del k m)"
begin

lemma put_put_same: "get (put k v (put k w m)) = get (put k v m)"
  by (rule ext) (simp add: get_put)

lemma put_comm: "k \<noteq> l \<Longrightarrow> get (put k v (put l w m)) = get (put l w (put k v m))"
  by (rule ext) (simp add: get_put)

lemma del_put: "get (del k (put k v m)) = get (del k m)"
  by (rule ext) (simp add: get_put get_del)

lemma inv_fold_put: "inv m \<Longrightarrow> inv (fold (\<lambda>(k, v). put k v) kvs m)"
  by (induction kvs arbitrary: m) (auto intro: inv_put)

end

interpretation om: ordered_map om_get om_put om_del om_sorted
  by unfold_locales auto

section \<open>The contract of a self-delimiting encoding\<close>

locale codec =
  fixes enc :: "'a \<Rightarrow> 'b list"
    and dec :: "'b list \<Rightarrow> ('a \<times> 'b list) option"
    and valid :: "'a \<Rightarrow> bool"
  assumes dec_enc: "valid x \<Longrightarrow> dec (enc x @ rest) = Some (x, rest)"
begin

lemma enc_inj_app:
  "valid x \<Longrightarrow> valid y \<Longrightarrow> enc x @ r = enc y @ s \<Longrightarrow> x = y \<and> r = s"
  by (metis dec_enc option.inject prod.inject)

lemma enc_inj: "valid x \<Longrightarrow> valid y \<Longrightarrow> enc x = enc y \<Longrightarrow> x = y"
  using enc_inj_app [of x y "[]" "[]"] by simp

lemma concat_inj:
  "list_all valid xs \<Longrightarrow> list_all valid ys \<Longrightarrow> length xs = length ys \<Longrightarrow>
   concat (map enc xs) @ r = concat (map enc ys) @ s \<Longrightarrow> xs = ys \<and> r = s"
proof (induction xs arbitrary: ys)
  case (Cons x xs)
  then obtain y ys' where ys: "ys = y # ys'" by (cases ys) auto
  have "x = y \<and> concat (map enc xs) @ r = concat (map enc ys') @ s"
    using Cons.prems ys by (intro enc_inj_app) auto
  then show ?case using Cons ys by auto
qed simp

end

definition split_dec :: "nat \<Rightarrow> (bytes \<Rightarrow> 'a) \<Rightarrow> bytes \<Rightarrow> ('a \<times> bytes) option" where
  "split_dec n f bs = (if length bs < n then None else Some (f (take n bs), drop n bs))"

interpretation u16c: codec u16_le "split_dec 2 u16_of_le" "\<lambda>_. True"
  by unfold_locales (simp add: split_dec_def)

interpretation u32c: codec u32_le "split_dec 4 u32_of_le" "\<lambda>_. True"
  by unfold_locales (simp add: split_dec_def)

interpretation u64c: codec u64_le "split_dec 8 u64_of_le" "\<lambda>_. True"
  by unfold_locales (simp add: split_dec_def)

end
