(* ===== verification/Roles.thy ===== *)
theory Roles
  imports Prelude
begin

text \<open>
  The vocabulary of the consensus group (\<open>paxos/roles.rs\<close>, \<open>paxos/error.rs\<close>): ballots with
  their lexicographic order, log entries, the replies of an acceptor, and the errors a
  proposer raises together with the retry action each one stands for.
\<close>

type_synonym slot_index = u64
type_synonym node_id = u64

section \<open>Ballots\<close>

datatype px_ballot = PxBallot (bal_round: u64) (bal_leader: node_id)

text \<open>The derived \<open>Ord\<close> of \<open>PxBallot\<close> compares the fields in declaration order.\<close>

instantiation px_ballot :: linorder
begin

definition less_eq_px_ballot :: "px_ballot \<Rightarrow> px_ballot \<Rightarrow> bool" where
  "b \<le> c \<longleftrightarrow> bal_round b < bal_round c \<or>
             bal_round b = bal_round c \<and> bal_leader b \<le> bal_leader c"

definition less_px_ballot :: "px_ballot \<Rightarrow> px_ballot \<Rightarrow> bool" where
  "b < c \<longleftrightarrow> bal_round b < bal_round c \<or>
             bal_round b = bal_round c \<and> bal_leader b < bal_leader c"

instance
proof
  fix x y z :: px_ballot
  show "(x < y) = (x \<le> y \<and> \<not> y \<le> x)"
    by (auto simp: less_eq_px_ballot_def less_px_ballot_def)
  show "x \<le> x"
    by (simp add: less_eq_px_ballot_def)
  show "x \<le> y \<Longrightarrow> y \<le> z \<Longrightarrow> x \<le> z"
    by (auto simp: less_eq_px_ballot_def)
  show "x \<le> y \<Longrightarrow> y \<le> x \<Longrightarrow> x = y"
    by (auto simp: less_eq_px_ballot_def intro: px_ballot.expand)
  show "x \<le> y \<or> y \<le> x"
    by (auto simp: less_eq_px_ballot_def)
qed

end

abbreviation ballot_zero :: px_ballot where
  "ballot_zero \<equiv> PxBallot 0 0"

section \<open>Log entries and replies\<close>

record px_log_entry =
  e_slot :: slot_index
  e_ballot :: px_ballot
  e_term :: u64
  e_payload :: bytes

record request_identity =
  ri_client_id :: u64
  ri_seq :: u64

datatype px_prepare_reply =
    PrepPromised slot_index "px_log_entry option"
  | PrepRejected slot_index px_ballot
  | PrepTermStale slot_index u64
  | PrepEpochMismatch u64

datatype px_accept_reply =
    AccAccepted slot_index px_ballot
  | AccRejected slot_index px_ballot
  | AccTermStale slot_index u64
  | AccEpochMismatch u64

section \<open>Errors and retry classification\<close>

datatype px_paxos_phase = PhasePrepare | PhaseAccept | PhaseLearn

datatype px_paxos_error =
    NotLeader string
  | PrepareRejected px_ballot
  | AcceptRejected px_ballot
  | ForeignValueChosen u64
  | QuorumUnavailable px_paxos_phase
  | MembershipEpochMismatch u64
  | TransportFailure px_paxos_phase string
  | Busy
  | TermStale u64
  | LeaseUnrenewable
  | InternalInvariantViolation string

datatype px_retry_action =
    RetrySameSlot "u64 option" bool
  | RetryNextSlot
  | Redirect string
  | FailRetryable
  | FailFatal

fun retry_action :: "px_paxos_error \<Rightarrow> px_retry_action" where
  "retry_action (NotLeader hint) = Redirect hint"
| "retry_action (PrepareRejected p) = RetrySameSlot (Some (bal_round p)) True"
| "retry_action (AcceptRejected p) = RetrySameSlot (Some (bal_round p + 1)) True"
| "retry_action (ForeignValueChosen s) = RetryNextSlot"
| "retry_action (QuorumUnavailable ph) = RetrySameSlot None False"
| "retry_action (TransportFailure ph msg) = RetrySameSlot None False"
| "retry_action (MembershipEpochMismatch e) = RetrySameSlot None False"
| "retry_action Busy = FailRetryable"
| "retry_action (TermStale t) = FailFatal"
| "retry_action LeaseUnrenewable = FailFatal"
| "retry_action (InternalInvariantViolation msg) = FailFatal"

fun keyword :: "px_paxos_error \<Rightarrow> string" where
  "keyword (NotLeader hint) = ''not_leader''"
| "keyword (PrepareRejected p) = ''prepare_rejected''"
| "keyword (AcceptRejected p) = ''accept_rejected''"
| "keyword (ForeignValueChosen s) = ''foreign_value_chosen''"
| "keyword (QuorumUnavailable ph) = ''quorum_unavailable''"
| "keyword (MembershipEpochMismatch e) = ''membership_epoch_mismatch''"
| "keyword (TransportFailure ph msg) = ''transport_failure''"
| "keyword Busy = ''busy''"
| "keyword (TermStale t) = ''term_stale''"
| "keyword LeaseUnrenewable = ''lease_unrenewable''"
| "keyword (InternalInvariantViolation msg) = ''internal_invariant_violation''"

section \<open>Facts\<close>

lemma ballot_le_simps [simp]:
  "PxBallot r l \<le> PxBallot r' l' \<longleftrightarrow> r < r' \<or> r = r' \<and> l \<le> l'"
  by (simp add: less_eq_px_ballot_def)

lemma ballot_less_simps [simp]:
  "PxBallot r l < PxBallot r' l' \<longleftrightarrow> r < r' \<or> r = r' \<and> l < l'"
  by (simp add: less_px_ballot_def)

lemma ballot_zero_least [simp]: "ballot_zero \<le> b"
  by (cases b) (auto simp: word_neq_0_conv)

lemma le_ballot_zero [simp]: "b \<le> ballot_zero \<longleftrightarrow> b = ballot_zero"
  by (metis antisym ballot_zero_least order_refl)

lemma ballot_zero_less [simp]: "ballot_zero < b \<longleftrightarrow> b \<noteq> ballot_zero"
  by (auto simp: less_le)

lemma not_less_ballot_zero [simp]: "\<not> b < ballot_zero"
  by (simp add: leD)

lemma keyword_determines_action:
  "keyword e = keyword e' \<Longrightarrow> retry_action e = FailFatal \<Longrightarrow> retry_action e' = FailFatal"
  by (cases e; cases e') simp_all

end
