(* ===== verification/Acceptor.thy ===== *)
theory Acceptor
  imports Roles
begin

text \<open>
  The acceptor of one group (\<open>paxos/acceptor.rs\<close>, \<open>paxos/slot_node.rs\<close>): a per-slot promise
  and accepted entry, a trim point below which slots no longer exist, and the highest slot
  ever opened. Each operation here is one whole call run without interference, so every
  compare-and-swap of the source succeeds at its first attempt; \<open>Acceptor_Race\<close> models the
  same calls at the granularity of their atomic accesses.
\<close>

section \<open>State\<close>

record px_slot_node =
  sn_promised :: "px_ballot option"
  sn_accepted :: "px_log_entry option"

record px_acceptor =
  acc_slots :: "(slot_index, px_slot_node) omap"
  acc_trim :: slot_index
  acc_highest :: slot_index

definition slot_node_default :: px_slot_node where
  "slot_node_default = \<lparr> sn_promised = None, sn_accepted = None \<rparr>"

definition acceptor_new :: px_acceptor where
  "acceptor_new = \<lparr> acc_slots = [], acc_trim = 0, acc_highest = 0 \<rparr>"

section \<open>Operations\<close>

definition open_slot :: "slot_index \<Rightarrow> px_acceptor \<Rightarrow> (px_slot_node \<times> px_acceptor) option" where
  "open_slot s a =
     (if s < acc_trim a then None
      else case om_get (acc_slots a) s of
        Some n \<Rightarrow> Some (n, a)
      | None \<Rightarrow> Some (slot_node_default,
                      a\<lparr>acc_slots := om_put s slot_node_default (acc_slots a)\<rparr>))"

definition bump_highest_seen :: "slot_index \<Rightarrow> px_acceptor \<Rightarrow> px_acceptor" where
  "bump_highest_seen s a = (if acc_highest a < s then a\<lparr>acc_highest := s\<rparr> else a)"

definition set_node :: "slot_index \<Rightarrow> px_slot_node \<Rightarrow> px_acceptor \<Rightarrow> px_acceptor" where
  "set_node s n a = a\<lparr>acc_slots := om_put s n (acc_slots a)\<rparr>"

definition prepare :: "slot_index \<Rightarrow> px_ballot \<Rightarrow> px_acceptor \<Rightarrow> px_prepare_reply \<times> px_acceptor" where
  "prepare s b a =
     (case open_slot s a of
        None \<Rightarrow> (PrepRejected s ballot_zero, a)
      | Some (n, a1) \<Rightarrow>
          let a2 = bump_highest_seen s a1;
              promise = (PrepPromised s (sn_accepted n), set_node s (n\<lparr>sn_promised := Some b\<rparr>) a2)
          in case sn_promised n of
               None \<Rightarrow> promise
             | Some current \<Rightarrow>
                 if b \<le> current then (PrepRejected s current, a2) else promise)"

datatype px_accept_result = ResAccepted slot_index px_ballot | ResRejected px_ballot

definition inner_accept ::
    "px_log_entry \<Rightarrow> px_acceptor \<Rightarrow> px_accept_result option \<times> px_acceptor" where
  "inner_accept e a =
     (let s = e_slot e; b = e_ballot e in
      case open_slot s a of
        None \<Rightarrow> (None, a)
      | Some (n, a1) \<Rightarrow>
          let a2 = bump_highest_seen s a1;
              current = (case sn_promised n of Some p \<Rightarrow> p | None \<Rightarrow> ballot_zero);
              n' = (if current < b then n\<lparr>sn_promised := Some b\<rparr> else n);
              taken = (Some (ResAccepted s b), set_node s (n'\<lparr>sn_accepted := Some e\<rparr>) a2)
          in case sn_promised n of
               None \<Rightarrow> taken
             | Some p \<Rightarrow> if b < p then (Some (ResRejected p), a2) else taken)"

definition accept :: "px_log_entry \<Rightarrow> px_acceptor \<Rightarrow> px_accept_reply \<times> px_acceptor" where
  "accept e a =
     (case inner_accept e a of
        (Some (ResAccepted s b), a') \<Rightarrow> (AccAccepted s b, a')
      | (Some (ResRejected c), a') \<Rightarrow> (AccRejected (e_slot e) c, a')
      | (None, a') \<Rightarrow> (AccRejected (e_slot e) ballot_zero, a'))"

definition accepted_at :: "px_acceptor \<Rightarrow> slot_index \<Rightarrow> px_log_entry option" where
  "accepted_at a s =
     (if s < acc_trim a then None
      else case om_get (acc_slots a) s of None \<Rightarrow> None | Some n \<Rightarrow> sn_accepted n)"

definition promised_at :: "px_acceptor \<Rightarrow> slot_index \<Rightarrow> px_ballot option" where
  "promised_at a s =
     (if s < acc_trim a then None
      else case om_get (acc_slots a) s of None \<Rightarrow> None | Some n \<Rightarrow> sn_promised n)"

definition install_chosen :: "px_log_entry \<Rightarrow> px_acceptor \<Rightarrow> bool \<times> px_acceptor" where
  "install_chosen e a =
     (let a0 = snd (prepare (e_slot e) (e_ballot e) a) in
      case open_slot (e_slot e) a0 of
        None \<Rightarrow> (False, a0)
      | Some (n, a1) \<Rightarrow>
          let a2 = bump_highest_seen (e_slot e) a1;
              installed = (True, set_node (e_slot e) (n\<lparr>sn_accepted := Some e\<rparr>) a2)
          in case sn_accepted n of
               None \<Rightarrow> installed
             | Some old \<Rightarrow>
                 if e_ballot e \<le> e_ballot old then (e_payload old = e_payload e, a2)
                 else installed)"

definition trim :: "slot_index \<Rightarrow> px_acceptor \<Rightarrow> px_acceptor" where
  "trim before a = a\<lparr>acc_trim := max (acc_trim a) before\<rparr>"

definition reclaim :: "px_acceptor \<Rightarrow> nat \<times> px_acceptor" where
  "reclaim a =
     (let dead = takeWhile (\<lambda>e. fst e < acc_trim a) (acc_slots a)
      in (length dead, a\<lparr>acc_slots := drop (length dead) (acc_slots a)\<rparr>))"

definition retained_slots :: "px_acceptor \<Rightarrow> nat" where
  "retained_slots a = length (acc_slots a)"

fun find_map :: "('a \<Rightarrow> 'b option) \<Rightarrow> 'a list \<Rightarrow> 'b option" where
  "find_map f [] = None"
| "find_map f (x # xs) = (case f x of Some y \<Rightarrow> Some y | None \<Rightarrow> find_map f xs)"

definition accepted_log_tip :: "px_acceptor \<Rightarrow> (slot_index \<times> u64) option" where
  "accepted_log_tip a =
     find_map (\<lambda>(s, n). map_option (\<lambda>e. (e_slot e, e_term e)) (sn_accepted n))
       (takeWhile (\<lambda>e. acc_trim a \<le> fst e) (rev (acc_slots a)))"

definition accepted_iter_range ::
    "px_acceptor \<Rightarrow> slot_index \<Rightarrow> slot_index \<Rightarrow> (slot_index \<times> px_log_entry) list" where
  "accepted_iter_range a start_slot end_slot_exclusive =
     (let start = max start_slot (acc_trim a) in
      if end_slot_exclusive \<le> start then []
      else List.map_filter (\<lambda>(s, n). map_option (\<lambda>e. (s, e)) (sn_accepted n))
             (takeWhile (\<lambda>e. fst e < end_slot_exclusive)
               (dropWhile (\<lambda>e. fst e < start) (acc_slots a))))"

section \<open>Invariant and per-slot view\<close>

definition node_ok :: "slot_index \<Rightarrow> px_slot_node \<Rightarrow> bool" where
  "node_ok s n =
     (case sn_accepted n of
        None \<Rightarrow> True
      | Some e \<Rightarrow> e_slot e = s \<and>
          e_ballot e \<le> (case sn_promised n of Some p \<Rightarrow> p | None \<Rightarrow> ballot_zero))"

definition acceptor_inv :: "px_acceptor \<Rightarrow> bool" where
  "acceptor_inv a \<longleftrightarrow>
     om_sorted (acc_slots a) \<and>
     (\<forall>(s, n) \<in> set (acc_slots a). s \<le> acc_highest a \<and> node_ok s n)"

text \<open>Whether a Prepare is granted and whether an Accept is admitted, read off the view.\<close>

definition grants :: "px_acceptor \<Rightarrow> slot_index \<Rightarrow> px_ballot \<Rightarrow> bool" where
  "grants a s b \<longleftrightarrow> acc_trim a \<le> s \<and>
     (case promised_at a s of None \<Rightarrow> True | Some c \<Rightarrow> c < b)"

definition admits :: "px_acceptor \<Rightarrow> px_log_entry \<Rightarrow> bool" where
  "admits a e \<longleftrightarrow> acc_trim a \<le> e_slot e \<and>
     (case promised_at a (e_slot e) of None \<Rightarrow> True | Some p \<Rightarrow> p \<le> e_ballot e)"

text \<open>An absent promise counts as the zero ballot.\<close>

definition promise_floor :: "px_acceptor \<Rightarrow> slot_index \<Rightarrow> px_ballot" where
  "promise_floor a s = (case promised_at a s of Some p \<Rightarrow> p | None \<Rightarrow> ballot_zero)"

text \<open>
  The proofs see a call through the node it works on: \<open>node_at\<close> is the node \<open>open_slot\<close>
  returns, \<open>touch\<close> the state it leaves behind once the highest slot is recorded.
\<close>

definition node_at :: "px_acceptor \<Rightarrow> slot_index \<Rightarrow> px_slot_node" where
  "node_at a s = (case om_get (acc_slots a) s of Some n \<Rightarrow> n | None \<Rightarrow> slot_node_default)"

definition touch :: "slot_index \<Rightarrow> px_acceptor \<Rightarrow> px_acceptor" where
  "touch s a = bump_highest_seen s
     (case om_get (acc_slots a) s of Some n \<Rightarrow> a | None \<Rightarrow> set_node s slot_node_default a)"

named_theorems acc_view \<open>how each step changes the promised and accepted views\<close>

lemma default_node [simp]:
  "sn_promised slot_node_default = None" "sn_accepted slot_node_default = None"
  by (simp_all add: slot_node_default_def)

lemma promised_at_node: "promised_at a s = (if s < acc_trim a then None else sn_promised (node_at a s))"
  by (simp add: promised_at_def node_at_def split: option.split)

lemma accepted_at_node: "accepted_at a s = (if s < acc_trim a then None else sn_accepted (node_at a s))"
  by (simp add: accepted_at_def node_at_def split: option.split)

lemma set_node_trim [simp]: "acc_trim (set_node s n a) = acc_trim a"
  by (simp add: set_node_def)

lemma bump_trim [simp]: "acc_trim (bump_highest_seen s a) = acc_trim a"
  by (simp add: bump_highest_seen_def)

lemma bump_slots [simp]: "acc_slots (bump_highest_seen s a) = acc_slots a"
  by (simp add: bump_highest_seen_def)

lemma touch_trim [simp]: "acc_trim (touch s a) = acc_trim a"
  by (simp add: touch_def split: option.split)

lemma node_at_set_node [simp]: "node_at (set_node s n a) s' = (if s' = s then n else node_at a s')"
  by (simp add: node_at_def set_node_def)

lemma node_at_bump [simp]: "node_at (bump_highest_seen s a) = node_at a"
  by (simp add: node_at_def fun_eq_iff)

lemma node_at_touch [simp]: "node_at (touch s a) = node_at a"
  by (auto simp: touch_def fun_eq_iff node_at_def set_node_def split: option.split)

lemma open_slot_eq:
  "open_slot s a =
     (if s < acc_trim a then None
      else Some (node_at a s,
             case om_get (acc_slots a) s of Some n \<Rightarrow> a | None \<Rightarrow> set_node s slot_node_default a))"
  by (simp add: open_slot_def node_at_def set_node_def split: option.split)

lemma promise_floor_eq:
  "acc_trim a \<le> s \<Longrightarrow>
   promise_floor a s = (case sn_promised (node_at a s) of Some p \<Rightarrow> p | None \<Rightarrow> ballot_zero)"
  by (simp add: promise_floor_def promised_at_node leD)

lemma prepare_eq:
  "prepare s b a =
     (if s < acc_trim a then (PrepRejected s ballot_zero, a)
      else if grants a s b
      then (PrepPromised s (accepted_at a s),
            set_node s ((node_at a s)\<lparr>sn_promised := Some b\<rparr>) (touch s a))
      else (PrepRejected s (promise_floor a s), touch s a))"
  by (simp add: prepare_def open_slot_eq grants_def promise_floor_def promised_at_node
      accepted_at_node Let_def leD leI touch_def [symmetric] split: option.split)

lemma accept_eq:
  "accept e a =
     (let s = e_slot e; n = node_at a s in
      if s < acc_trim a then (AccRejected s ballot_zero, a)
      else if admits a e
      then (AccAccepted s (e_ballot e),
            set_node s
              ((if promise_floor a s < e_ballot e then n\<lparr>sn_promised := Some (e_ballot e)\<rparr>
                else n)\<lparr>sn_accepted := Some e\<rparr>) (touch s a))
      else (AccRejected s (promise_floor a s), touch s a))"
  by (simp add: accept_def inner_accept_def open_slot_eq admits_def promise_floor_def
      promised_at_node Let_def leD leI touch_def [symmetric] split: option.split)

lemma view_set_node [acc_view]:
  "acc_trim a \<le> s \<Longrightarrow> promised_at (set_node s n a) = (promised_at a)(s := sn_promised n)"
  "acc_trim a \<le> s \<Longrightarrow> accepted_at (set_node s n a) = (accepted_at a)(s := sn_accepted n)"
  by (auto simp: promised_at_node accepted_at_node fun_eq_iff)

lemma view_touch [acc_view]:
  "promised_at (touch s a) = promised_at a" "accepted_at (touch s a) = accepted_at a"
  by (auto simp: promised_at_node accepted_at_node fun_eq_iff)

lemma prepare_trim [simp]: "acc_trim (snd (prepare s b a)) = acc_trim a"
  by (simp add: prepare_eq)

lemma accept_trim [simp]: "acc_trim (snd (accept e a)) = acc_trim a"
  by (simp add: accept_eq Let_def)

section \<open>Functional behaviour\<close>

lemma prepare_reply:
  "fst (prepare s b a) =
     (if grants a s b then PrepPromised s (accepted_at a s)
      else PrepRejected s (promise_floor a s))"
  by (auto simp: prepare_eq grants_def promise_floor_def promised_at_node)

lemma prepare_promised_at [acc_view]:
  "promised_at (snd (prepare s b a)) =
     (if grants a s b then (promised_at a)(s := Some b) else promised_at a)"
  by (auto simp: prepare_eq grants_def view_set_node view_touch)

lemma prepare_accepted_at [acc_view]: "accepted_at (snd (prepare s b a)) = accepted_at a"
  by (auto simp: prepare_eq grants_def view_set_node view_touch fun_eq_iff accepted_at_node)

lemma accept_reply:
  "fst (accept e a) =
     (if admits a e then AccAccepted (e_slot e) (e_ballot e)
      else AccRejected (e_slot e) (promise_floor a (e_slot e)))"
  by (auto simp: accept_eq Let_def admits_def promise_floor_def promised_at_node)

lemma accept_accepted_at [acc_view]:
  "accepted_at (snd (accept e a)) =
     (if admits a e then (accepted_at a)(e_slot e := Some e) else accepted_at a)"
  by (auto simp: accept_eq Let_def admits_def view_set_node view_touch)

lemma accept_promised_at [acc_view]:
  "promised_at (snd (accept e a)) =
     (if admits a e \<and> promise_floor a (e_slot e) < e_ballot e
      then (promised_at a)(e_slot e := Some (e_ballot e)) else promised_at a)"
  by (auto simp: accept_eq Let_def admits_def view_set_node view_touch fun_eq_iff promised_at_node)

lemma install_chosen_eq:
  "install_chosen e a =
     (let s = e_slot e; a0 = snd (prepare s (e_ballot e) a) in
      if s < acc_trim a then (False, a0)
      else case accepted_at a s of
          Some old \<Rightarrow>
            if e_ballot e \<le> e_ballot old then (e_payload old = e_payload e, touch s a0)
            else (True, set_node s ((node_at a0 s)\<lparr>sn_accepted := Some e\<rparr>) (touch s a0))
        | None \<Rightarrow> (True, set_node s ((node_at a0 s)\<lparr>sn_accepted := Some e\<rparr>) (touch s a0)))"
proof -
  have "sn_accepted (node_at (snd (prepare (e_slot e) (e_ballot e) a)) (e_slot e)) =
        accepted_at a (e_slot e)" if "\<not> e_slot e < acc_trim a"
    using that fun_cong [OF prepare_accepted_at] by (metis accepted_at_node prepare_trim)
  then show ?thesis
    by (simp add: install_chosen_def open_slot_eq Let_def touch_def [symmetric] split: option.split)
qed

definition installs :: "px_acceptor \<Rightarrow> px_log_entry \<Rightarrow> bool" where
  "installs a e \<longleftrightarrow> acc_trim a \<le> e_slot e \<and>
     (case accepted_at a (e_slot e) of None \<Rightarrow> True | Some old \<Rightarrow> e_ballot old < e_ballot e)"

lemma install_chosen_accepted_at [acc_view]:
  "accepted_at (snd (install_chosen e a)) =
     (if installs a e then (accepted_at a)(e_slot e := Some e) else accepted_at a)"
  by (auto simp: install_chosen_eq installs_def Let_def acc_view split: option.split)

lemma install_chosen_promised_at [acc_view]:
  "promised_at (snd (install_chosen e a)) =
     (if grants a (e_slot e) (e_ballot e)
      then (promised_at a)(e_slot e := Some (e_ballot e)) else promised_at a)"
proof -
  let ?a0 = "snd (prepare (e_slot e) (e_ballot e) a)"
  have "promised_at (snd (install_chosen e a)) = promised_at ?a0"
    by (auto simp: install_chosen_eq Let_def view_set_node view_touch fun_eq_iff promised_at_node
        split: option.split)
  then show ?thesis by (simp add: prepare_promised_at)
qed

lemma install_chosen_result:
  "fst (install_chosen e a) \<longleftrightarrow>
     installs a e \<or>
     (\<exists>old. accepted_at a (e_slot e) = Some old \<and> e_ballot e \<le> e_ballot old \<and>
            e_payload old = e_payload e)"
  by (auto simp: install_chosen_eq installs_def Let_def accepted_at_def split: option.split if_splits)

lemma install_chosen_trim [simp]: "acc_trim (snd (install_chosen e a)) = acc_trim a"
  by (simp add: install_chosen_eq Let_def split: option.split)

lemma trim_views [acc_view]:
  "promised_at (trim t a) s = (if s < t then None else promised_at a s)"
  "accepted_at (trim t a) s = (if s < t then None else accepted_at a s)"
  by (auto simp: trim_def promised_at_def accepted_at_def less_max_iff_disj)

lemma trim_trim [simp]: "acc_trim (trim t a) = max (acc_trim a) t"
  by (simp add: trim_def)

section \<open>Preservation of the invariant\<close>

lemma acceptor_inv_new [simp]: "acceptor_inv acceptor_new"
  by (simp add: acceptor_inv_def acceptor_new_def)

lemma node_ok_default [simp]: "node_ok s slot_node_default"
  by (simp add: node_ok_def)

lemma inv_node_at: "acceptor_inv a \<Longrightarrow> node_ok s (node_at a s)"
  by (auto simp: acceptor_inv_def node_at_def dest: map_of_SomeD split: option.split)

lemma inv_touch_set:
  assumes "acceptor_inv a" and "node_ok s n"
  shows "acceptor_inv (set_node s n (touch s a))"
  using assms set_om_put_subset
  by (auto simp: acceptor_inv_def touch_def set_node_def bump_highest_seen_def
      dest!: set_mp [OF set_om_put_subset] split: option.splits)

lemma inv_touch [simp, intro]: "acceptor_inv a \<Longrightarrow> acceptor_inv (touch s a)"
  by (auto simp: acceptor_inv_def touch_def set_node_def bump_highest_seen_def
      dest!: set_mp [OF set_om_put_subset] split: option.splits)

lemma inv_prepare [simp, intro]: "acceptor_inv a \<Longrightarrow> acceptor_inv (snd (prepare s b a))"
proof -
  assume inv: "acceptor_inv a"
  have "node_ok s ((node_at a s)\<lparr>sn_promised := Some b\<rparr>)" if "grants a s b"
    using that inv_node_at [OF inv, of s]
    by (auto simp: node_ok_def grants_def promised_at_node leD split: option.splits)
  then show ?thesis using inv by (auto simp: prepare_eq intro: inv_touch_set)
qed

lemma inv_accept [simp, intro]: "acceptor_inv a \<Longrightarrow> acceptor_inv (snd (accept e a))"
  by (auto simp: accept_eq Let_def node_ok_def promise_floor_eq admits_def promised_at_node
      intro!: inv_touch_set split: option.splits)

lemma prepare_floor:
  "acc_trim a \<le> s \<Longrightarrow> b \<le> promise_floor (snd (prepare s b a)) s"
  by (auto simp: promise_floor_def prepare_promised_at grants_def split: option.splits)

lemma inv_install_chosen [simp, intro]:
  assumes inv: "acceptor_inv a"
  shows "acceptor_inv (snd (install_chosen e a))"
proof -
  let ?a0 = "snd (prepare (e_slot e) (e_ballot e) a)"
  have "node_ok (e_slot e) ((node_at ?a0 (e_slot e))\<lparr>sn_accepted := Some e\<rparr>)"
    if "\<not> e_slot e < acc_trim a"
    using that prepare_floor [of a "e_slot e" "e_ballot e"]
    by (simp add: node_ok_def promise_floor_eq)
  then show ?thesis
    using inv by (auto simp: install_chosen_eq Let_def intro!: inv_touch_set split: option.split)
qed

lemma inv_trim [simp, intro]: "acceptor_inv a \<Longrightarrow> acceptor_inv (trim t a)"
  by (simp add: acceptor_inv_def trim_def)

lemma reclaim_eq:
  assumes "acceptor_inv a"
  shows "reclaim a =
     (length (filter (\<lambda>e. fst e < acc_trim a) (acc_slots a)),
      a\<lparr>acc_slots := filter (\<lambda>e. acc_trim a \<le> fst e) (acc_slots a)\<rparr>)"
proof -
  let ?P = "\<lambda>e :: slot_index \<times> px_slot_node. fst e < acc_trim a"
  have sorted: "sorted_wrt (\<lambda>x y. fst x < fst y) (acc_slots a)"
    using assms by (simp add: acceptor_inv_def om_sorted_wrt)
  have "takeWhile ?P (acc_slots a) = filter ?P (acc_slots a)"
    using sorted by (rule takeWhile_filter_closed) simp
  moreover have "dropWhile ?P (acc_slots a) = filter (\<lambda>e. acc_trim a \<le> fst e) (acc_slots a)"
    using dropWhile_filter_closed [OF sorted, of ?P] by (simp add: not_less)
  ultimately show ?thesis
    by (simp add: reclaim_def Let_def dropWhile_eq_drop)
qed

lemma inv_reclaim [simp, intro]: "acceptor_inv a \<Longrightarrow> acceptor_inv (snd (reclaim a))"
  by (auto simp: reclaim_eq) (auto simp: acceptor_inv_def)

lemma reclaim_views [acc_view]:
  assumes "acceptor_inv a"
  shows "promised_at (snd (reclaim a)) = promised_at a"
    and "accepted_at (snd (reclaim a)) = accepted_at a"
  using map_of_filter_key [of "\<lambda>k. acc_trim a \<le> k" "acc_slots a"]
  by (auto simp: reclaim_eq [OF assms] promised_at_def accepted_at_def fun_eq_iff)

section \<open>Ordered reads\<close>

lemma find_map_descending:
  "sorted_wrt (\<lambda>x y. fst y < fst x) xs \<Longrightarrow>
   find_map f xs = Some y \<longleftrightarrow>
   (\<exists>x \<in> set xs. f x = Some y \<and> (\<forall>x' \<in> set xs. fst x < (fst x' :: 'k::linorder) \<longrightarrow> f x' = None))"
proof (induction xs)
  case (Cons a xs)
  then show ?case by (auto split: option.split dest: less_asym)
qed simp

lemma accepted_at_set:
  assumes "acceptor_inv a"
  shows "accepted_at a s = Some e \<longleftrightarrow>
    acc_trim a \<le> s \<and> (\<exists>n. (s, n) \<in> set (acc_slots a) \<and> sn_accepted n = Some e)"
  using assms
  by (auto simp: acceptor_inv_def accepted_at_def om_sorted_get_iff [symmetric]
      split: option.split)

lemma accepted_at_none:
  "acceptor_inv a \<Longrightarrow> accepted_at a s = None \<longleftrightarrow>
    (\<forall>n. acc_trim a \<le> s \<longrightarrow> (s, n) \<in> set (acc_slots a) \<longrightarrow> sn_accepted n = None)"
  by (metis accepted_at_set not_Some_eq)

lemma inv_accepted_slot: "acceptor_inv a \<Longrightarrow> accepted_at a s = Some e \<Longrightarrow> e_slot e = s"
  using inv_node_at [of a s] by (auto simp: accepted_at_node node_ok_def split: if_splits)

lemma inv_accepted_ballot:
  "acceptor_inv a \<Longrightarrow> accepted_at a s = Some e \<Longrightarrow> e_ballot e \<le> promise_floor a s"
  using inv_node_at [of a s]
  by (auto simp: accepted_at_node node_ok_def promise_floor_def promised_at_node split: if_splits)

lemma inv_accepted_highest:
  "acceptor_inv a \<Longrightarrow> accepted_at a s = Some e \<Longrightarrow> s \<le> acc_highest a"
  by (auto simp: accepted_at_set acceptor_inv_def)

lemma accepted_log_tip_iff:
  assumes inv: "acceptor_inv a"
  shows "accepted_log_tip a = Some (s, t) \<longleftrightarrow>
    (\<exists>e. accepted_at a s = Some e \<and> e_term e = t) \<and> (\<forall>s'. s < s' \<longrightarrow> accepted_at a s' = None)"
proof -
  let ?f = "\<lambda>(s, n). map_option (\<lambda>e. (e_slot e, e_term e)) (sn_accepted n)"
  let ?xs = "filter (\<lambda>e. acc_trim a \<le> fst e) (rev (acc_slots a))"
  have desc: "sorted_wrt (\<lambda>x y. fst y < fst x) (rev (acc_slots a))"
    using inv by (simp add: acceptor_inv_def om_sorted_wrt sorted_wrt_rev)
  have tip: "accepted_log_tip a = find_map ?f ?xs"
    using takeWhile_filter_closed [OF desc, of "\<lambda>e. acc_trim a \<le> fst e"]
    by (simp add: accepted_log_tip_def)
  have slot: "(k, n) \<in> set (acc_slots a) \<Longrightarrow> sn_accepted n = Some e \<Longrightarrow> e_slot e = k" for k n e
    using inv by (auto simp: acceptor_inv_def node_ok_def)
  have iff: "accepted_log_tip a = Some (s, t) \<longleftrightarrow>
      (\<exists>x \<in> set ?xs. ?f x = Some (s, t) \<and> (\<forall>x' \<in> set ?xs. fst x < fst x' \<longrightarrow> ?f x' = None))"
    unfolding tip by (rule find_map_descending) (rule sorted_wrt_filter [OF desc])
  have mem: "(\<exists>x \<in> set ?xs. fst x = k \<and> ?f x = Some (s, t)) \<longleftrightarrow>
      k = s \<and> (\<exists>e. accepted_at a s = Some e \<and> e_term e = t)" for k
    using slot by (fastforce simp: accepted_at_set [OF inv])
  have none: "(\<forall>x' \<in> set ?xs. k < fst x' \<longrightarrow> ?f x' = None) \<longleftrightarrow>
      (\<forall>s'. k < s' \<longrightarrow> accepted_at a s' = None)" for k
    by (auto simp: accepted_at_none [OF inv])
  have "(\<exists>x \<in> set ?xs. ?f x = Some (s, t) \<and> (\<forall>s'. fst x < s' \<longrightarrow> accepted_at a s' = None)) \<longleftrightarrow>
      (\<exists>k. (\<exists>x \<in> set ?xs. fst x = k \<and> ?f x = Some (s, t)) \<and>
           (\<forall>s'. k < s' \<longrightarrow> accepted_at a s' = None))"
    by blast
  then show ?thesis unfolding iff none mem by simp
qed

lemma accepted_iter_range_set:
  assumes inv: "acceptor_inv a"
  shows "(s, e) \<in> set (accepted_iter_range a lo hi) \<longleftrightarrow>
    lo \<le> s \<and> s < hi \<and> accepted_at a s = Some e"
proof -
  have asc: "sorted_wrt (\<lambda>x y. fst x < fst y) (acc_slots a)"
    using inv by (simp add: acceptor_inv_def om_sorted_wrt)
  let ?lo = "max lo (acc_trim a)"
  have drop: "dropWhile (\<lambda>e. fst e < ?lo) (acc_slots a) =
      filter (\<lambda>e. \<not> fst e < ?lo) (acc_slots a)"
    using asc by (rule dropWhile_filter_closed) auto
  have "takeWhile (\<lambda>e. fst e < hi) (filter (\<lambda>e. \<not> fst e < ?lo) (acc_slots a)) =
      filter (\<lambda>e. fst e < hi) (filter (\<lambda>e. \<not> fst e < ?lo) (acc_slots a))"
    by (rule takeWhile_filter_closed [OF sorted_wrt_filter [OF asc]]) simp
  then show ?thesis
    unfolding accepted_iter_range_def Let_def drop
    by (simp add: accepted_at_set [OF inv] in_set_map_filter not_less) (force simp: le_max_iff_disj)
qed

section \<open>Abstract specification\<close>

text \<open>
  What the acceptor promises, slot by slot: a slot is gone (below the trim point) or carries
  a promise and a vote. \<open>abs_view\<close> reads this specification state off the ordered map.
\<close>

type_synonym slot_view = "(px_ballot option \<times> px_log_entry option) option"

definition abs_view :: "px_acceptor \<Rightarrow> slot_index \<Rightarrow> slot_view" where
  "abs_view a s =
     (if s < acc_trim a then None else Some (promised_at a s, accepted_at a s))"

definition spec_prepare ::
    "slot_index \<Rightarrow> px_ballot \<Rightarrow> slot_view \<Rightarrow> px_prepare_reply \<times> slot_view" where
  "spec_prepare s b v =
     (case v of
        None \<Rightarrow> (PrepRejected s ballot_zero, None)
      | Some (Some p, w) \<Rightarrow>
          if p < b then (PrepPromised s w, Some (Some b, w)) else (PrepRejected s p, Some (Some p, w))
      | Some (None, w) \<Rightarrow> (PrepPromised s w, Some (Some b, w)))"

definition spec_accept :: "px_log_entry \<Rightarrow> slot_view \<Rightarrow> px_accept_reply \<times> slot_view" where
  "spec_accept e v =
     (let s = e_slot e; b = e_ballot e in
      case v of
        None \<Rightarrow> (AccRejected s ballot_zero, None)
      | Some (Some p, w) \<Rightarrow>
          if b < p then (AccRejected s p, Some (Some p, w))
          else (AccAccepted s b, Some (Some b, Some e))
      | Some (None, w) \<Rightarrow>
          (AccAccepted s b, Some (if b = ballot_zero then None else Some b, Some e)))"

section \<open>Runs of an acceptor\<close>

datatype acceptor_op =
    OpPrepare slot_index px_ballot
  | OpAccept px_log_entry
  | OpInstall px_log_entry
  | OpTrim slot_index
  | OpReclaim

fun acceptor_step :: "acceptor_op \<Rightarrow> px_acceptor \<Rightarrow> px_acceptor" where
  "acceptor_step (OpPrepare s b) a = snd (prepare s b a)"
| "acceptor_step (OpAccept e) a = snd (accept e a)"
| "acceptor_step (OpInstall e) a = snd (install_chosen e a)"
| "acceptor_step (OpTrim t) a = trim t a"
| "acceptor_step OpReclaim a = snd (reclaim a)"

text \<open>
  The contract a proposer relies on: whatever a sequence of calls does to a slot that stays
  live, its promise never goes down, and its vote is only replaced by one of a ballot at
  least as high, never above the promise.
\<close>

locale voting_register =
  fixes step :: "'op \<Rightarrow> 'st \<Rightarrow> 'st"
    and inv :: "'st \<Rightarrow> bool"
    and live :: "'st \<Rightarrow> 'slot \<Rightarrow> bool"
    and floor :: "'st \<Rightarrow> 'slot \<Rightarrow> px_ballot"
    and vote :: "'st \<Rightarrow> 'slot \<Rightarrow> px_log_entry option"
  assumes inv_step: "inv a \<Longrightarrow> inv (step op a)"
    and live_step: "inv a \<Longrightarrow> live (step op a) s \<Longrightarrow> live a s"
    and floor_step: "inv a \<Longrightarrow> live (step op a) s \<Longrightarrow> floor a s \<le> floor (step op a) s"
    and vote_floor: "inv a \<Longrightarrow> vote a s = Some e \<Longrightarrow> e_ballot e \<le> floor a s"
    and vote_step: "inv a \<Longrightarrow> live (step op a) s \<Longrightarrow> vote a s = Some e \<Longrightarrow>
      \<exists>e'. vote (step op a) s = Some e' \<and> (e' = e \<or> e_ballot e \<le> e_ballot e')"
begin

lemma run_inv: "inv a \<Longrightarrow> inv (fold step ops a)"
  by (induction ops arbitrary: a) (auto intro: inv_step)

lemma run_live: "inv a \<Longrightarrow> live (fold step ops a) s \<Longrightarrow> live a s"
  by (induction ops arbitrary: a) (auto intro: inv_step live_step)

lemma run_floor: "inv a \<Longrightarrow> live (fold step ops a) s \<Longrightarrow> floor a s \<le> floor (fold step ops a) s"
proof (induction ops arbitrary: a)
  case (Cons op ops)
  then have "live (step op a) s" using run_live inv_step by simp
  then show ?case using Cons floor_step inv_step by (metis fold_simps(2) order_trans)
qed simp

lemma run_vote:
  "inv a \<Longrightarrow> live (fold step ops a) s \<Longrightarrow> vote a s = Some e \<Longrightarrow>
   \<exists>e'. vote (fold step ops a) s = Some e' \<and> e_ballot e \<le> e_ballot e' \<and>
        e_ballot e' \<le> floor (fold step ops a) s"
proof (induction ops arbitrary: a e)
  case Nil
  then show ?case using vote_floor by auto
next
  case (Cons op ops)
  then have "live (step op a) s" using run_live inv_step by simp
  then obtain e1 where "vote (step op a) s = Some e1" "e_ballot e \<le> e_ballot e1"
    using vote_step Cons.prems by (metis order_refl)
  then show ?case using Cons.IH [of "step op a" e1] Cons.prems inv_step
    by (auto intro: order_trans)
qed

end

lemma acceptor_step_inv: "acceptor_inv a \<Longrightarrow> acceptor_inv (acceptor_step op a)"
  by (cases op) auto

lemma reclaim_trim [simp]: "acceptor_inv a \<Longrightarrow> acc_trim (snd (reclaim a)) = acc_trim a"
  by (simp add: reclaim_eq)

lemma acceptor_step_trim: "acceptor_inv a \<Longrightarrow> acc_trim a \<le> acc_trim (acceptor_step op a)"
  by (cases op) auto

lemma acceptor_step_floor:
  assumes "acceptor_inv a" and "acc_trim (acceptor_step op a) \<le> s"
  shows "promise_floor a s \<le> promise_floor (acceptor_step op a) s"
  using assms
  by (cases op)
     (auto simp: promise_floor_def acc_view grants_def split: option.split)

lemma acceptor_step_vote:
  assumes inv: "acceptor_inv a" and "acc_trim (acceptor_step op a) \<le> s"
    and vote: "accepted_at a s = Some e"
  shows "\<exists>e'. accepted_at (acceptor_step op a) s = Some e' \<and>
              (e' = e \<or> e_ballot e \<le> e_ballot e')"
proof -
  have below: "admits a n \<Longrightarrow> e_slot n = s \<Longrightarrow> e_ballot e \<le> e_ballot n" for n
    using inv_accepted_ballot [OF inv vote]
    by (auto simp: admits_def promise_floor_def split: option.splits)
  show ?thesis using assms below
    by (cases op) (auto simp: acc_view installs_def less_imp_le)
qed

interpretation acc: voting_register acceptor_step acceptor_inv
  "\<lambda>a s. acc_trim a \<le> s" promise_floor accepted_at
proof unfold_locales
  fix a op s
  assume "acceptor_inv a" and "acc_trim (acceptor_step op a) \<le> s"
  then show "acc_trim a \<le> s" by (rule order_trans [OF acceptor_step_trim])
qed (auto intro: acceptor_step_inv acceptor_step_floor acceptor_step_vote inv_accepted_ballot)

definition run_acceptor :: "acceptor_op list \<Rightarrow> px_acceptor \<Rightarrow> px_acceptor" where
  "run_acceptor ops a = fold acceptor_step ops a"

lemma run_acceptor_inv: "acceptor_inv (run_acceptor ops acceptor_new)"
  by (simp add: run_acceptor_def acc.run_inv)

section \<open>Properties\<close>

text \<open>C11 The acceptor refines its per-slot specification: the reply of Prepare and of Accept,
  the new state of the addressed slot and the untouched state of every other slot are those of
  the specification, for every state of the ordered map.\<close>

theorem acceptor_refines_spec:
  "fst (prepare s b a) = fst (spec_prepare s b (abs_view a s)) \<and>
   abs_view (snd (prepare s b a)) = (abs_view a)(s := snd (spec_prepare s b (abs_view a s))) \<and>
   fst (accept e a) = fst (spec_accept e (abs_view a (e_slot e))) \<and>
   abs_view (snd (accept e a)) =
     (abs_view a)(e_slot e := snd (spec_accept e (abs_view a (e_slot e))))"
proof -
  have "fst (prepare s b a) = fst (spec_prepare s b (abs_view a s))"
    by (auto simp: prepare_reply spec_prepare_def abs_view_def grants_def promise_floor_def
        promised_at_node split: option.split)
  moreover have "abs_view (snd (prepare s b a)) =
      (abs_view a)(s := snd (spec_prepare s b (abs_view a s)))"
    by (auto simp: fun_eq_iff spec_prepare_def abs_view_def acc_view grants_def split: option.split)
  moreover have "fst (accept e a) = fst (spec_accept e (abs_view a (e_slot e)))"
    by (auto simp: accept_reply spec_accept_def abs_view_def admits_def promise_floor_def
        promised_at_node Let_def split: option.split)
  moreover have "abs_view (snd (accept e a)) =
      (abs_view a)(e_slot e := snd (spec_accept e (abs_view a (e_slot e))))"
    by (auto simp: fun_eq_iff spec_accept_def abs_view_def acc_view admits_def promise_floor_def
        Let_def split: option.split)
  ultimately show ?thesis by blast
qed

text \<open>C5 Ballots are monotone per slot. Between any two points of any run of the acceptor
  (Prepare, Accept, installation of chosen values, trim, reclamation), a slot that is still
  above the trim point never lowers its promise, never loses its vote, replaces it only by a
  vote of at least the same ballot, and never holds a vote above its promise.\<close>

theorem acceptor_monotone:
  assumes "a = run_acceptor ops acceptor_new" and "a' = run_acceptor ops' a"
    and "acc_trim a' \<le> s"
  shows "promise_floor a s \<le> promise_floor a' s \<and>
    (\<forall>e. accepted_at a s = Some e \<longrightarrow>
      (\<exists>e'. accepted_at a' s = Some e' \<and> e_slot e' = s \<and> e_ballot e \<le> e_ballot e' \<and>
            e_ballot e' \<le> promise_floor a' s))"
proof -
  have inv: "acceptor_inv a" using assms(1) run_acceptor_inv by simp
  have "promise_floor a s \<le> promise_floor a' s"
    using assms acc.run_floor [OF inv] by (simp add: run_acceptor_def)
  moreover have inv': "acceptor_inv a'"
    using assms(2) acc.run_inv [OF inv] by (simp add: run_acceptor_def)
  moreover have "\<exists>e'. accepted_at a' s = Some e' \<and> e_ballot e \<le> e_ballot e' \<and>
            e_ballot e' \<le> promise_floor a' s" if "accepted_at a s = Some e" for e
    using that assms(2,3) acc.run_vote [OF inv, of ops' s e] by (simp add: run_acceptor_def)
  ultimately show ?thesis using inv_accepted_slot [OF inv'] by blast
qed

definition demo_entry :: "u64 \<Rightarrow> u64 \<Rightarrow> u64 \<Rightarrow> u64 \<Rightarrow> px_log_entry" where
  "demo_entry s r l t =
     \<lparr> e_slot = s, e_ballot = PxBallot r l, e_term = t, e_payload = [ucast t] \<rparr>"

lemma acceptor_monotone_witness:
  "let a = run_acceptor [OpAccept (demo_entry 4 0 5 1)] acceptor_new;
       a' = run_acceptor [OpTrim 3, OpPrepare 4 (PxBallot 1 2), OpReclaim,
              OpAccept (demo_entry 4 0 5 1), OpAccept (demo_entry 4 1 2 2)] a
   in accepted_at a 4 = Some (demo_entry 4 0 5 1) \<and> acc_trim a' \<le> 4 \<and>
      promise_floor a 4 \<le> promise_floor a' 4 \<and>
      (\<exists>e'. accepted_at a' 4 = Some e' \<and> PxBallot 0 5 \<le> e_ballot e')"
proof -
  let ?a = "run_acceptor [OpAccept (demo_entry 4 0 5 1)] acceptor_new"
  let ?a' = "run_acceptor [OpTrim 3, OpPrepare 4 (PxBallot 1 2), OpReclaim,
              OpAccept (demo_entry 4 0 5 1), OpAccept (demo_entry 4 1 2 2)] ?a"
  have live: "acc_trim ?a' \<le> 4" by code_simp
  have vote: "accepted_at ?a 4 = Some (demo_entry 4 0 5 1)" by code_simp
  have "PxBallot 0 5 = e_ballot (demo_entry 4 0 5 1)" by (simp add: demo_entry_def)
  then show ?thesis
    using acceptor_monotone [OF refl refl live] vote live unfolding Let_def by metis
qed

text \<open>C19 The accepted log tip used by the election's log check is exact: it is the highest
  slot above the trim point that holds a vote, with that vote's term.\<close>

theorem accepted_log_tip_correct:
  assumes "a = run_acceptor ops acceptor_new"
  shows "accepted_log_tip a = Some (s, t) \<longleftrightarrow>
    (\<exists>e. accepted_at a s = Some e \<and> e_term e = t) \<and> (\<forall>s' > s. accepted_at a s' = None)"
  using assms run_acceptor_inv by (intro accepted_log_tip_iff) simp

lemma accepted_log_tip_correct_witness:
  "let a = run_acceptor [OpAccept (demo_entry 4 0 5 1), OpPrepare 9 (PxBallot 1 2),
             OpAccept (demo_entry 7 0 5 3)] acceptor_new
   in accepted_log_tip a = Some (7, 3) \<and> accepted_at a 9 = None"
proof -
  let ?a = "run_acceptor [OpAccept (demo_entry 4 0 5 1), OpPrepare 9 (PxBallot 1 2),
             OpAccept (demo_entry 7 0 5 3)] acceptor_new"
  have tip: "accepted_log_tip ?a = Some (7, 3)" by code_simp
  then have "\<forall>s' > 7. accepted_at ?a s' = None"
    by (rule iffD1 [OF accepted_log_tip_correct [OF refl], THEN conjunct2])
  with tip show ?thesis unfolding Let_def by simp
qed

text \<open>C20 The journal scan over the acceptor returns exactly the accepted entries of the
  requested half-open slot range that are above the trim point, and reclaiming the memory of
  trimmed slots changes neither that scan nor any promise or vote that can still be read.\<close>

theorem accepted_iter_range_correct:
  assumes "a = run_acceptor ops acceptor_new"
  shows "((s, e) \<in> set (accepted_iter_range a lo hi) \<longleftrightarrow>
            lo \<le> s \<and> s < hi \<and> accepted_at a s = Some e) \<and>
         set (accepted_iter_range (snd (reclaim a)) lo hi) = set (accepted_iter_range a lo hi) \<and>
         abs_view (snd (reclaim a)) = abs_view a"
proof -
  have inv: "acceptor_inv a" using assms run_acceptor_inv by simp
  have "set (accepted_iter_range (snd (reclaim a)) lo hi) = set (accepted_iter_range a lo hi)"
    by (auto simp: accepted_iter_range_set inv reclaim_views)
  then show ?thesis
    using inv by (simp add: accepted_iter_range_set abs_view_def reclaim_views fun_eq_iff)
qed

lemma accepted_iter_range_correct_witness:
  "(7, demo_entry 7 0 5 3) \<in> set (accepted_iter_range
      (run_acceptor [OpAccept (demo_entry 4 0 5 1), OpAccept (demo_entry 7 0 5 3), OpTrim 5]
        acceptor_new) 2 9)"
proof -
  have "accepted_at (run_acceptor [OpAccept (demo_entry 4 0 5 1), OpAccept (demo_entry 7 0 5 3),
      OpTrim 5] acceptor_new) 7 = Some (demo_entry 7 0 5 3)"
    by code_simp
  then show ?thesis using accepted_iter_range_correct [OF refl] by simp
qed

end
