(* ===== verification/Acceptor_Race.thy ===== *)
theory Acceptor_Race
  imports Acceptor
begin

text \<open>
  The acceptor's calls on one slot at the granularity of their atomic accesses
  (\<open>PxAcceptor::prepare\<close> and \<open>inner_accept\<close> in \<open>paxos/acceptor.rs\<close>, \<open>cas_promised\<close> and
  \<open>cas_accepted\<close> in \<open>paxos/slot_node.rs\<close>). The request handlers of a replica run
  concurrently and take no lock around the acceptor, so any interleaving of these steps can
  happen. A pointer is modelled as an address with the boxed value: replaced boxes are
  retired and freed only with the node, so an address that was loaded is never reused, and
  compare-and-swap compares addresses.
\<close>

section \<open>One slot node and the threads working on it\<close>

type_synonym 'a ptr = "(nat \<times> 'a) option"

record race_node =
  rn_promised :: "px_ballot ptr"
  rn_accepted :: "px_log_entry ptr"
  rn_fresh :: nat

definition cas_promised :: "px_ballot ptr \<Rightarrow> px_ballot \<Rightarrow> race_node \<Rightarrow> bool \<times> race_node" where
  "cas_promised expected new n =
     (if map_option fst (rn_promised n) = map_option fst expected
      then (True, n\<lparr>rn_promised := Some (rn_fresh n, new), rn_fresh := Suc (rn_fresh n)\<rparr>)
      else (False, n))"

definition cas_accepted :: "px_log_entry ptr \<Rightarrow> px_log_entry \<Rightarrow> race_node \<Rightarrow> bool \<times> race_node" where
  "cas_accepted expected new n =
     (if map_option fst (rn_accepted n) = map_option fst expected
      then (True, n\<lparr>rn_accepted := Some (rn_fresh n, new), rn_fresh := Suc (rn_fresh n)\<rparr>)
      else (False, n))"

datatype race_thread =
    PrepLoad slot_index px_ballot
  | PrepRead slot_index px_ballot "px_ballot ptr"
  | PrepCas slot_index px_ballot "px_ballot ptr" "px_log_entry option"
  | PrepReplied px_prepare_reply
  | AccLoad px_log_entry
  | AccReread px_log_entry "px_ballot ptr"
  | AccCasPromised px_log_entry "px_ballot ptr"
  | AccLoadAccepted px_log_entry
  | AccCasAccepted px_log_entry "px_log_entry ptr"
  | AccReplied px_accept_reply

definition ptr_floor :: "px_ballot ptr \<Rightarrow> px_ballot" where
  "ptr_floor p = (case p of None \<Rightarrow> ballot_zero | Some (_, b) \<Rightarrow> b)"

text \<open>Each equation is one atomic access of the loop body; a failed swap restarts the loop.\<close>

fun race_step :: "race_thread \<Rightarrow> race_node \<Rightarrow> race_thread \<times> race_node" where
  "race_step (PrepLoad s b) n =
     (case rn_promised n of
        Some (i, c) \<Rightarrow>
          if b \<le> c then (PrepReplied (PrepRejected s c), n) else (PrepRead s b (Some (i, c)), n)
      | None \<Rightarrow> (PrepRead s b None, n))"
| "race_step (PrepRead s b p) n = (PrepCas s b p (map_option snd (rn_accepted n)), n)"
| "race_step (PrepCas s b p w) n =
     (case cas_promised p b n of
        (True, n') \<Rightarrow> (PrepReplied (PrepPromised s w), n')
      | (False, n') \<Rightarrow> (PrepLoad s b, n'))"
| "race_step (PrepReplied r) n = (PrepReplied r, n)"
| "race_step (AccLoad e) n =
     (case rn_promised n of
        Some (i, c) \<Rightarrow>
          if e_ballot e < c then (AccReplied (AccRejected (e_slot e) c), n)
          else (AccReread e (Some (i, c)), n)
      | None \<Rightarrow> (AccReread e None, n))"
| "race_step (AccReread e p) n =
     (if ptr_floor (rn_promised n) < e_ballot e then (AccCasPromised e p, n)
      else (AccLoadAccepted e, n))"
| "race_step (AccCasPromised e p) n = (AccLoadAccepted e, snd (cas_promised p (e_ballot e) n))"
| "race_step (AccLoadAccepted e) n = (AccCasAccepted e (rn_accepted n), n)"
| "race_step (AccCasAccepted e q) n =
     (case cas_accepted q e n of
        (True, n') \<Rightarrow> (AccReplied (AccAccepted (e_slot e) (e_ballot e)), n')
      | (False, n') \<Rightarrow> (AccLoad e, n'))"
| "race_step (AccReplied r) n = (AccReplied r, n)"

type_synonym race_state = "race_thread list \<times> race_node"

definition race_sched_step :: "nat \<Rightarrow> race_state \<Rightarrow> race_state" where
  "race_sched_step i st =
     (if i < length (fst st)
      then let (t, n) = race_step (fst st ! i) (snd st) in ((fst st)[i := t], n)
      else st)"

definition run_sched :: "nat list \<Rightarrow> race_state \<Rightarrow> race_state" where
  "run_sched sched st = fold race_sched_step sched st"

section \<open>What holds under every interleaving\<close>

definition held_ptr :: "race_thread \<Rightarrow> px_ballot ptr option" where
  "held_ptr t =
     (case t of PrepRead s b p \<Rightarrow> Some p | PrepCas s b p w \<Rightarrow> Some p
      | AccReread e p \<Rightarrow> Some p | AccCasPromised e p \<Rightarrow> Some p | _ \<Rightarrow> None)"

definition thread_ballot :: "race_thread \<Rightarrow> px_ballot" where
  "thread_ballot t =
     (case t of PrepRead s b p \<Rightarrow> b | PrepCas s b p w \<Rightarrow> b
      | AccReread e p \<Rightarrow> e_ballot e | AccCasPromised e p \<Rightarrow> e_ballot e | _ \<Rightarrow> ballot_zero)"

definition ptr_ok :: "race_node \<Rightarrow> px_ballot \<Rightarrow> px_ballot ptr \<Rightarrow> bool" where
  "ptr_ok n b p =
     (case p of None \<Rightarrow> True
      | Some (i, c) \<Rightarrow> i < rn_fresh n \<and> c \<le> b \<and>
          (case rn_promised n of Some (j, d) \<Rightarrow> i = j \<longrightarrow> c = d | None \<Rightarrow> True))"

definition race_inv :: "race_state \<Rightarrow> bool" where
  "race_inv st \<longleftrightarrow>
     (case rn_promised (snd st) of Some (j, d) \<Rightarrow> j < rn_fresh (snd st) | None \<Rightarrow> True) \<and>
     (\<forall>t \<in> set (fst st). \<forall>p. held_ptr t = Some p \<longrightarrow> ptr_ok (snd st) (thread_ballot t) p)"

definition call_start :: "race_thread \<Rightarrow> bool" where
  "call_start t = (case t of PrepLoad s b \<Rightarrow> True | AccLoad e \<Rightarrow> True | _ \<Rightarrow> False)"

definition race_node_of :: "px_slot_node \<Rightarrow> race_node" where
  "race_node_of n =
     \<lparr> rn_promised = map_option (Pair 0) (sn_promised n),
       rn_accepted = map_option (Pair 1) (sn_accepted n), rn_fresh = 2 \<rparr>"

definition node_of_race :: "race_node \<Rightarrow> px_slot_node" where
  "node_of_race n =
     \<lparr> sn_promised = map_option snd (rn_promised n), sn_accepted = map_option snd (rn_accepted n) \<rparr>"

lemmas race_defs = held_ptr_def thread_ballot_def ptr_ok_def cas_promised_def cas_accepted_def

lemma race_step_promised_cases:
  "race_step t n = (t', n') \<Longrightarrow>
   rn_promised n' = rn_promised n \<and> rn_fresh n \<le> rn_fresh n' \<or>
   (\<exists>p. held_ptr t = Some p \<and> map_option fst (rn_promised n) = map_option fst p \<and>
        rn_promised n' = Some (rn_fresh n, thread_ballot t) \<and> rn_fresh n' = Suc (rn_fresh n))"
  by (cases t) (auto simp: race_defs split: option.splits if_splits)

lemma race_step_promised:
  assumes "race_step t n = (t', n')"
  obtains (same) "rn_promised n' = rn_promised n" "rn_fresh n \<le> rn_fresh n'"
  | (swap) p where "held_ptr t = Some p" "map_option fst (rn_promised n) = map_option fst p"
      "rn_promised n' = Some (rn_fresh n, thread_ballot t)" "rn_fresh n' = Suc (rn_fresh n)"
  using race_step_promised_cases [OF assms] by blast

lemma ptr_ok_stable:
  assumes "race_step t n = (t', n')" and "ptr_ok n b p"
  shows "ptr_ok n' b p"
  using assms(1)
proof (cases rule: race_step_promised)
  case same
  then show ?thesis using assms(2) by (auto simp: ptr_ok_def split: option.splits)
next
  case swap
  then show ?thesis using assms(2) by (auto simp: ptr_ok_def split: option.splits)
qed

lemma race_step_held:
  assumes "race_step t n = (t', n')" and "held_ptr t' = Some p"
    and "case rn_promised n of Some (j, d) \<Rightarrow> j < rn_fresh n | None \<Rightarrow> True"
    and "\<And>q. held_ptr t = Some q \<Longrightarrow> ptr_ok n (thread_ballot t) q"
  shows "ptr_ok n' (thread_ballot t') p"
  using assms by (cases t) (auto simp: race_defs split: option.splits if_splits prod.splits)

lemma swap_floor:
  assumes "ptr_ok n b p" and "map_option fst (rn_promised n) = map_option fst p"
  shows "ptr_floor (rn_promised n) \<le> b"
  using assms by (auto simp: ptr_ok_def ptr_floor_def split: option.splits)

lemma race_inv_step: "race_inv st \<Longrightarrow> race_inv (race_sched_step i st)"
proof -
  assume inv: "race_inv st"
  obtain t n where st: "race_step (fst st ! i) (snd st) = (t, n)" by (meson surj_pair)
  show ?thesis
  proof (cases "i < length (fst st)")
    case True
    have held: "ptr_ok n (thread_ballot u) p"
      if u: "u \<in> set ((fst st)[i := t])" and p: "held_ptr u = Some p" for u p
    proof (cases "u = t")
      case True
      then show ?thesis
        using inv p \<open>i < length (fst st)\<close> race_step_held [OF st] by (simp add: race_inv_def)
    next
      case False
      then have "u \<in> set (fst st)" using u set_update_subset_insert by fastforce
      then show ?thesis using inv p ptr_ok_stable [OF st] by (simp add: race_inv_def)
    qed
    have "case rn_promised n of Some (j, d) \<Rightarrow> j < rn_fresh n | None \<Rightarrow> True"
      using st by (cases rule: race_step_promised)
        (use inv in \<open>auto simp: race_inv_def split: option.splits\<close>)
    then show ?thesis
      using held True by (auto simp: race_inv_def race_sched_step_def st split: option.splits)
  qed (simp add: race_sched_step_def inv)
qed

lemma race_floor_step:
  assumes inv: "race_inv st"
  shows "ptr_floor (rn_promised (snd st)) \<le> ptr_floor (rn_promised (snd (race_sched_step i st)))"
proof -
  obtain t n where st: "race_step (fst st ! i) (snd st) = (t, n)" by (meson surj_pair)
  show ?thesis
  proof (cases "i < length (fst st)")
    case True
    from st show ?thesis
    proof (cases rule: race_step_promised)
      case same
      then show ?thesis using True by (simp add: race_sched_step_def st)
    next
      case (swap p)
      then have "ptr_ok (snd st) (thread_ballot (fst st ! i)) p"
        using inv True by (simp add: race_inv_def)
      then show ?thesis
        using swap swap_floor True by (simp add: race_sched_step_def st ptr_floor_def)
    qed
  qed (simp add: race_sched_step_def)
qed

lemma race_inv_run: "race_inv st \<Longrightarrow> race_inv (run_sched sched st)"
  unfolding run_sched_def by (induction sched arbitrary: st) (simp_all add: race_inv_step)

lemma race_floor_run:
  "race_inv st \<Longrightarrow>
   ptr_floor (rn_promised (snd st)) \<le> ptr_floor (rn_promised (snd (run_sched sched st)))"
  unfolding run_sched_def
proof (induction sched arbitrary: st)
  case (Cons i sched)
  then show ?case using race_floor_step race_inv_step by (metis fold_simps(2) order_trans)
qed simp

lemma race_inv_start: "list_all call_start ts \<Longrightarrow> race_inv (ts, race_node_of n)"
  by (fastforce simp: race_inv_def race_node_of_def list_all_iff call_start_def held_ptr_def
      split: option.split race_thread.splits)

section \<open>Properties\<close>

text \<open>C21 Promises are monotone under every interleaving: whatever Prepare and Accept calls run
  concurrently on a slot and however their atomic accesses are scheduled, the promise stored in
  the slot never decreases between two points of the run.\<close>

theorem race_promise_monotone:
  assumes "list_all call_start ts"
    and "st = run_sched sched (ts, race_node_of n)" and "st' = run_sched sched' st"
  shows "ptr_floor (rn_promised (snd st)) \<le> ptr_floor (rn_promised (snd st'))"
  using assms race_inv_start race_inv_run race_floor_run by simp

lemma race_promise_monotone_witness:
  "let st = run_sched [0, 0, 1, 1] ([AccLoad (demo_entry 1 0 5 1), PrepLoad 1 (PxBallot 1 2)],
              race_node_of slot_node_default);
       st' = run_sched [0, 1, 0, 1, 0, 1] st
   in ptr_floor (rn_promised (snd st)) \<le> ptr_floor (rn_promised (snd st'))"
proof -
  have "list_all call_start [AccLoad (demo_entry 1 0 5 1), PrepLoad 1 (PxBallot 1 2)]"
    by (simp add: call_start_def)
  then show ?thesis unfolding Let_def by (rule race_promise_monotone [OF _ refl refl])
qed

text \<open>C22 A call that is not interfered with is the atomic call: run alone, Prepare replies after
  at most three accesses and Accept after at most five, each with the reply and the final
  slot state that the per-slot specification of the acceptor gives.\<close>

theorem race_solo_refines:
  "(let (ts, n') = run_sched (replicate 3 0) ([PrepLoad s b], race_node_of n);
        (r, v) = spec_prepare s b (Some (sn_promised n, sn_accepted n))
    in ts = [PrepReplied r] \<and> Some (sn_promised (node_of_race n'), sn_accepted (node_of_race n')) = v) \<and>
   (let (ts, n') = run_sched (replicate 5 0) ([AccLoad e], race_node_of n);
        (r, v) = spec_accept e (Some (sn_promised n, sn_accepted n))
    in ts = [AccReplied r] \<and> Some (sn_promised (node_of_race n'), sn_accepted (node_of_race n')) = v)"
  by (cases "sn_promised n"; cases "sn_accepted n")
     (auto simp: run_sched_def numeral_eq_Suc race_sched_step_def race_node_of_def node_of_race_def
       race_defs spec_prepare_def spec_accept_def ptr_floor_def Let_def)

text \<open>The state in which an Accept has checked the promise and is about to load the accepted entry; it
  has raised the promise to its ballot if that was higher.\<close>

lemma accept_passes_check:
  assumes "ptr_floor (rn_promised m) \<le> e_ballot e"
  shows "\<exists>sched m'. run_sched sched ([AccLoad e, t], m) = ([AccLoadAccepted e, t], m') \<and>
    rn_accepted m' = rn_accepted m \<and> ptr_floor (rn_promised m') = e_ballot e"
proof -
  have steps: "run_sched [0, 0] ([AccLoad e, t], m) =
      ([if ptr_floor (rn_promised m) < e_ballot e then AccCasPromised e (rn_promised m) else AccLoadAccepted e, t], m)"
    using assms by (cases "rn_promised m") (auto simp: run_sched_def race_sched_step_def ptr_floor_def split: prod.splits)
  show ?thesis
  proof (cases "ptr_floor (rn_promised m) < e_ballot e")
    case True
    let ?m = "snd (cas_promised (rn_promised m) (e_ballot e) m)"
    have "run_sched [0, 0, 0] ([AccLoad e, t], m) = race_sched_step 0 (run_sched [0, 0] ([AccLoad e, t], m))"
      by (simp add: run_sched_def)
    also have "\<dots> = ([AccLoadAccepted e, t], ?m)" unfolding steps using True by (simp add: race_sched_step_def)
    finally show ?thesis by (intro exI [of _ "[0, 0, 0]"] exI [of _ ?m]) (simp add: cas_promised_def ptr_floor_def)
  next
    case False
    then have "ptr_floor (rn_promised m) = e_ballot e" using assms by simp
    then show ?thesis using steps False by (intro exI [of _ "[0, 0]"] exI [of _ m]) simp
  qed
qed

lemma run_sched_append: "run_sched (xs @ ys) st = run_sched ys (run_sched xs st)"
  by (simp add: run_sched_def)

text \<open>C23 The calls are not atomic together. Whatever the slot holds, for every entry that its promise
  admits and every Prepare with a higher ballot there is a schedule of the two calls in which both
  succeed: the Accept passes its check of the promise, the Prepare is then granted and reports what
  was accepted before, and the Accept still stores its entry and replies that it was accepted. The
  slot ends with a vote below its promise, and the promise did not report that vote.\<close>

theorem race_accept_below_promise:
  assumes "case sn_promised n of None \<Rightarrow> True | Some c \<Rightarrow> c \<le> e_ballot e" and "e_ballot e < b"
  shows "\<exists>sched n'. run_sched sched ([AccLoad e, PrepLoad (e_slot e) b], race_node_of n) =
      ([AccReplied (AccAccepted (e_slot e) (e_ballot e)), PrepReplied (PrepPromised (e_slot e) (sn_accepted n))], n') \<and>
    node_of_race n' = \<lparr> sn_promised = Some b, sn_accepted = Some e \<rparr>"
proof -
  have "ptr_floor (rn_promised (race_node_of n)) \<le> e_ballot e"
    using assms(1) by (cases "sn_promised n") (simp_all add: race_node_of_def ptr_floor_def)
  from accept_passes_check [OF this, of "PrepLoad (e_slot e) b"] obtain sched m where m:
    "run_sched sched ([AccLoad e, PrepLoad (e_slot e) b], race_node_of n) = ([AccLoadAccepted e, PrepLoad (e_slot e) b], m)"
    "rn_accepted m = rn_accepted (race_node_of n)" "ptr_floor (rn_promised m) = e_ballot e"
    by blast
  let ?m1 = "snd (cas_promised (rn_promised m) b m)"
  let ?m2 = "snd (cas_accepted (rn_accepted m) e ?m1)"
  have "map_option snd (rn_accepted m) = sn_accepted n"
    unfolding m(2) by (simp add: race_node_of_def map_option.compositionality comp_def map_option.identity)
  then have "run_sched [1, 1, 1] ([AccLoadAccepted e, PrepLoad (e_slot e) b], m) =
      ([AccLoadAccepted e, PrepReplied (PrepPromised (e_slot e) (sn_accepted n))], ?m1)"
    using m(3) assms(2) not_le [of b "e_ballot e"]
    by (cases "rn_promised m") (auto simp: run_sched_def race_sched_step_def ptr_floor_def cas_promised_def)
  moreover have "run_sched [0, 0] ([AccLoadAccepted e, t], ?m1) =
      ([AccReplied (AccAccepted (e_slot e) (e_ballot e)), t], ?m2)" for t
    by (simp add: run_sched_def race_sched_step_def cas_promised_def cas_accepted_def)
  moreover have "node_of_race ?m2 = \<lparr> sn_promised = Some b, sn_accepted = Some e \<rparr>"
    by (simp add: node_of_race_def cas_promised_def cas_accepted_def)
  ultimately show ?thesis using m(1)
    by (intro exI [of _ "sched @ [1, 1, 1] @ [0, 0]"] exI [of _ ?m2]) (simp only: run_sched_append)
qed

text \<open>A slot in which ballot 0 of member 3 was accepted; ballot 1 of member 1 is accepted below the promise
  of ballot 1 of member 2, which reports the old entry.\<close>

lemma race_accept_below_promise_witness:
  "let n = \<lparr> sn_promised = Some (PxBallot 0 3), sn_accepted = Some (demo_entry 1 0 3 4) \<rparr>; e = demo_entry 1 1 1 5
   in e_ballot e < PxBallot 1 2 \<and>
     (\<exists>sched n'. run_sched sched ([AccLoad e, PrepLoad (e_slot e) (PxBallot 1 2)], race_node_of n) =
        ([AccReplied (AccAccepted (e_slot e) (e_ballot e)), PrepReplied (PrepPromised (e_slot e) (sn_accepted n))], n') \<and>
      node_of_race n' = \<lparr> sn_promised = Some (PxBallot 1 2), sn_accepted = Some e \<rparr>)"
proof -
  let ?n = "\<lparr> sn_promised = Some (PxBallot 0 3), sn_accepted = Some (demo_entry 1 0 3 4) \<rparr>"
  have h: "case sn_promised ?n of None \<Rightarrow> True | Some c \<Rightarrow> c \<le> e_ballot (demo_entry 1 1 1 5)"
    "e_ballot (demo_entry 1 1 1 5) < PxBallot 1 2" by code_simp+
  from race_accept_below_promise [OF h] h(2) show ?thesis unfolding Let_def by blast
qed

end
