(* ===== verification/Wal_Record.thy ===== *)
theory Wal_Record
  imports Roles
begin

text \<open>
  The write-ahead-log record and its binary frame (\<open>wal/record.rs\<close>). The checksum comes from
  a third-party library and is a parameter: \<open>crc\<close> is the checksum of a buffer and
  \<open>crc_update\<close> continues one. The only thing the code relies on is that continuing the
  checksum of the header over the payload is the checksum of both (\<open>crc_law\<close>).
\<close>

section \<open>Records\<close>

datatype record_type = RecPromised | RecAccepted | RecVoteGranted

fun record_type_byte :: "record_type \<Rightarrow> u8" where
  "record_type_byte RecPromised = 0"
| "record_type_byte RecAccepted = 1"
| "record_type_byte RecVoteGranted = 2"

definition record_type_from_u8 :: "u8 \<Rightarrow> record_type option" where
  "record_type_from_u8 v =
     (if v = 0 then Some RecPromised else if v = 1 then Some RecAccepted
      else if v = 2 then Some RecVoteGranted else None)"

datatype record_error =
    Truncated
  | BadCrc u32 u32
  | BadMagic u32
  | BadVersion u16
  | BadRecordType u8
  | BadText string

record wal_record =
  wr_type :: record_type
  wr_group_id :: u64
  wr_term :: u64
  wr_slot :: slot_index
  wr_ballot :: px_ballot
  wr_payload :: bytes

record record_frame =
  rf_frame_len :: bytes
  rf_header :: bytes
  rf_payload :: bytes
  rf_crc :: bytes

definition wal_magic :: u32 where "wal_magic = 0x43524F57"
definition wal_version :: u16 where "wal_version = 1"
definition header_body_len :: nat where "header_body_len = 4 + 2 + 1 + 8 + 8 + 8 + 8 + 8 + 4"
definition min_record_size :: nat where "min_record_size = 4 + header_body_len + 4"

section \<open>The binary frame\<close>

definition write_header_body :: "wal_record \<Rightarrow> nat \<Rightarrow> bytes" where
  "write_header_body r payload_len =
     u32_le wal_magic @ u16_le wal_version @ [record_type_byte (wr_type r)] @
     u64_le (wr_group_id r) @ u64_le (wr_term r) @ u64_le (wr_slot r) @
     u64_le (bal_round (wr_ballot r)) @ u64_le (bal_leader (wr_ballot r)) @
     u32_le (of_nat payload_len)"

text \<open>The two \<open>expect\<close>s on the 32-bit lengths are the \<open>None\<close> branch.\<close>

definition encode_frame :: "(bytes \<Rightarrow> u32) \<Rightarrow> (u32 \<Rightarrow> bytes \<Rightarrow> u32) \<Rightarrow> wal_record \<Rightarrow> record_frame option" where
  "encode_frame crc crc_update r =
     (let payload_len = length (wr_payload r);
          frame_len = header_body_len + payload_len + 4;
          header = write_header_body r payload_len
      in if 2 ^ 32 \<le> frame_len then None
         else Some \<lparr> rf_frame_len = u32_le (of_nat frame_len), rf_header = header,
                     rf_payload = wr_payload r,
                     rf_crc = u32_le (crc_update (crc header) (wr_payload r)) \<rparr>)"

definition total_len :: "record_frame \<Rightarrow> nat" where
  "total_len f = 4 + header_body_len + length (rf_payload f) + 4"

definition frame_bytes :: "record_frame \<Rightarrow> bytes" where
  "frame_bytes f = rf_frame_len f @ rf_header f @ rf_payload f @ rf_crc f"

definition encode :: "(bytes \<Rightarrow> u32) \<Rightarrow> (u32 \<Rightarrow> bytes \<Rightarrow> u32) \<Rightarrow> wal_record \<Rightarrow> bytes option" where
  "encode crc crc_update r = map_option frame_bytes (encode_frame crc crc_update r)"

definition rd_u16 :: "bytes \<Rightarrow> nat \<Rightarrow> u16" where
  "rd_u16 buf off = u16_of_le (slice off (off + 2) buf)"

definition rd_u32 :: "bytes \<Rightarrow> nat \<Rightarrow> u32" where
  "rd_u32 buf off = u32_of_le (slice off (off + 4) buf)"

definition rd_u64 :: "bytes \<Rightarrow> nat \<Rightarrow> u64" where
  "rd_u64 buf off = u64_of_le (slice off (off + 8) buf)"

definition decode_body :: "bytes \<Rightarrow> record_error + wal_record" where
  "decode_body body =
     (let magic = rd_u32 body 0; version = rd_u16 body 4; rt_raw = body ! 6 in
      if magic \<noteq> wal_magic then Inl (BadMagic magic)
      else if version \<noteq> wal_version then Inl (BadVersion version)
      else case record_type_from_u8 rt_raw of
          None \<Rightarrow> Inl (BadRecordType rt_raw)
        | Some record_type \<Rightarrow>
            let payload_len = unat (rd_u32 body 47) in
            if length body < 51 + payload_len + 4 then Inl Truncated
            else Inr \<lparr> wr_type = record_type, wr_group_id = rd_u64 body 7,
                       wr_term = rd_u64 body 15, wr_slot = rd_u64 body 23,
                       wr_ballot = PxBallot (rd_u64 body 31) (rd_u64 body 39),
                       wr_payload = slice 51 (51 + payload_len) body \<rparr>)"

definition decode :: "(bytes \<Rightarrow> u32) \<Rightarrow> bytes \<Rightarrow> record_error + wal_record \<times> nat" where
  "decode crc data =
     (if length data < min_record_size then Inl Truncated
      else let frame_len = unat (rd_u32 data 0); total = 4 + frame_len in
        if frame_len < header_body_len + 4 then Inl Truncated
        else if length data < total then Inl Truncated
        else let body = slice 4 total data;
                 crc_stored = rd_u32 body (frame_len - 4);
                 crc_computed = crc (take (frame_len - 4) body)
             in if crc_stored \<noteq> crc_computed then Inl (BadCrc crc_computed crc_stored)
                else case decode_body body of Inl e \<Rightarrow> Inl e | Inr r \<Rightarrow> Inr (r, total))"

section \<open>Records of the protocol\<close>

definition from_accepted :: "u64 \<Rightarrow> px_log_entry \<Rightarrow> wal_record" where
  "from_accepted group_id e =
     \<lparr> wr_type = RecAccepted, wr_group_id = group_id, wr_term = e_term e, wr_slot = e_slot e,
       wr_ballot = e_ballot e, wr_payload = e_payload e \<rparr>"

definition from_promised :: "u64 \<Rightarrow> u64 \<Rightarrow> slot_index \<Rightarrow> px_ballot \<Rightarrow> wal_record" where
  "from_promised group_id term slot ballot =
     \<lparr> wr_type = RecPromised, wr_group_id = group_id, wr_term = term, wr_slot = slot,
       wr_ballot = ballot, wr_payload = [] \<rparr>"

definition from_vote_granted :: "u64 \<Rightarrow> u64 \<Rightarrow> u64 \<Rightarrow> wal_record" where
  "from_vote_granted group_id term voted_for_id =
     \<lparr> wr_type = RecVoteGranted, wr_group_id = group_id, wr_term = term, wr_slot = 0,
       wr_ballot = PxBallot 0 0, wr_payload = u64_le voted_for_id \<rparr>"

definition to_log_entry :: "wal_record \<Rightarrow> px_log_entry option" where
  "to_log_entry r =
     (if wr_type r \<noteq> RecAccepted then None
      else Some \<lparr> e_slot = wr_slot r, e_ballot = wr_ballot r, e_term = wr_term r,
                  e_payload = wr_payload r \<rparr>)"

definition voted_for_id :: "wal_record \<Rightarrow> u64 option" where
  "voted_for_id r =
     (if wr_type r \<noteq> RecVoteGranted then None
      else if length (wr_payload r) < 8 then None
      else Some (u64_of_le (take 8 (wr_payload r))))"

section \<open>Hexadecimal payloads\<close>

text \<open>Characters are their ASCII codes; the \<open>unreachable!\<close> arm of the source is \<open>None\<close>.\<close>

definition nibble_to_hex :: "u8 \<Rightarrow> u8 option" where
  "nibble_to_hex v =
     (if v \<le> 9 then Some (48 + v) else if v \<le> 15 then Some (97 + (v - 10)) else None)"

definition hex_to_nibble :: "u8 \<Rightarrow> record_error + u8" where
  "hex_to_nibble v =
     (if 48 \<le> v \<and> v \<le> 57 then Inr (v - 48)
      else if 97 \<le> v \<and> v \<le> 102 then Inr (v - 97 + 10)
      else if 65 \<le> v \<and> v \<le> 70 then Inr (v - 65 + 10)
      else Inl (BadText (''invalid hex digit: '' @ [char_of (unat v)])))"

fun encode_hex :: "bytes \<Rightarrow> bytes option" where
  "encode_hex [] = Some []"
| "encode_hex (b # bs) =
     (case (nibble_to_hex (drop_bit 4 b), nibble_to_hex (and b 0x0f), encode_hex bs) of
        (Some h, Some l, Some out) \<Rightarrow> Some (h # l # out)
      | _ \<Rightarrow> None)"

fun decode_hex_pairs :: "bytes \<Rightarrow> record_error + bytes" where
  "decode_hex_pairs (h # l # rest) =
     (case hex_to_nibble h of
        Inl e \<Rightarrow> Inl e
      | Inr high \<Rightarrow>
          (case hex_to_nibble l of
             Inl e \<Rightarrow> Inl e
           | Inr low \<Rightarrow>
               (case decode_hex_pairs rest of
                  Inl e \<Rightarrow> Inl e
                | Inr out \<Rightarrow> Inr (or (push_bit 4 high) low # out))))"
| "decode_hex_pairs _ = Inr []"

definition decode_hex :: "bytes \<Rightarrow> record_error + bytes" where
  "decode_hex value =
     (if odd (length value) then Inl (BadText ''payload_hex has odd length'')
      else decode_hex_pairs value)"

section \<open>Round trips\<close>

definition crc_law :: "(bytes \<Rightarrow> u32) \<Rightarrow> (u32 \<Rightarrow> bytes \<Rightarrow> u32) \<Rightarrow> bool" where
  "crc_law crc crc_update \<longleftrightarrow> (\<forall>h p. crc_update (crc h) p = crc (h @ p))"

definition record_fits :: "wal_record \<Rightarrow> bool" where
  "record_fits r \<longleftrightarrow> length (wr_payload r) + 55 < 2 ^ 32"

lemma record_type_roundtrip [simp]: "record_type_from_u8 (record_type_byte t) = Some t"
  by (cases t) (simp_all add: record_type_from_u8_def)

lemma length_write_header_body [simp]: "length (write_header_body r n) = 51"
  by (simp add: write_header_body_def)

lemmas size_defs = header_body_len_def min_record_size_def

lemma unat_of_nat32: "n < 2 ^ 32 \<Longrightarrow> unat (of_nat n :: u32) = n"
  by (simp add: unat_of_nat take_bit_eq_mod)

lemma decode_body_header:
  assumes "length (wr_payload r) < 2 ^ 32"
  shows "decode_body (write_header_body r (length (wr_payload r)) @ wr_payload r @ u32_le c) = Inr r"
proof -
  let ?body = "write_header_body r (length (wr_payload r)) @ wr_payload r @ u32_le c"
  have fields: "rd_u32 ?body 0 = wal_magic" "rd_u16 ?body 4 = wal_version"
      "?body ! 6 = record_type_byte (wr_type r)"
      "rd_u64 ?body 7 = wr_group_id r" "rd_u64 ?body 15 = wr_term r" "rd_u64 ?body 23 = wr_slot r"
      "rd_u64 ?body 31 = bal_round (wr_ballot r)" "rd_u64 ?body 39 = bal_leader (wr_ballot r)"
      "rd_u32 ?body 47 = of_nat (length (wr_payload r))"
    by (simp_all add: rd_u16_def rd_u32_def rd_u64_def slice_def write_header_body_def nth_append)
  have payload: "slice 51 (51 + length (wr_payload r)) ?body = wr_payload r"
    by (simp add: slice_def)
  have len: "unat (rd_u32 ?body 47) = length (wr_payload r)"
    unfolding fields using assms by (rule unat_of_nat32)
  show ?thesis
    unfolding decode_body_def Let_def len payload unfolding fields
    by simp
qed

lemma encode_eq:
  assumes "crc_law crc crc_update" and "record_fits r"
  shows "encode crc crc_update r =
    Some (let body = write_header_body r (length (wr_payload r)) @ wr_payload r
          in u32_le (of_nat (55 + length (wr_payload r))) @ body @ u32_le (crc body))"
  using assms
  by (simp add: encode_def encode_frame_def frame_bytes_def record_fits_def crc_law_def size_defs
      Let_def add.commute)

lemma decode_encode_append:
  assumes law: "crc_law crc crc_update" and fits: "record_fits r"
    and enc: "encode crc crc_update r = Some bs"
  shows "decode crc (bs @ rest) = Inr (r, length bs)"
proof -
  let ?n = "length (wr_payload r)"
  let ?core = "write_header_body r ?n @ wr_payload r"
  let ?body = "write_header_body r ?n @ wr_payload r @ u32_le (crc ?core)"
  have bs: "bs = u32_le (of_nat (55 + ?n)) @ ?body"
    using enc encode_eq [OF law fits] by (simp add: Let_def)
  have len: "unat (rd_u32 (bs @ rest) 0) = 55 + ?n"
    using fits unat_of_nat32 [of "55 + ?n"] by (simp add: bs rd_u32_def slice_def record_fits_def add.commute)
  have lenbs: "length bs = 59 + ?n" by (simp add: bs)
  have body: "slice 4 (4 + (55 + ?n)) (bs @ rest) = ?body"
    by (simp add: bs slice_def)
  have stored: "rd_u32 ?body (55 + ?n - 4) = crc ?core"
    by (simp add: rd_u32_def slice_def)
  have core: "take (55 + ?n - 4) ?body = ?core" by simp
  have "decode_body ?body = Inr r"
    using decode_body_header fits by (simp add: record_fits_def)
  then show ?thesis
    unfolding decode_def Let_def len body stored core using lenbs by (simp add: size_defs)
qed

lemma encode_length:
  "crc_law crc crc_update \<Longrightarrow> record_fits r \<Longrightarrow> encode crc crc_update r = Some bs \<Longrightarrow>
   length bs = 59 + length (wr_payload r)"
  using encode_eq by (auto simp: Let_def)

lemma decode_torn:
  assumes law: "crc_law crc crc_update" and fits: "record_fits r"
    and enc: "encode crc crc_update r = Some bs" and n: "n < length bs"
  shows "decode crc (take n bs) = Inl Truncated"
proof (cases "n < 59")
  case True
  then show ?thesis using n by (simp add: decode_def size_defs)
next
  case False
  let ?m = "55 + length (wr_payload r)"
  have "rd_u32 (take n bs) 0 = rd_u32 bs 0"
    using False by (simp add: rd_u32_def slice_def min_def)
  moreover have "rd_u32 bs 0 = of_nat ?m"
    using enc encode_eq [OF law fits] by (auto simp: Let_def rd_u32_def slice_def)
  ultimately have len: "unat (rd_u32 (take n bs) 0) = ?m"
    using fits unat_of_nat32 [of ?m] by (simp add: record_fits_def add.commute)
  have "length bs = 4 + ?m" using encode_length [OF law fits enc] by simp
  then show ?thesis
    unfolding decode_def Let_def len using n False by (simp add: size_defs)
qed

lemma nibble_roundtrip: "v \<le> 15 \<Longrightarrow> \<exists>h. nibble_to_hex v = Some h \<and> hex_to_nibble h = Inr v"
proof -
  assume "v \<le> 15"
  then have "unat v \<le> 15" by (simp add: word_le_nat_alt)
  then have "unat v \<in> {0, 1, 2, 3, 4, 5, 6, 7, 8, 9, 10, 11, 12, 13, 14, 15}"
    by simp arith
  then have "v \<in> {0, 1, 2, 3, 4, 5, 6, 7, 8, 9, 10, 11, 12, 13, 14, 15}"
    by (auto dest!: arg_cong [where f = "of_nat :: nat \<Rightarrow> u8"])
  then show ?thesis by (elim insertE emptyE) (simp_all add: nibble_to_hex_def hex_to_nibble_def)
qed

lemma or_split_bits: "or (push_bit n (drop_bit n b)) (take_bit n b) = (b :: u8)"
  by (rule bit_word_eqI) (auto simp: bit_simps)

lemma and_low_nibble: "and (b :: u8) 0x0f = take_bit 4 b"
  by (simp add: take_bit_eq_mask mask_eq_exp_minus_1)

lemma nibbles_of_byte:
  "drop_bit 4 (b :: u8) \<le> 15" "and b 0x0f \<le> 15" "or (push_bit 4 (drop_bit 4 b)) (and b 0x0f) = b"
proof -
  have "unat b < 256" using unat_bound [of b] by simp
  then show "drop_bit 4 b \<le> 15"
    by (simp add: word_le_nat_alt drop_bit_eq_div unat_div)
  show "and b 0x0f \<le> 15" by (rule word_and_le1)
  show "or (push_bit 4 (drop_bit 4 b)) (and b 0x0f) = b"
    unfolding and_low_nibble by (rule or_split_bits)
qed

lemma hex_roundtrip_pairs: "\<exists>out. encode_hex bs = Some out \<and> even (length out) \<and> decode_hex_pairs out = Inr bs"
proof (induction bs)
  case (Cons b bs)
  then obtain out where "encode_hex bs = Some out" "even (length out)" "decode_hex_pairs out = Inr bs"
    by blast
  moreover obtain h where "nibble_to_hex (drop_bit 4 b) = Some h" "hex_to_nibble h = Inr (drop_bit 4 b)"
    using nibble_roundtrip nibbles_of_byte(1) by blast
  moreover obtain l where "nibble_to_hex (and b 0x0f) = Some l" "hex_to_nibble l = Inr (and b 0x0f)"
    using nibble_roundtrip nibbles_of_byte(2) by blast
  ultimately show ?case by (simp add: nibbles_of_byte(3))
qed simp

section \<open>A concrete checksum\<close>

text \<open>CRC32C with the reflected Castagnoli polynomial and seed zero, bit by bit.\<close>

definition crc32c_bit :: "u32 \<Rightarrow> u32" where
  "crc32c_bit c = (if bit c 0 then xor (drop_bit 1 c) 0x82F63B78 else drop_bit 1 c)"

definition crc32c_step :: "u8 \<Rightarrow> u32 \<Rightarrow> u32" where
  "crc32c_step b c = (crc32c_bit ^^ 8) (xor c (ucast b))"

definition crc32c_update :: "u32 \<Rightarrow> bytes \<Rightarrow> u32" where
  "crc32c_update c bs = fold crc32c_step bs c"

definition crc32c :: "bytes \<Rightarrow> u32" where
  "crc32c bs = crc32c_update 0 bs"

lemma crc32c_law: "crc_law crc32c crc32c_update"
  by (simp add: crc_law_def crc32c_def crc32c_update_def)

section \<open>Properties\<close>

text \<open>C30 Binary record round trip and torn writes. Every record whose frame fits the 32-bit length
  is encoded, and decoding the bytes, whatever follows them, returns the record and the number
  of bytes it took; every strict prefix of the bytes, as a crash in the middle of the write
  leaves it, decodes to the truncation error and never to a record.\<close>

theorem record_roundtrip:
  assumes "crc_law crc crc_update" and "length (wr_payload r) + 55 < 2 ^ 32"
  shows "\<exists>bs. encode crc crc_update r = Some bs \<and> length bs = 59 + length (wr_payload r) \<and>
    (\<forall>rest. decode crc (bs @ rest) = Inr (r, length bs)) \<and>
    (\<forall>n < length bs. decode crc (take n bs) = Inl Truncated)"
proof -
  have fits: "record_fits r" using assms(2) by (simp add: record_fits_def)
  obtain bs where "encode crc crc_update r = Some bs"
    using encode_eq [OF assms(1) fits] by blast
  then show ?thesis
    using decode_encode_append [OF assms(1) fits] decode_torn [OF assms(1) fits]
      encode_length [OF assms(1) fits] by blast
qed

lemma record_roundtrip_witness:
  "\<exists>bs. encode crc32c crc32c_update (from_vote_granted 1 7 3) = Some bs \<and> length bs = 67 \<and>
     decode crc32c (bs @ [0, 0]) = Inr (from_vote_granted 1 7 3, length bs) \<and>
     decode crc32c (take 60 bs) = Inl Truncated"
proof -
  have len: "length (wr_payload (from_vote_granted 1 7 3)) = 8"
    by (simp add: from_vote_granted_def)
  then have "length (wr_payload (from_vote_granted 1 7 3)) + 55 < 2 ^ 32" by simp
  from record_roundtrip [OF crc32c_law this] len show ?thesis by fastforce
qed

text \<open>Records carry the protocol's state: the entry of an Accepted record and the candidate of
  a VoteGranted record are read back exactly, other record types yield neither, and the
  hexadecimal form of a payload decodes to the payload.\<close>

theorem record_contents_roundtrip:
  "to_log_entry (from_accepted g e) = Some (e :: px_log_entry) \<and> voted_for_id (from_accepted g e) = None \<and>
   voted_for_id (from_vote_granted g t v) = Some v \<and> to_log_entry (from_vote_granted g t v) = None \<and>
   to_log_entry (from_promised g t s b) = None \<and> voted_for_id (from_promised g t s b) = None \<and>
   (\<exists>out. encode_hex p = Some out \<and> length out = 2 * length p \<and> decode_hex out = Inr p)"
proof -
  have "length out = 2 * length p" if "encode_hex p = Some out" for out
    using that by (induction p arbitrary: out) (auto split: option.splits)
  then show ?thesis
    using hex_roundtrip_pairs [of p]
    by (auto simp: to_log_entry_def voted_for_id_def from_accepted_def from_promised_def
        from_vote_granted_def decode_hex_def)
qed

end
