(* ===== verification/Wal_Replay.thy ===== *)
theory Wal_Replay
  imports Wal_Record Acceptor "HOL-Library.Product_Lexorder"
begin

text \<open>
  What replay keeps of the scanned records (\<open>wal/replay/records.rs\<close>): the highest term with the
  vote of that term, every vote record, and per slot the highest promised and the highest
  accepted ballot. The records arrive in any order the disks produce; the facts below say
  what of the outcome does not depend on that order.
\<close>

section \<open>State and operations\<close>

record replay_records =
  rr_slots :: "(slot_index \<times> u8, wal_record) omap"
  rr_votes :: "wal_record list"
  rr_current_term :: u64
  rr_voted_for :: "node_id option"
  rr_scanned :: u64

definition replay_records_default :: replay_records where
  "replay_records_default =
     \<lparr> rr_slots = [], rr_votes = [], rr_current_term = 0, rr_voted_for = None, rr_scanned = 0 \<rparr>"

definition adopt_term :: "wal_record \<Rightarrow> replay_records \<Rightarrow> replay_records" where
  "adopt_term r st =
     (if rr_current_term st < wr_term r
      then st\<lparr>rr_current_term := wr_term r, rr_voted_for := None\<rparr> else st)"

definition keep_highest :: "wal_record \<Rightarrow> replay_records \<Rightarrow> replay_records" where
  "keep_highest r st =
     (let key = (wr_slot r, record_type_byte (wr_type r)) in
      case om_get (rr_slots st) key of
        None \<Rightarrow> st\<lparr>rr_slots := om_put key r (rr_slots st)\<rparr>
      | Some old \<Rightarrow>
          if wr_ballot old \<le> wr_ballot r then st\<lparr>rr_slots := om_put key r (rr_slots st)\<rparr> else st)"

definition replay_push :: "wal_record \<Rightarrow> replay_records \<Rightarrow> replay_records" where
  "replay_push r st0 =
     (let st = adopt_term r (st0\<lparr>rr_scanned := rr_scanned st0 + 1\<rparr>) in
      if wr_type r = RecVoteGranted
      then let st1 = (if wr_term r = rr_current_term st then st\<lparr>rr_voted_for := voted_for_id r\<rparr> else st)
           in st1\<lparr>rr_votes := rr_votes st1 @ [r]\<rparr>
      else keep_highest r st)"

definition into_records :: "replay_records \<Rightarrow> wal_record list" where
  "into_records st = rr_votes st @ map snd (rr_slots st)"

definition replay_scan :: "wal_record list \<Rightarrow> replay_records" where
  "replay_scan rs = fold replay_push rs replay_records_default"

section \<open>Term and vote\<close>

lemma keep_highest_frame [simp]:
  "rr_current_term (keep_highest r st) = rr_current_term st"
  "rr_voted_for (keep_highest r st) = rr_voted_for st"
  "rr_votes (keep_highest r st) = rr_votes st"
  by (simp_all add: keep_highest_def Let_def split: option.split)

lemma adopt_term_frame [simp]:
  "rr_slots (adopt_term r st) = rr_slots st" "rr_votes (adopt_term r st) = rr_votes st"
  by (simp_all add: adopt_term_def)

lemma push_term [simp]:
  "rr_current_term (replay_push r st) = max (rr_current_term st) (wr_term r)"
  by (auto simp: replay_push_def adopt_term_def Let_def max_def)

lemma push_voted_for:
  "rr_voted_for (replay_push r st) =
     (if wr_type r = RecVoteGranted \<and> rr_current_term st \<le> wr_term r then voted_for_id r
      else if rr_current_term st < wr_term r then None else rr_voted_for st)"
  by (auto simp: replay_push_def adopt_term_def Let_def)

lemma scan_snoc: "replay_scan (rs @ [r]) = replay_push r (replay_scan rs)"
  by (simp add: replay_scan_def)

lemma scan_Nil [simp]: "replay_scan [] = replay_records_default"
  by (simp add: replay_scan_def)

lemma default_simps [simp]:
  "rr_current_term replay_records_default = 0" "rr_voted_for replay_records_default = None"
  "rr_slots replay_records_default = []" "rr_votes replay_records_default = []"
  by (simp_all add: replay_records_default_def)

lemma scan_term_bound: "r \<in> set rs \<Longrightarrow> wr_term r \<le> rr_current_term (replay_scan rs)"
  by (induction rs rule: rev_induct) (auto simp: scan_snoc le_max_iff_disj)

lemma scan_term_attained:
  "rr_current_term (replay_scan rs) = 0 \<or> (\<exists>r \<in> set rs. wr_term r = rr_current_term (replay_scan rs))"
  by (induction rs rule: rev_induct) (auto simp: scan_snoc max_def)

text \<open>The vote of the current term, when all votes of one term name one candidate.\<close>

definition single_votes :: "wal_record list \<Rightarrow> bool" where
  "single_votes rs \<longleftrightarrow>
     (\<forall>r \<in> set rs. \<forall>r' \<in> set rs. wr_type r = RecVoteGranted \<longrightarrow> wr_type r' = RecVoteGranted \<longrightarrow>
        wr_term r = wr_term r' \<longrightarrow> voted_for_id r = voted_for_id r')"

lemma single_votesD:
  "single_votes rs \<Longrightarrow> r \<in> set rs \<Longrightarrow> r' \<in> set rs \<Longrightarrow> wr_type r = RecVoteGranted \<Longrightarrow>
   wr_type r' = RecVoteGranted \<Longrightarrow> wr_term r = wr_term r' \<Longrightarrow> voted_for_id r = voted_for_id r'"
  unfolding single_votes_def by (drule (1) bspec, drule (1) bspec) simp

lemma single_votes_snoc:
  assumes "single_votes (rs @ [r])"
  shows "single_votes rs"
  unfolding single_votes_def
proof (intro ballI impI)
  fix a b
  assume "a \<in> set rs" "b \<in> set rs" "wr_type a = RecVoteGranted" "wr_type b = RecVoteGranted"
    "wr_term a = wr_term b"
  then show "voted_for_id a = voted_for_id b" by (intro single_votesD [OF assms]) simp_all
qed

lemma scan_voted_for_none:
  "\<forall>r \<in> set rs. wr_type r = RecVoteGranted \<longrightarrow> wr_term r \<noteq> rr_current_term (replay_scan rs) \<Longrightarrow>
   rr_voted_for (replay_scan rs) = None"
proof (induction rs rule: rev_induct)
  case (snoc r rs)
  let ?t = "rr_current_term (replay_scan rs)"
  have cur: "rr_current_term (replay_scan (rs @ [r])) = max ?t (wr_term r)"
    by (simp add: scan_snoc)
  show ?case
  proof (cases "?t < wr_term r")
    case True
    then have "rr_current_term (replay_scan (rs @ [r])) = wr_term r"
      using cur by (simp add: max_absorb2 less_imp_le)
    then have "wr_type r \<noteq> RecVoteGranted" using snoc.prems by auto
    then show ?thesis using True by (simp add: scan_snoc push_voted_for)
  next
    case False
    then have cur': "rr_current_term (replay_scan (rs @ [r])) = ?t" using cur by (simp add: max_def)
    have "rr_voted_for (replay_scan rs) = None" using snoc.IH snoc.prems unfolding cur' by simp
    moreover have "wr_type r = RecVoteGranted \<Longrightarrow> wr_term r \<noteq> ?t"
      using snoc.prems unfolding cur' by simp
    ultimately show ?thesis using False by (auto simp: scan_snoc push_voted_for)
  qed
qed simp

lemma scan_voted_for:
  assumes "single_votes rs" and "r \<in> set rs" and "wr_type r = RecVoteGranted"
    and "wr_term r = rr_current_term (replay_scan rs)"
  shows "rr_voted_for (replay_scan rs) = voted_for_id r"
  using assms
proof (induction rs arbitrary: r rule: rev_induct)
  case (snoc x rs)
  let ?t = "rr_current_term (replay_scan rs)"
  show ?case
  proof (cases "wr_type x = RecVoteGranted \<and> ?t \<le> wr_term x")
    case True
    then have "wr_term r = wr_term x" using snoc.prems by (simp add: scan_snoc max_def)
    then have "voted_for_id r = voted_for_id x"
      using single_votesD [OF snoc.prems(1,2), of x] snoc.prems(3) True by simp
    then show ?thesis using True by (simp add: scan_snoc push_voted_for)
  next
    case False
    have in_rs: "r \<in> set rs"
    proof (rule ccontr)
      assume "r \<notin> set rs"
      then have "r = x" using snoc.prems(2) by simp
      then show False using False snoc.prems(3,4) by (auto simp: scan_snoc max_def split: if_splits)
    qed
    from scan_term_bound [OF this] have bound: "wr_term r \<le> ?t" .
    then have t: "wr_term r = ?t" and le: "wr_term x \<le> ?t"
      using snoc.prems(4) by (auto simp: scan_snoc max_def split: if_splits)
    have "rr_voted_for (replay_scan rs) = voted_for_id r"
      using snoc.IH [OF single_votes_snoc [OF snoc.prems(1)] in_rs snoc.prems(3) t] .
    then show ?thesis
      using False le by (auto simp: scan_snoc push_voted_for leD)
  qed
qed simp

section \<open>Slot records\<close>

definition slot_key :: "wal_record \<Rightarrow> slot_index \<times> u8" where
  "slot_key r = (wr_slot r, record_type_byte (wr_type r))"

text \<open>The records of one slot and kind; a record is best if no other of them has a higher ballot.\<close>

definition slot_records :: "wal_record set \<Rightarrow> slot_index \<times> u8 \<Rightarrow> wal_record set" where
  "slot_records R k = {r \<in> R. wr_type r \<noteq> RecVoteGranted \<and> slot_key r = k}"

definition best_of :: "wal_record set \<Rightarrow> wal_record \<Rightarrow> bool" where
  "best_of R r \<longleftrightarrow> r \<in> R \<and> (\<forall>r' \<in> R. wr_ballot r' \<le> wr_ballot r)"

lemma push_slots:
  "om_get (rr_slots (replay_push r st)) k =
     (if wr_type r \<noteq> RecVoteGranted \<and> slot_key r = k \<and>
         (case om_get (rr_slots st) k of None \<Rightarrow> True | Some old \<Rightarrow> wr_ballot old \<le> wr_ballot r)
      then Some r else om_get (rr_slots st) k)"
  by (auto simp: replay_push_def keep_highest_def slot_key_def Let_def split: option.split)

lemma push_sorted: "om_sorted (rr_slots st) \<Longrightarrow> om_sorted (rr_slots (replay_push r st))"
  by (auto simp: replay_push_def keep_highest_def Let_def split: option.split)

lemma scan_sorted: "om_sorted (rr_slots (replay_scan rs))"
  by (induction rs rule: rev_induct) (simp_all add: scan_snoc push_sorted)

lemma slot_records_insert:
  "slot_records (insert r R) k =
     (if wr_type r \<noteq> RecVoteGranted \<and> slot_key r = k
      then insert r (slot_records R k) else slot_records R k)"
  by (auto simp: slot_records_def)

lemma scan_slots:
  "case om_get (rr_slots (replay_scan rs)) k of
     None \<Rightarrow> slot_records (set rs) k = {}
   | Some r \<Rightarrow> best_of (slot_records (set rs) k) r"
proof (induction rs rule: rev_induct)
  case Nil
  show ?case by (simp add: slot_records_def)
next
  case (snoc r rs)
  show ?case
  proof (cases "wr_type r \<noteq> RecVoteGranted \<and> slot_key r = k")
    case True
    then show ?thesis using snoc
      by (auto simp: scan_snoc push_slots slot_records_insert best_of_def split: option.splits)
  next
    case False
    then show ?thesis using snoc
      by (auto simp: scan_snoc push_slots slot_records_insert split: option.splits)
  qed
qed

text \<open>A log in which a ballot determines the record of its slot and kind.\<close>

definition ballots_determine :: "wal_record set \<Rightarrow> bool" where
  "ballots_determine R \<longleftrightarrow>
     (\<forall>k. \<forall>r \<in> slot_records R k. \<forall>r' \<in> slot_records R k. wr_ballot r = wr_ballot r' \<longrightarrow> r = r')"

lemma best_of_unique:
  assumes "ballots_determine R" and "best_of (slot_records R k) r" and "best_of (slot_records R k) r'"
  shows "r = r'"
proof -
  have "wr_ballot r = wr_ballot r'" using assms(2,3) unfolding best_of_def by (meson antisym)
  then show ?thesis using assms unfolding ballots_determine_def best_of_def by blast
qed

lemma scan_slots_cong:
  assumes "ballots_determine (set rs)" and "set rs' = set rs"
  shows "rr_slots (replay_scan rs') = rr_slots (replay_scan rs)"
proof (rule om_sorted_eqI [OF scan_sorted scan_sorted])
  fix k
  show "om_get (rr_slots (replay_scan rs')) k = om_get (rr_slots (replay_scan rs)) k"
    using scan_slots [of rs k] scan_slots [of rs' k] best_of_unique [OF assms(1), of k]
    unfolding assms(2) by (auto simp: best_of_def split: option.splits)
qed

lemma scan_term_mono:
  assumes "set rs' \<subseteq> set rs"
  shows "rr_current_term (replay_scan rs') \<le> rr_current_term (replay_scan rs)"
  using scan_term_attained [of rs']
proof
  assume "\<exists>r \<in> set rs'. wr_term r = rr_current_term (replay_scan rs')"
  then obtain r where "r \<in> set rs" and r: "wr_term r = rr_current_term (replay_scan rs')"
    using assms by blast
  then have "wr_term r \<le> rr_current_term (replay_scan rs)" by (intro scan_term_bound)
  then show ?thesis by (simp only: r)
qed simp

lemma scan_term_cong:
  "set rs' = set rs \<Longrightarrow> rr_current_term (replay_scan rs') = rr_current_term (replay_scan rs)"
  by (intro antisym scan_term_mono) simp_all

lemma scan_vote_cases:
  obtains (none) "\<forall>r \<in> set rs. wr_type r = RecVoteGranted \<longrightarrow> wr_term r \<noteq> rr_current_term (replay_scan rs)"
  | (some) r where "r \<in> set rs" "wr_type r = RecVoteGranted" "wr_term r = rr_current_term (replay_scan rs)"
  by blast

lemma scan_vote_cong:
  assumes "single_votes rs" and set: "set rs' = set rs"
  shows "rr_voted_for (replay_scan rs') = rr_voted_for (replay_scan rs)"
proof (cases rule: scan_vote_cases [of rs])
  case none
  then have "rr_voted_for (replay_scan rs') = None"
    by (intro scan_voted_for_none) (simp only: set scan_term_cong [OF set])
  with none show ?thesis by (simp add: scan_voted_for_none)
next
  case (some r)
  have "single_votes rs'" using assms unfolding single_votes_def by (simp only: set)
  then have "rr_voted_for (replay_scan rs') = voted_for_id r"
    using some by (intro scan_voted_for) (simp_all add: scan_term_cong [OF set] set)
  then show ?thesis using scan_voted_for [OF assms(1) some] by simp
qed

section \<open>Properties\<close>

text \<open>C31 Replay does not depend on the order of the log. The disks of a group are scanned
  segment by segment, so records reach replay in an order unrelated to the order in which they
  were written, and a record may be scanned more than once. If a ballot determines the record of
  a slot and the votes of a term name one candidate, two scans of the same set of records
  recover the same term, the same vote, and per slot the same highest promise and the same
  highest accepted entry.\<close>

theorem replay_order_independent:
  assumes "ballots_determine (set rs)" and "single_votes rs" and "set rs' = set rs"
  shows "rr_current_term (replay_scan rs') = rr_current_term (replay_scan rs) \<and>
    rr_voted_for (replay_scan rs') = rr_voted_for (replay_scan rs) \<and>
    rr_slots (replay_scan rs') = rr_slots (replay_scan rs)"
  using assms by (intro conjI scan_term_cong scan_vote_cong scan_slots_cong)

definition demo_log :: "wal_record list" where
  "demo_log =
     [from_promised 1 2 7 (PxBallot 3 1), from_accepted 1 (demo_entry 7 3 1 2),
      from_vote_granted 1 2 9, from_accepted 1 (demo_entry 7 0 4 1), from_promised 1 1 7 (PxBallot 5 2)]"

lemma replay_order_independent_witness:
  "rr_voted_for (replay_scan (rev demo_log)) = Some 9 \<and>
   rr_slots (replay_scan (rev demo_log)) =
     [((7, 0), from_promised 1 1 7 (PxBallot 5 2)), ((7, 1), from_accepted 1 (demo_entry 7 3 1 2))]"
proof -
  have det: "ballots_determine (set demo_log)"
    by (auto simp: ballots_determine_def slot_records_def slot_key_def demo_log_def from_promised_def
        from_accepted_def from_vote_granted_def demo_entry_def)
  have votes: "single_votes demo_log"
    by (simp add: single_votes_def demo_log_def from_promised_def from_accepted_def)
  have "rr_voted_for (replay_scan demo_log) = Some 9" by code_simp
  moreover have "rr_slots (replay_scan demo_log) =
     [((7, 0), from_promised 1 1 7 (PxBallot 5 2)), ((7, 1), from_accepted 1 (demo_entry 7 3 1 2))]"
    by code_simp
  ultimately show ?thesis
    using replay_order_independent [OF det votes set_rev] by simp
qed

end
