(* ===== verification/Wal_Text.thy ===== *)
theory Wal_Text
  imports Wal_Record "HOL-Library.Sublist"
begin

text \<open>
  The text form of a log record (\<open>wal/record.rs\<close>, \<open>encode_text_line\<close> and \<open>decode_text_line\<close>)
  with the string functions of the standard library it uses: integer printing and parsing,
  \<open>split\<close>, \<open>split_once\<close>, \<open>rsplit_once\<close> and \<open>trim_end_matches\<close>. A string is the list of its
  bytes; every string the codec itself produces is ASCII.
\<close>

named_theorems text_simps \<open>splitting and parsing of printed fields\<close>

section \<open>Strings of the standard library\<close>

definition asc :: "string \<Rightarrow> bytes" where
  "asc s = map of_char s"

definition text_of :: "bytes \<Rightarrow> string" where
  "text_of bs = map (\<lambda>b. char_of (unat b)) bs"

function dec_str :: "nat \<Rightarrow> bytes" where
  "dec_str n = (if n < 10 then [48 + of_nat n] else dec_str (n div 10) @ [48 + of_nat (n mod 10)])"
  by pat_completeness auto
termination
  by (relation "measure id") auto

declare dec_str.simps [simp del]

definition hex_char :: "nat \<Rightarrow> u8" where
  "hex_char d = (if d < 10 then 48 + of_nat d else 97 + of_nat (d - 10))"

text \<open>\<open>{:08x}\<close> is \<open>hex_pad 8\<close>.\<close>

primrec hex_pad :: "nat \<Rightarrow> nat \<Rightarrow> bytes" where
  "hex_pad 0 n = []"
| "hex_pad (Suc k) n = hex_pad k (n div 16) @ [hex_char (n mod 16)]"

definition to_digit :: "nat \<Rightarrow> u8 \<Rightarrow> nat option" where
  "to_digit radix c =
     (let v = unat c;
          d = (if 48 \<le> v \<and> v \<le> 57 then Some (v - 48)
               else if 97 \<le> v \<and> v \<le> 122 then Some (v - 97 + 10)
               else if 65 \<le> v \<and> v \<le> 90 then Some (v - 65 + 10) else None)
      in case d of None \<Rightarrow> None | Some x \<Rightarrow> if x < radix then Some x else None)"

fun parse_digits :: "nat \<Rightarrow> nat \<Rightarrow> nat \<Rightarrow> bytes \<Rightarrow> string + nat" where
  "parse_digits radix maxv acc [] = Inr acc"
| "parse_digits radix maxv acc (c # cs) =
     (case to_digit radix c of
        None \<Rightarrow> Inl ''invalid digit found in string''
      | Some x \<Rightarrow>
          if maxv < acc * radix + x then Inl ''number too large to fit in target type''
          else parse_digits radix maxv (acc * radix + x) cs)"

definition parse_uint :: "nat \<Rightarrow> nat \<Rightarrow> bytes \<Rightarrow> string + nat" where
  "parse_uint radix maxv s =
     (if s = [] then Inl ''cannot parse integer from empty string''
      else if s = [43] \<or> s = [45] then Inl ''invalid digit found in string''
      else parse_digits radix maxv 0 (if hd s = 43 then tl s else s))"

fun split_on :: "u8 \<Rightarrow> bytes \<Rightarrow> bytes list" where
  "split_on c [] = [[]]"
| "split_on c (x # xs) =
     (if x = c then [] # split_on c xs
      else case split_on c xs of f # fs \<Rightarrow> (x # f) # fs | [] \<Rightarrow> [[x]])"

fun split_once :: "u8 \<Rightarrow> bytes \<Rightarrow> (bytes \<times> bytes) option" where
  "split_once c [] = None"
| "split_once c (x # xs) =
     (if x = c then Some ([], xs) else map_option (\<lambda>(a, b). (x # a, b)) (split_once c xs))"

fun rsplit_once :: "bytes \<Rightarrow> bytes \<Rightarrow> (bytes \<times> bytes) option" where
  "rsplit_once pat [] = (if pat = [] then Some ([], []) else None)"
| "rsplit_once pat (x # xs) =
     (case rsplit_once pat xs of
        Some (a, b) \<Rightarrow> Some (x # a, b)
      | None \<Rightarrow> if prefix pat (x # xs) then Some ([], drop (length pat) (x # xs)) else None)"

definition trim_end_newlines :: "bytes \<Rightarrow> bytes" where
  "trim_end_newlines s = rev (dropWhile (\<lambda>b. b = 13 \<or> b = 10) (rev s))"

section \<open>Field parsers\<close>

definition parse_u16 :: "bytes \<Rightarrow> bytes \<Rightarrow> record_error + u16" where
  "parse_u16 value field =
     (case parse_uint 10 65535 value of
        Inl e \<Rightarrow> Inl (BadText (''invalid '' @ text_of field @ '': '' @ e))
      | Inr n \<Rightarrow> Inr (of_nat n))"

definition parse_u64 :: "bytes \<Rightarrow> bytes \<Rightarrow> record_error + u64" where
  "parse_u64 value field =
     (case parse_uint 10 18446744073709551615 value of
        Inl e \<Rightarrow> Inl (BadText (''invalid '' @ text_of field @ '': '' @ e))
      | Inr n \<Rightarrow> Inr (of_nat n))"

definition parse_hex_u32 :: "bytes \<Rightarrow> record_error + u32" where
  "parse_hex_u32 value =
     (case parse_uint 16 4294967295 value of
        Inl e \<Rightarrow> Inl (BadText (''invalid crc32c: '' @ e))
      | Inr n \<Rightarrow> Inr (of_nat n))"

fun record_type_as_str :: "record_type \<Rightarrow> string" where
  "record_type_as_str RecPromised = ''Promised''"
| "record_type_as_str RecAccepted = ''Accepted''"
| "record_type_as_str RecVoteGranted = ''VoteGranted''"

definition record_type_from_name :: "bytes \<Rightarrow> record_error + record_type" where
  "record_type_from_name value =
     (if value = asc ''Promised'' then Inr RecPromised
      else if value = asc ''Accepted'' then Inr RecAccepted
      else if value = asc ''VoteGranted'' then Inr RecVoteGranted
      else Inl (BadText (''unknown record type: '' @ text_of value)))"

section \<open>Text lines\<close>

definition text_prefix :: bytes where
  "text_prefix = asc ''CROWDB_WAL_TEXT''"

text \<open>The line without its checksum; \<open>None\<close> stands for the unreachable arm of the hex printer.\<close>

definition text_body :: "wal_record \<Rightarrow> bytes option" where
  "text_body r =
     map_option (\<lambda>hex.
       text_prefix @ asc '' v='' @ dec_str (unat wal_version) @
       asc '' type='' @ asc (record_type_as_str (wr_type r)) @
       asc '' group_id='' @ dec_str (unat (wr_group_id r)) @
       asc '' term='' @ dec_str (unat (wr_term r)) @
       asc '' slot='' @ dec_str (unat (wr_slot r)) @
       asc '' ballot_round='' @ dec_str (unat (bal_round (wr_ballot r))) @
       asc '' ballot_leader_id='' @ dec_str (unat (bal_leader (wr_ballot r))) @
       asc '' payload_hex='' @ hex) (encode_hex (wr_payload r))"

definition with_crc :: "(bytes \<Rightarrow> u32) \<Rightarrow> bytes \<Rightarrow> bytes" where
  "with_crc crc line = line @ asc '' crc32c='' @ hex_pad 8 (unat (crc line)) @ [10]"

definition encode_text_line :: "(bytes \<Rightarrow> u32) \<Rightarrow> wal_record \<Rightarrow> bytes option" where
  "encode_text_line crc r = map_option (with_crc crc) (text_body r)"

record text_fields =
  tf_version :: "u16 option"
  tf_type :: "record_type option"
  tf_group_id :: "u64 option"
  tf_term :: "u64 option"
  tf_slot :: "u64 option"
  tf_ballot_round :: "u64 option"
  tf_ballot_leader_id :: "u64 option"
  tf_payload :: "bytes option"

definition no_fields :: text_fields where
  "no_fields = \<lparr> tf_version = None, tf_type = None, tf_group_id = None, tf_term = None,
     tf_slot = None, tf_ballot_round = None, tf_ballot_leader_id = None, tf_payload = None \<rparr>"

definition set_text_field :: "bytes \<Rightarrow> bytes \<Rightarrow> text_fields \<Rightarrow> record_error + text_fields" where
  "set_text_field key value f =
     (if key = asc ''v'' then map_sum id (\<lambda>x. f\<lparr>tf_version := Some x\<rparr>) (parse_u16 value key)
      else if key = asc ''type'' then map_sum id (\<lambda>x. f\<lparr>tf_type := Some x\<rparr>) (record_type_from_name value)
      else if key = asc ''group_id'' then map_sum id (\<lambda>x. f\<lparr>tf_group_id := Some x\<rparr>) (parse_u64 value key)
      else if key = asc ''term'' then map_sum id (\<lambda>x. f\<lparr>tf_term := Some x\<rparr>) (parse_u64 value key)
      else if key = asc ''slot'' then map_sum id (\<lambda>x. f\<lparr>tf_slot := Some x\<rparr>) (parse_u64 value key)
      else if key = asc ''ballot_round''
        then map_sum id (\<lambda>x. f\<lparr>tf_ballot_round := Some x\<rparr>) (parse_u64 value key)
      else if key = asc ''ballot_leader_id''
        then map_sum id (\<lambda>x. f\<lparr>tf_ballot_leader_id := Some x\<rparr>) (parse_u64 value key)
      else if key = asc ''payload_hex'' then map_sum id (\<lambda>x. f\<lparr>tf_payload := Some x\<rparr>) (decode_hex value)
      else Inl (BadText (''unknown field: '' @ text_of key)))"

text \<open>The loop over \<open>key=value\<close> fields, shared by records, segment headers and footers.\<close>

fun fold_fields ::
    "(bytes \<Rightarrow> 'err) \<Rightarrow> (bytes \<Rightarrow> bytes \<Rightarrow> 'a \<Rightarrow> 'err + 'a) \<Rightarrow> bytes list \<Rightarrow> 'a \<Rightarrow> 'err + 'a" where
  "fold_fields malformed store [] f = Inr f"
| "fold_fields malformed store (fd # fds) f =
     (case split_once 61 fd of
        None \<Rightarrow> Inl (malformed fd)
      | Some (key, value) \<Rightarrow>
          (case store key value f of
             Inl e \<Rightarrow> Inl e
           | Inr f' \<Rightarrow> fold_fields malformed store fds f'))"

definition require :: "string \<Rightarrow> 'a option \<Rightarrow> record_error + 'a" where
  "require msg v = (case v of None \<Rightarrow> Inl (BadText msg) | Some x \<Rightarrow> Inr x)"

text \<open>Splits the checksum off a line and verifies it.\<close>

definition checked_body :: "(bytes \<Rightarrow> u32) \<Rightarrow> bytes \<Rightarrow> record_error + bytes" where
  "checked_body crc line0 =
     (case rsplit_once (asc '' crc32c='') (trim_end_newlines line0) of
        None \<Rightarrow> Inl (BadText ''missing crc32c field'')
      | Some (body, crc_hex) \<Rightarrow>
          bind_sum (parse_hex_u32 crc_hex) (\<lambda>got.
            if got \<noteq> crc body then Inl (BadCrc (crc body) got) else Inr body))"

definition finish_text :: "text_fields \<Rightarrow> record_error + wal_record" where
  "finish_text f =
     bind_sum (require ''missing v field'' (tf_version f)) (\<lambda>version.
       if version \<noteq> wal_version then Inl (BadVersion version)
       else bind_sum (require ''missing type field'' (tf_type f)) (\<lambda>ty.
            bind_sum (require ''missing group_id field'' (tf_group_id f)) (\<lambda>g.
            bind_sum (require ''missing term field'' (tf_term f)) (\<lambda>t.
            bind_sum (require ''missing slot field'' (tf_slot f)) (\<lambda>s.
            bind_sum (require ''missing ballot_round field'' (tf_ballot_round f)) (\<lambda>br.
            bind_sum (require ''missing ballot_leader_id field'' (tf_ballot_leader_id f)) (\<lambda>bl.
            bind_sum (require ''missing payload_hex field'' (tf_payload f)) (\<lambda>p.
              Inr \<lparr> wr_type = ty, wr_group_id = g, wr_term = t, wr_slot = s,
                    wr_ballot = PxBallot br bl, wr_payload = p \<rparr>))))))))"

definition decode_text_line :: "(bytes \<Rightarrow> u32) \<Rightarrow> bytes \<Rightarrow> record_error + wal_record" where
  "decode_text_line crc line =
     bind_sum (checked_body crc line) (\<lambda>body.
       let fs = split_on 32 body in
       if hd fs \<noteq> text_prefix then Inl (BadText (''bad prefix: '' @ text_of (hd fs)))
       else bind_sum
              (fold_fields (\<lambda>field. BadText (''malformed field: '' @ text_of field)) set_text_field
                 (tl fs) no_fields) finish_text)"

section \<open>Printed fields\<close>

lemma to_digit_dec: "d < 10 \<Longrightarrow> 10 \<le> r \<Longrightarrow> to_digit r (48 + of_nat d) = Some d"
proof -
  assume "d < 10" "10 \<le> r"
  moreover from this have "unat (48 + of_nat d :: u8) = 48 + d"
    by (simp add: unat_word_ariths unat_of_nat take_bit_eq_mod)
  ultimately show ?thesis by (simp add: to_digit_def)
qed

lemma to_digit_hex: "d < 16 \<Longrightarrow> to_digit 16 (hex_char d) = Some d"
proof (cases "d < 10")
  case False
  assume "d < 16"
  moreover from this False have "unat (97 + of_nat (d - 10) :: u8) = 97 + (d - 10)"
    by (simp add: unat_word_ariths unat_of_nat take_bit_eq_mod)
  ultimately show ?thesis using False by (simp add: to_digit_def hex_char_def)
qed (simp add: hex_char_def to_digit_dec)

lemma parse_digits_append:
  "parse_digits r m acc (xs @ ys) =
     (case parse_digits r m acc xs of Inl e \<Rightarrow> Inl e | Inr a \<Rightarrow> parse_digits r m a ys)"
  by (induction xs arbitrary: acc) (auto split: option.split)

lemma parse_dec_str: "n \<le> m \<Longrightarrow> parse_digits 10 m 0 (dec_str n) = Inr n"
proof (induction n rule: dec_str.induct)
  case (1 n)
  show ?case
  proof (cases "n < 10")
    case True
    then show ?thesis using 1 by (simp add: dec_str.simps to_digit_dec)
  next
    case False
    then have "parse_digits 10 m 0 (dec_str (n div 10)) = Inr (n div 10)"
      using 1 by (meson div_le_dividend order_trans)
    then show ?thesis using False 1(2)
      by (simp add: dec_str.simps [of n] parse_digits_append to_digit_dec)
  qed
qed

lemma dec_str_digits: "c \<in> set (dec_str n) \<Longrightarrow> 48 \<le> c \<and> c \<le> 57"
proof (induction n rule: dec_str.induct)
  case (1 n)
  have digit: "d < 10 \<Longrightarrow> 48 \<le> (48 + of_nat d :: u8) \<and> (48 + of_nat d :: u8) \<le> 57" for d
    by (simp add: word_le_nat_alt unat_word_ariths unat_of_nat take_bit_eq_mod)
  show ?case
  proof (cases "n < 10")
    case True
    then have "c = 48 + of_nat n" using 1(2) by (simp add: dec_str.simps)
    with digit [OF True] show ?thesis by simp
  next
    case False
    then have "c \<in> set (dec_str (n div 10)) \<or> c = 48 + of_nat (n mod 10)"
      using 1(2) by (auto simp: dec_str.simps [of n])
    then show ?thesis using 1(1) [OF False] digit [of "n mod 10"] by auto
  qed
qed

lemma dec_str_not_Nil [simp]: "dec_str n \<noteq> []"
  by (simp add: dec_str.simps [of n])

lemma parse_uint_digits:
  assumes "s \<noteq> []" and "\<forall>c \<in> set s. 48 \<le> c"
  shows "parse_uint r m s = parse_digits r m 0 s"
proof -
  have "48 \<le> hd s" using assms by simp
  then have "hd s \<noteq> 43 \<and> hd s \<noteq> 45" by auto
  then show ?thesis using assms(1) by (auto simp: parse_uint_def)
qed

lemma parse_uint_dec: "n \<le> m \<Longrightarrow> parse_uint 10 m (dec_str n) = Inr n"
  using dec_str_digits by (subst parse_uint_digits) (auto simp: parse_dec_str)

lemma parse_hex_pad:
  "n < 16 ^ k \<Longrightarrow> n \<le> m \<Longrightarrow> parse_digits 16 m 0 (hex_pad k n) = Inr n"
proof (induction k arbitrary: n)
  case (Suc k)
  have "n div 16 < 16 ^ k" using Suc.prems by (simp add: less_mult_imp_div_less mult.commute)
  moreover have "n div 16 \<le> m" using Suc.prems by simp
  ultimately have "parse_digits 16 m 0 (hex_pad k (n div 16)) = Inr (n div 16)" by (rule Suc.IH)
  then show ?case using Suc.prems by (simp add: parse_digits_append to_digit_hex)
qed simp

lemma hex_char_bounds: "d < 16 \<Longrightarrow> 48 \<le> hex_char d \<and> hex_char d \<le> 102"
  by (simp add: hex_char_def word_le_nat_alt unat_word_ariths unat_of_nat take_bit_eq_mod)

lemma hex_pad_digits: "c \<in> set (hex_pad k n) \<Longrightarrow> 48 \<le> c \<and> c \<le> 102"
  using hex_char_bounds by (induction k arbitrary: n) auto

lemma length_hex_pad [simp]: "length (hex_pad k n) = k"
  by (induction k arbitrary: n) auto

lemma encode_hex_digits: "encode_hex bs = Some out \<Longrightarrow> c \<in> set out \<Longrightarrow> 48 \<le> c \<and> c \<le> 102"
proof (induction bs arbitrary: out)
  case (Cons b bs)
  have nib: "nibble_to_hex v = Some h \<Longrightarrow> 48 \<le> h \<and> h \<le> 102" for v h
    by (auto simp: nibble_to_hex_def word_le_nat_alt unat_word_ariths unat_sub_if' split: if_splits)
  show ?case using Cons nib by (auto split: option.splits)
qed simp

section \<open>Splitting what was printed\<close>

lemma split_on_app [text_simps]: "c \<notin> set a \<Longrightarrow> split_on c (a @ c # rest) = a # split_on c rest"
  by (induction a) auto

lemma split_on_end [text_simps]: "c \<notin> set a \<Longrightarrow> split_on c a = [a]"
  by (induction a) auto

lemma split_once_app [text_simps]: "c \<notin> set a \<Longrightarrow> split_once c (a @ c # rest) = Some (a, rest)"
  by (induction a) auto

lemma rsplit_once_None: "c \<notin> set s \<Longrightarrow> rsplit_once (c # pat) s = None"
  by (induction s) auto

lemma rsplit_once_app:
  assumes "c \<notin> set pat" and "c \<notin> set rest"
  shows "rsplit_once (c # pat) (body @ (c # pat) @ rest) = Some (body, rest)"
proof (induction body)
  case Nil
  have "rsplit_once (c # pat) (pat @ rest) = None"
    using assms by (intro rsplit_once_None) simp
  then show ?case by simp
qed simp

lemma trim_end_newlines_snoc: "s = [] \<or> last s \<noteq> 13 \<and> last s \<noteq> 10 \<Longrightarrow> trim_end_newlines (s @ [10]) = s"
  by (cases s rule: rev_cases) (auto simp: trim_end_newlines_def)

lemma trim_end_newlines_id: "s = [] \<or> last s \<noteq> 13 \<and> last s \<noteq> 10 \<Longrightarrow> trim_end_newlines s = s"
  by (cases s rule: rev_cases) (auto simp: trim_end_newlines_def)

lemma asc_crc: "asc '' crc32c='' = 32 # asc ''crc32c=''"
  by (simp add: asc_def of_char_def)

lemma checked_body_with_crc: "checked_body crc (with_crc crc line) = Inr line"
proof -
  let ?h = "hex_pad 8 (unat (crc line))"
  have h: "48 \<le> c \<and> c \<le> 102" if "c \<in> set ?h" for c using that by (rule hex_pad_digits)
  have "?h \<noteq> []" by (metis length_hex_pad list.size(3) zero_neq_numeral)
  then have "last ?h \<in> set ?h" by simp
  then have last: "last ?h \<noteq> 13 \<and> last ?h \<noteq> 10" using h by fastforce
  have "trim_end_newlines ((line @ asc '' crc32c='' @ ?h) @ [10]) = line @ asc '' crc32c='' @ ?h"
    using last \<open>?h \<noteq> []\<close> by (intro trim_end_newlines_snoc) simp
  moreover have "32 \<notin> set ?h" using h by fastforce
  moreover have "32 \<notin> set (asc ''crc32c='')" by (simp add: asc_def of_char_def)
  ultimately have "rsplit_once (asc '' crc32c='') (trim_end_newlines (with_crc crc line)) = Some (line, ?h)"
    using rsplit_once_app [of 32 "asc ''crc32c=''" ?h line] by (simp add: with_crc_def asc_crc)
  moreover have "parse_hex_u32 ?h = Inr (crc line)"
  proof -
    have "unat (crc line) < 16 ^ 8" using unat_bound [of "crc line"] by simp
    then have "parse_digits 16 4294967295 0 ?h = Inr (unat (crc line))"
      by (intro parse_hex_pad) simp_all
    moreover have "parse_uint 16 4294967295 ?h = parse_digits 16 4294967295 0 ?h"
      using h \<open>?h \<noteq> []\<close> by (intro parse_uint_digits) auto
    ultimately show ?thesis by (simp add: parse_hex_u32_def)
  qed
  ultimately show ?thesis by (simp add: checked_body_def bind_sum_def)
qed

lemma parse_u64_dec [text_simps]: "parse_u64 (dec_str (unat w)) field = Inr w"
  using unat_bound [of w] by (simp add: parse_u64_def parse_uint_dec)

lemma parse_u16_dec [text_simps]: "parse_u16 (dec_str (unat w)) field = Inr w"
  using unat_bound [of w] by (simp add: parse_u16_def parse_uint_dec)

lemma record_type_from_name_as_str [text_simps]:
  "record_type_from_name (asc (record_type_as_str t)) = Inr t"
  by (cases t) (simp_all add: record_type_from_name_def asc_def of_char_def)

lemma decode_encode_hex [text_simps]: "encode_hex bs = Some out \<Longrightarrow> decode_hex out = Inr bs"
  using hex_roundtrip_pairs [of bs] by (auto simp: decode_hex_def)

text \<open>A printed field: a key without separators and a value without spaces.\<close>

definition field_ok :: "string \<Rightarrow> bytes \<Rightarrow> bool" where
  "field_ok k v \<longleftrightarrow> 32 \<notin> set (asc k) \<and> 61 \<notin> set (asc k) \<and> 32 \<notin> set v"

definition print_fields :: "(string \<times> bytes) list \<Rightarrow> bytes" where
  "print_fields kvs = concat (map (\<lambda>(k, v). 32 # asc k @ 61 # v) kvs)"

lemma split_print_fields:
  "32 \<notin> set pre \<Longrightarrow> list_all (\<lambda>(k, v). field_ok k v) kvs \<Longrightarrow>
   split_on 32 (pre @ print_fields kvs) = pre # map (\<lambda>(k, v). asc k @ 61 # v) kvs"
proof (induction kvs arbitrary: pre)
  case (Cons kv kvs)
  obtain k v where kv: "kv = (k, v)" by fastforce
  have "split_on 32 ((asc k @ 61 # v) @ print_fields kvs) =
      (asc k @ 61 # v) # map (\<lambda>(k, v). asc k @ 61 # v) kvs"
    using Cons.prems kv by (intro Cons.IH) (auto simp: field_ok_def)
  then show ?case using Cons.prems kv by (simp add: print_fields_def split_on_app)
qed (simp add: print_fields_def split_on_end)

fun fold_parsed ::
    "(bytes \<Rightarrow> bytes \<Rightarrow> 'a \<Rightarrow> 'err + 'a) \<Rightarrow> (string \<times> bytes) list \<Rightarrow> 'a \<Rightarrow> 'err + 'a" where
  "fold_parsed store [] f = Inr f"
| "fold_parsed store ((k, v) # kvs) f =
     (case store (asc k) v f of Inl e \<Rightarrow> Inl e | Inr f' \<Rightarrow> fold_parsed store kvs f')"

lemma fold_fields_printed:
  "list_all (\<lambda>(k, v). field_ok k v) kvs \<Longrightarrow>
   fold_fields bad store (map (\<lambda>(k, v). asc k @ 61 # v) kvs) f = fold_parsed store kvs f"
  by (induction kvs arbitrary: f)
     (auto simp: field_ok_def split_once_app split: sum.split)

lemma field_ok_dec: "32 \<notin> set (asc k) \<Longrightarrow> 61 \<notin> set (asc k) \<Longrightarrow> field_ok k (dec_str n)"
  using dec_str_digits [of 32 n] by (auto simp: field_ok_def)

section \<open>Round trip\<close>

definition record_fields :: "wal_record \<Rightarrow> bytes \<Rightarrow> (string \<times> bytes) list" where
  "record_fields r hex =
     [(''v'', dec_str (unat wal_version)), (''type'', asc (record_type_as_str (wr_type r))),
      (''group_id'', dec_str (unat (wr_group_id r))), (''term'', dec_str (unat (wr_term r))),
      (''slot'', dec_str (unat (wr_slot r))),
      (''ballot_round'', dec_str (unat (bal_round (wr_ballot r)))),
      (''ballot_leader_id'', dec_str (unat (bal_leader (wr_ballot r)))), (''payload_hex'', hex)]"

lemma text_body_eq:
  "encode_hex (wr_payload r) = Some hex \<Longrightarrow>
   text_body r = Some (text_prefix @ print_fields (record_fields r hex))"
  by (simp add: text_body_def print_fields_def record_fields_def asc_def of_char_def)

lemma record_fields_ok:
  assumes "encode_hex (wr_payload r) = Some hex"
  shows "list_all (\<lambda>(k, v). field_ok k v) (record_fields r hex)"
proof -
  have "32 \<notin> set hex" using encode_hex_digits [OF assms, of 32] by auto
  moreover have "32 \<notin> set (asc (record_type_as_str t))" for t
    by (cases t) (simp_all add: asc_def of_char_def)
  moreover have "32 \<notin> set (dec_str n)" for n using dec_str_digits [of 32 n] by auto
  ultimately show ?thesis
    by (simp add: record_fields_def field_ok_def asc_def of_char_def)
qed

lemma set_text_field_keys:
  "set_text_field (asc ''v'') x f = map_sum id (\<lambda>y. f\<lparr>tf_version := Some y\<rparr>) (parse_u16 x (asc ''v''))"
  "set_text_field (asc ''type'') x f = map_sum id (\<lambda>y. f\<lparr>tf_type := Some y\<rparr>) (record_type_from_name x)"
  "set_text_field (asc ''group_id'') x f =
     map_sum id (\<lambda>y. f\<lparr>tf_group_id := Some y\<rparr>) (parse_u64 x (asc ''group_id''))"
  "set_text_field (asc ''term'') x f = map_sum id (\<lambda>y. f\<lparr>tf_term := Some y\<rparr>) (parse_u64 x (asc ''term''))"
  "set_text_field (asc ''slot'') x f = map_sum id (\<lambda>y. f\<lparr>tf_slot := Some y\<rparr>) (parse_u64 x (asc ''slot''))"
  "set_text_field (asc ''ballot_round'') x f =
     map_sum id (\<lambda>y. f\<lparr>tf_ballot_round := Some y\<rparr>) (parse_u64 x (asc ''ballot_round''))"
  "set_text_field (asc ''ballot_leader_id'') x f =
     map_sum id (\<lambda>y. f\<lparr>tf_ballot_leader_id := Some y\<rparr>) (parse_u64 x (asc ''ballot_leader_id''))"
  "set_text_field (asc ''payload_hex'') x f = map_sum id (\<lambda>y. f\<lparr>tf_payload := Some y\<rparr>) (decode_hex x)"
  by (simp_all add: set_text_field_def asc_def of_char_def)

lemma fold_record_fields:
  assumes "encode_hex (wr_payload r) = Some hex"
  shows "fold_parsed set_text_field (record_fields r hex) no_fields =
    Inr \<lparr> tf_version = Some wal_version, tf_type = Some (wr_type r),
          tf_group_id = Some (wr_group_id r), tf_term = Some (wr_term r), tf_slot = Some (wr_slot r),
          tf_ballot_round = Some (bal_round (wr_ballot r)),
          tf_ballot_leader_id = Some (bal_leader (wr_ballot r)), tf_payload = Some (wr_payload r) \<rparr>"
  by (simp add: record_fields_def set_text_field_keys text_simps decode_encode_hex [OF assms]
      no_fields_def)

lemma decode_text_line_encoded:
  assumes "encode_text_line crc r = Some line"
  shows "decode_text_line crc line = Inr r"
proof -
  obtain hex where hex: "encode_hex (wr_payload r) = Some hex"
    and line: "line = with_crc crc (text_prefix @ print_fields (record_fields r hex))"
    using assms text_body_eq [of r] by (auto simp: encode_text_line_def text_body_def)
  have "32 \<notin> set text_prefix" by (simp add: text_prefix_def asc_def of_char_def)
  then have "split_on 32 (text_prefix @ print_fields (record_fields r hex)) =
      text_prefix # map (\<lambda>(k, v). asc k @ 61 # v) (record_fields r hex)"
    using record_fields_ok [OF hex] by (rule split_print_fields)
  then show ?thesis
    by (simp add: decode_text_line_def line checked_body_with_crc bind_sum_def
        fold_fields_printed [OF record_fields_ok [OF hex]] fold_record_fields [OF hex]
        finish_text_def require_def)
qed

lemma encode_text_line_total: "\<exists>line. encode_text_line crc r = Some line"
  using hex_roundtrip_pairs [of "wr_payload r"]
  by (auto simp: encode_text_line_def text_body_def)

text \<open>A line holds no newline before its end, so the reader finds the record boundary.\<close>

lemma encode_text_line_newline:
  assumes "encode_text_line crc r = Some line"
  obtains l where "line = l @ [10]" and "10 \<notin> set l" and "prefix text_prefix l"
proof -
  obtain hex where hex: "encode_hex (wr_payload r) = Some hex"
    and line: "line = with_crc crc (text_prefix @ print_fields (record_fields r hex))"
    using assms text_body_eq [of r] by (auto simp: encode_text_line_def text_body_def)
  let ?l = "(text_prefix @ print_fields (record_fields r hex)) @ asc '' crc32c='' @
    hex_pad 8 (unat (crc (text_prefix @ print_fields (record_fields r hex))))"
  have "10 \<notin> set hex" using encode_hex_digits [OF hex, of 10] by auto
  moreover have "10 \<notin> set (asc (record_type_as_str t))" for t
    by (cases t) (simp_all add: asc_def of_char_def)
  moreover have "10 \<notin> set (dec_str n)" for n using dec_str_digits [of 10 n] by auto
  moreover have "10 \<notin> set (hex_pad 8 n)" for n using hex_pad_digits [of 10 8 n] by auto
  moreover have "10 \<notin> set text_prefix" "10 \<notin> set (asc '' crc32c='')"
    by (simp_all add: text_prefix_def asc_def of_char_def)
  moreover have "10 \<notin> set (print_fields (record_fields r hex))"
    using calculation by (simp add: print_fields_def record_fields_def asc_def of_char_def)
  ultimately have "10 \<notin> set ?l" by simp
  then show thesis using that [of ?l] line by (simp add: with_crc_def)
qed

section \<open>Properties\<close>

text \<open>C32 A record survives the text log: every record can be printed, the printed line ends
  with its only newline, and parsing the line, checksum included, gives the record back, for
  every record and every checksum function.\<close>

theorem text_record_roundtrip:
  "\<exists>line. encode_text_line crc r = Some (line @ [10]) \<and> 10 \<notin> set line \<and>
     decode_text_line crc (line @ [10]) = Inr r"
proof -
  obtain full where full: "encode_text_line crc r = Some full" using encode_text_line_total by blast
  then obtain l where "full = l @ [10]" "10 \<notin> set l" by (rule encode_text_line_newline)
  then show ?thesis using full decode_text_line_encoded [OF full] by blast
qed

end
