(* ===== verification/Wal_Segment.thy ===== *)
theory Wal_Segment
  imports Wal_Text
begin

text \<open>
  A segment file of the log (\<open>wal/segment.rs\<close>, \<open>wal/segment/read_buffer.rs\<close>): creation, append
  and seal on the write side; header, record iteration through the read-ahead buffer and footer
  discovery on the read side. A file is its bytes. The checksum is a parameter; a write or a
  flush may fail, and its outcome is an argument of the operation.
\<close>

section \<open>Errors of the operating system\<close>

datatype io_kind = InvalidData | UnexpectedEof | NotFound | BrokenPipe | InvalidInput | OtherKind

datatype io_error = IoError io_kind string

datatype seg_error = SegPanic string | SegIo io_error

datatype wal_record_format = FmtAuto | FmtBinary | FmtTextLine

section \<open>UTF-8 validation\<close>

text \<open>\<open>std::str::from_utf8\<close>: the position of the first invalid sequence, and its length unless
  the input ends inside it.\<close>

definition utf8_width :: "u8 \<Rightarrow> nat" where
  "utf8_width b =
     (if b < 0x80 then 1 else if 0xC2 \<le> b \<and> b \<le> 0xDF then 2
      else if 0xE0 \<le> b \<and> b \<le> 0xEF then 3 else if 0xF0 \<le> b \<and> b \<le> 0xF4 then 4 else 0)"

definition utf8_second_ok :: "u8 \<Rightarrow> u8 \<Rightarrow> bool" where
  "utf8_second_ok b c =
     (if b = 0xE0 then 0xA0 \<le> c \<and> c \<le> 0xBF
      else if b = 0xED then 0x80 \<le> c \<and> c \<le> 0x9F
      else if b = 0xF0 then 0x90 \<le> c \<and> c \<le> 0xBF
      else if b = 0xF4 then 0x80 \<le> c \<and> c \<le> 0x8F
      else 0x80 \<le> c \<and> c \<le> 0xBF)"

definition utf8_cont :: "u8 \<Rightarrow> bool" where
  "utf8_cont c \<longleftrightarrow> 0x80 \<le> c \<and> c \<le> 0xBF"

fun utf8_from :: "nat \<Rightarrow> bytes \<Rightarrow> nat \<Rightarrow> (nat \<times> nat option) option" where
  "utf8_from 0 s i = None"
| "utf8_from (Suc fuel) s i =
     (if length s \<le> i then None
      else let b = s ! i; w = utf8_width b in
        if w = 1 then utf8_from fuel s (i + 1)
        else if w = 0 then Some (i, Some 1)
        else if length s \<le> i + 1 then Some (i, None)
        else if \<not> utf8_second_ok b (s ! (i + 1)) then Some (i, Some 1)
        else if w = 2 then utf8_from fuel s (i + 2)
        else if length s \<le> i + 2 then Some (i, None)
        else if \<not> utf8_cont (s ! (i + 2)) then Some (i, Some 2)
        else if w = 3 then utf8_from fuel s (i + 3)
        else if length s \<le> i + 3 then Some (i, None)
        else if \<not> utf8_cont (s ! (i + 3)) then Some (i, Some 3)
        else utf8_from fuel s (i + 4))"

definition utf8_error :: "bytes \<Rightarrow> string option" where
  "utf8_error s =
     map_option (\<lambda>(i, len).
       case len of
         Some n \<Rightarrow> ''invalid utf-8 sequence of '' @ text_of (dec_str n) @ '' bytes from index '' @
                   text_of (dec_str i)
       | None \<Rightarrow> ''incomplete utf-8 byte sequence from index '' @ text_of (dec_str i))
       (utf8_from (Suc (length s)) s 0)"

section \<open>Headers and footers\<close>

definition seg_magic :: u32 where "seg_magic = 0x5345474D"
definition seg_version :: u16 where "seg_version = 1"
definition seg_header_len :: nat where "seg_header_len = 4 + 2 + 8 + 8"
definition footer_magic :: u32 where "footer_magic = 0x464F4F54"
definition footer_len :: nat where "footer_len = 4 + 8 + 8 + 4 + 4"
definition seg_text_prefix :: bytes where "seg_text_prefix = asc ''CROWDB_WAL_SEG''"
definition footer_text_prefix :: bytes where "footer_text_prefix = asc ''CROWDB_WAL_FOOTER''"
definition footer_tail_scan_bytes :: nat where "footer_tail_scan_bytes = 64 * 1024"

record segment_header =
  sh_segment_id :: u64
  sh_group_id :: u64

record segment_footer =
  sf_min_slot :: slot_index
  sf_max_slot :: slot_index
  sf_record_count :: u32

definition encode_seg_header :: "u64 \<Rightarrow> u64 \<Rightarrow> bytes" where
  "encode_seg_header segment_id group_id =
     u32_le seg_magic @ u16_le seg_version @ u64_le segment_id @ u64_le group_id"

definition hex_alt :: "nat \<Rightarrow> string" where
  "hex_alt n = ''0x'' @ text_of (let h = dropWhile (\<lambda>c. c = 48) (hex_pad 8 n) in if h = [] then [48] else h)"

definition decode_seg_header :: "bytes \<Rightarrow> io_error + segment_header" where
  "decode_seg_header buf =
     (let magic = rd_u32 buf 0 in
      if magic \<noteq> seg_magic then Inl (IoError InvalidData (''bad segment magic: '' @ hex_alt (unat magic)))
      else Inr \<lparr> sh_segment_id = rd_u64 buf 6, sh_group_id = rd_u64 buf 14 \<rparr>)"

definition text_seg_header :: "u64 \<Rightarrow> u64 \<Rightarrow> bytes" where
  "text_seg_header segment_id group_id =
     seg_text_prefix @ asc '' v='' @ dec_str (unat seg_version) @
     asc '' segment_id='' @ dec_str (unat segment_id) @
     asc '' group_id='' @ dec_str (unat group_id) @ [10]"

definition io_u64 :: "string \<Rightarrow> bytes \<Rightarrow> io_error + u64" where
  "io_u64 name value =
     (case parse_uint 10 18446744073709551615 value of
        Inl e \<Rightarrow> Inl (IoError InvalidData (''bad '' @ name @ '': '' @ e))
      | Inr n \<Rightarrow> Inr (of_nat n))"

definition set_header_field ::
    "bytes \<Rightarrow> bytes \<Rightarrow> u64 option \<times> u64 option \<Rightarrow> io_error + u64 option \<times> u64 option" where
  "set_header_field key value f =
     (if key = asc ''v'' then Inr f
      else if key = asc ''segment_id''
        then map_sum id (\<lambda>x. (Some x, snd f)) (io_u64 ''segment_id'' value)
      else if key = asc ''group_id'' then map_sum id (\<lambda>x. (fst f, Some x)) (io_u64 ''group_id'' value)
      else Inl (IoError InvalidData (''unknown segment header field: '' @ text_of key)))"

definition decode_text_seg_header :: "bytes \<Rightarrow> io_error + segment_header" where
  "decode_text_seg_header line =
     (let fs = split_on 32 line in
      if hd fs \<noteq> seg_text_prefix
      then Inl (IoError InvalidData (''bad text segment header prefix: '' @ text_of (hd fs)))
      else bind_sum
        (fold_fields (\<lambda>fd. IoError InvalidData (''malformed segment header field: '' @ text_of fd))
           set_header_field (tl fs) (None, None))
        (\<lambda>(sid, gid).
           case sid of
             None \<Rightarrow> Inl (IoError InvalidData ''missing segment_id'')
           | Some s \<Rightarrow>
               (case gid of
                  None \<Rightarrow> Inl (IoError InvalidData ''missing group_id'')
                | Some g \<Rightarrow> Inr \<lparr> sh_segment_id = s, sh_group_id = g \<rparr>)))"

definition footer_body :: "slot_index \<Rightarrow> slot_index \<Rightarrow> u32 \<Rightarrow> bytes" where
  "footer_body min_slot max_slot record_count =
     u32_le footer_magic @ u64_le min_slot @ u64_le max_slot @ u32_le record_count"

definition encode_footer :: "(bytes \<Rightarrow> u32) \<Rightarrow> slot_index \<Rightarrow> slot_index \<Rightarrow> u32 \<Rightarrow> bytes" where
  "encode_footer crc min_slot max_slot record_count =
     (let buf = footer_body min_slot max_slot record_count in buf @ u32_le (crc buf))"

definition decode_footer :: "(bytes \<Rightarrow> u32) \<Rightarrow> bytes \<Rightarrow> segment_footer option" where
  "decode_footer crc buf =
     (if rd_u32 buf 0 \<noteq> footer_magic then None
      else if rd_u32 buf 24 \<noteq> crc (take 24 buf) then None
      else Some \<lparr> sf_min_slot = rd_u64 buf 4, sf_max_slot = rd_u64 buf 12,
                  sf_record_count = rd_u32 buf 20 \<rparr>)"

definition encode_text_footer :: "(bytes \<Rightarrow> u32) \<Rightarrow> slot_index \<Rightarrow> slot_index \<Rightarrow> u32 \<Rightarrow> bytes" where
  "encode_text_footer crc min_slot max_slot record_count =
     with_crc crc (footer_text_prefix @ asc '' min_slot='' @ dec_str (unat min_slot) @
       asc '' max_slot='' @ dec_str (unat max_slot) @
       asc '' record_count='' @ dec_str (unat record_count))"

definition bad_u64 :: "string \<Rightarrow> bytes \<Rightarrow> record_error + u64" where
  "bad_u64 name value =
     (case parse_uint 10 18446744073709551615 value of
        Inl e \<Rightarrow> Inl (BadText (''bad '' @ name @ '': '' @ e))
      | Inr n \<Rightarrow> Inr (of_nat n))"

definition bad_u32 :: "string \<Rightarrow> bytes \<Rightarrow> record_error + u32" where
  "bad_u32 name value =
     (case parse_uint 10 4294967295 value of
        Inl e \<Rightarrow> Inl (BadText (''bad '' @ name @ '': '' @ e))
      | Inr n \<Rightarrow> Inr (of_nat n))"

type_synonym footer_fields = "u64 option \<times> u64 option \<times> u32 option"

definition set_footer_field :: "bytes \<Rightarrow> bytes \<Rightarrow> footer_fields \<Rightarrow> record_error + footer_fields" where
  "set_footer_field key value = (\<lambda>(mn, mx, rc).
     if key = asc ''min_slot'' then map_sum id (\<lambda>x. (Some x, mx, rc)) (bad_u64 ''min_slot'' value)
     else if key = asc ''max_slot'' then map_sum id (\<lambda>x. (mn, Some x, rc)) (bad_u64 ''max_slot'' value)
     else if key = asc ''record_count''
       then map_sum id (\<lambda>x. (mn, mx, Some x)) (bad_u32 ''record_count'' value)
     else Inl (BadText (''unknown field: '' @ text_of key)))"

definition decode_text_footer :: "(bytes \<Rightarrow> u32) \<Rightarrow> bytes \<Rightarrow> record_error + segment_footer" where
  "decode_text_footer crc line =
     bind_sum (checked_body crc line) (\<lambda>body.
       let fs = split_on 32 body in
       if hd fs \<noteq> footer_text_prefix then Inl (BadText (''bad prefix: '' @ text_of (hd fs)))
       else bind_sum
         (fold_fields (\<lambda>fd. BadText (''malformed field: '' @ text_of fd)) set_footer_field
            (tl fs) (None, None, None))
         (\<lambda>(mn, mx, rc).
            bind_sum (require ''missing min_slot'' mn) (\<lambda>mn.
            bind_sum (require ''missing max_slot'' mx) (\<lambda>mx.
            bind_sum (require ''missing record_count'' rc) (\<lambda>rc.
              Inr \<lparr> sf_min_slot = mn, sf_max_slot = mx, sf_record_count = rc \<rparr>)))))"

fun index_of :: "u8 \<Rightarrow> bytes \<Rightarrow> nat option" where
  "index_of c [] = None"
| "index_of c (x # xs) = (if x = c then Some 0 else map_option Suc (index_of c xs))"

definition strip_zeros :: "bytes \<Rightarrow> bytes" where
  "strip_zeros s = rev (dropWhile (\<lambda>b. b = 0) (rev s))"

definition try_decode_text_footer_from_tail ::
    "(bytes \<Rightarrow> u32) \<Rightarrow> bytes \<Rightarrow> segment_footer option" where
  "try_decode_text_footer_from_tail crc tail =
     (let data = strip_zeros tail in
      case rsplit_once footer_text_prefix data of
        None \<Rightarrow> None
      | Some (before, after) \<Rightarrow>
          let from_pos = footer_text_prefix @ after in
          case index_of 10 from_pos of
            None \<Rightarrow> None
          | Some n \<Rightarrow>
              let line = take n from_pos in
              if utf8_error line \<noteq> None then None
              else (case decode_text_footer crc line of Inl e \<Rightarrow> None | Inr f \<Rightarrow> Some f))"

section \<open>Writing a segment\<close>

record wal_segment =
  sg_file :: bytes
  sg_segment_id :: u64
  sg_group_id :: u64
  sg_write_offset :: nat
  sg_min_slot :: slot_index
  sg_max_slot :: slot_index
  sg_record_count :: u32
  sg_max_term :: u64
  sg_vote_term :: "u64 option"
  sg_sealed :: bool
  sg_format :: wal_record_format

text \<open>A positional write: the file grows with zeros up to the offset.\<close>

definition write_at :: "bytes \<Rightarrow> nat \<Rightarrow> bytes \<Rightarrow> bytes" where
  "write_at data off f =
     take off (f @ replicate (off - length f) 0) @ data @ drop (off + length data) f"

definition create_with_format :: "u64 \<Rightarrow> u64 \<Rightarrow> wal_record_format \<Rightarrow> wal_segment" where
  "create_with_format segment_id group_id fmt =
     (let header = (case fmt of FmtTextLine \<Rightarrow> text_seg_header segment_id group_id
                              | _ \<Rightarrow> encode_seg_header segment_id group_id)
      in \<lparr> sg_file = write_at header 0 [], sg_segment_id = segment_id, sg_group_id = group_id,
           sg_write_offset = length header, sg_min_slot = u64_max, sg_max_slot = 0,
           sg_record_count = 0, sg_max_term = 0, sg_vote_term = None, sg_sealed = False,
           sg_format = fmt \<rparr>)"

definition note_record :: "wal_record \<Rightarrow> wal_segment \<Rightarrow> wal_segment" where
  "note_record r seg0 =
     (let seg1 = (if wr_slot r \<noteq> 0
                  then seg0\<lparr>sg_min_slot := (if wr_slot r < sg_min_slot seg0 then wr_slot r else sg_min_slot seg0),
                            sg_max_slot := (if sg_max_slot seg0 < wr_slot r then wr_slot r else sg_max_slot seg0)\<rparr>
                  else seg0);
          seg2 = seg1\<lparr>sg_record_count := sg_record_count seg1 + 1,
                      sg_max_term := max (sg_max_term seg1) (wr_term r)\<rparr>
      in if wr_type r = RecVoteGranted
         then seg2\<lparr>sg_vote_term := Some (case sg_vote_term seg2 of None \<Rightarrow> wr_term r
                                                                | Some t \<Rightarrow> max t (wr_term r))\<rparr>
         else seg2)"

definition seg_append ::
    "(bytes \<Rightarrow> u32) \<Rightarrow> (u32 \<Rightarrow> bytes \<Rightarrow> u32) \<Rightarrow> io_error option \<Rightarrow> wal_record \<Rightarrow> wal_segment \<Rightarrow>
     (seg_error + nat) \<times> wal_segment" where
  "seg_append crc upd io r seg =
     (if sg_sealed seg then (Inl (SegPanic ''append to sealed segment''), seg)
      else case (case sg_format seg of FmtTextLine \<Rightarrow> encode_text_line crc r | _ \<Rightarrow> encode crc upd r) of
          None \<Rightarrow> (Inl (SegPanic ''frame_len exceeds u32''), seg)
        | Some encoded \<Rightarrow>
            (case io of
               Some e \<Rightarrow> (Inl (SegIo e), seg)
             | None \<Rightarrow>
                 let offset = sg_write_offset seg;
                     seg1 = seg\<lparr>sg_file := write_at encoded offset (sg_file seg),
                                sg_write_offset := offset + length encoded\<rparr>
                 in (Inr offset, note_record r seg1)))"

definition seal ::
    "(bytes \<Rightarrow> u32) \<Rightarrow> io_error option \<Rightarrow> io_error option \<Rightarrow> wal_segment \<Rightarrow> (io_error + unit) \<times> wal_segment" where
  "seal crc io_write io_sync seg =
     (if sg_sealed seg then (Inr (), seg)
      else let footer = (case sg_format seg of
                FmtTextLine \<Rightarrow> encode_text_footer crc (sg_min_slot seg) (sg_max_slot seg) (sg_record_count seg)
              | _ \<Rightarrow> encode_footer crc (sg_min_slot seg) (sg_max_slot seg) (sg_record_count seg))
           in case io_write of
                Some e \<Rightarrow> (Inl e, seg)
              | None \<Rightarrow>
                  let seg1 = seg\<lparr>sg_file := write_at footer (sg_write_offset seg) (sg_file seg),
                                 sg_write_offset := sg_write_offset seg + length footer\<rparr>
                  in case io_sync of
                       Some e \<Rightarrow> (Inl e, seg1)
                     | None \<Rightarrow> (Inr (), seg1\<lparr>sg_sealed := True\<rparr>))"

definition is_full :: "nat \<Rightarrow> wal_segment \<Rightarrow> bool" where
  "is_full threshold seg \<longleftrightarrow> threshold \<le> sg_write_offset seg"

section \<open>Reading a segment\<close>

definition read_ahead :: nat where "read_ahead = 1024 * 1024"

record segment_read_buffer =
  rb_bytes :: bytes
  rb_offset :: nat

definition buffer_default :: segment_read_buffer where
  "buffer_default = \<lparr> rb_bytes = [], rb_offset = 0 \<rparr>"

definition buffer_read ::
    "bytes \<Rightarrow> nat \<Rightarrow> nat \<Rightarrow> segment_read_buffer \<Rightarrow> (io_error + bytes) \<times> segment_read_buffer" where
  "buffer_read file offset len rb =
     (if rb_offset rb \<le> offset \<and> offset - rb_offset rb \<le> length (rb_bytes rb) \<and>
         len \<le> length (rb_bytes rb) - (offset - rb_offset rb)
      then (Inr (slice (offset - rb_offset rb) (offset - rb_offset rb + len) (rb_bytes rb)), rb)
      else if length file < offset then (Inl (IoError UnexpectedEof ''WAL read starts past EOF''), rb)
      else if length file - offset < len then (Inl (IoError UnexpectedEof ''WAL read extends past EOF''), rb)
      else let bs = slice offset (offset + max len (min (length file - offset) read_ahead)) file
           in (Inr (take len bs), \<lparr> rb_bytes = bs, rb_offset = offset \<rparr>))"

record segment_reader =
  rd_file :: bytes
  rd_header :: segment_header
  rd_offset :: nat
  rd_buffer :: segment_read_buffer

definition reader_open :: "string \<Rightarrow> bytes \<Rightarrow> io_error + segment_reader" where
  "reader_open path file =
     (if length file < seg_header_len then Inl (IoError InvalidData (''segment too small: '' @ path))
      else if take (length seg_text_prefix) file = seg_text_prefix then
        (case index_of 10 file of
           None \<Rightarrow> Inl (IoError InvalidData ''text segment header missing newline'')
         | Some n \<Rightarrow>
             (case utf8_error (take n file) of
                Some e \<Rightarrow> Inl (IoError InvalidData (''invalid UTF-8 in segment header: '' @ e))
              | None \<Rightarrow>
                  bind_sum (decode_text_seg_header (take n file)) (\<lambda>header.
                    Inr \<lparr> rd_file = file, rd_header = header, rd_offset = n + 1,
                          rd_buffer = buffer_default \<rparr>)))
      else bind_sum (decode_seg_header (take seg_header_len file)) (\<lambda>header.
             Inr \<lparr> rd_file = file, rd_header = header, rd_offset = seg_header_len,
                   rd_buffer = buffer_default \<rparr>))"

text \<open>Reads at the cursor; a failed read is reported as a truncated record.\<close>

definition read_here ::
    "nat \<Rightarrow> segment_reader \<Rightarrow> (record_error \<times> nat + bytes) \<times> segment_reader" where
  "read_here len rd =
     (let (res, rb) = buffer_read (rd_file rd) (rd_offset rd) len (rd_buffer rd)
      in (case res of Inl e \<Rightarrow> Inl (Truncated, rd_offset rd) | Inr bs \<Rightarrow> Inr bs, rd\<lparr>rd_buffer := rb\<rparr>))"

definition next_has_prefix ::
    "bytes \<Rightarrow> segment_reader \<Rightarrow> (record_error \<times> nat + bool) \<times> segment_reader" where
  "next_has_prefix pre rd =
     (if length (rd_file rd) - rd_offset rd < length pre then (Inr False, rd)
      else let (res, rd1) = read_here (length pre) rd
           in (map_sum id (\<lambda>bs. bs = pre) res, rd1))"

definition next_record_is_text :: "segment_reader \<Rightarrow> (record_error \<times> nat + bool) \<times> segment_reader" where
  "next_record_is_text = next_has_prefix text_prefix"

definition next_is_text_footer :: "segment_reader \<Rightarrow> (record_error \<times> nat + bool) \<times> segment_reader" where
  "next_is_text_footer = next_has_prefix footer_text_prefix"

type_synonym next_result = "record_error \<times> nat + (wal_record \<times> nat) option"

definition next_text_record ::
    "(bytes \<Rightarrow> u32) \<Rightarrow> nat \<Rightarrow> segment_reader \<Rightarrow> next_result \<times> segment_reader" where
  "next_text_record crc record_offset rd =
     (let buf = drop (rd_offset rd) (rd_file rd) in
      case index_of 10 buf of
        None \<Rightarrow> (Inl (Truncated, rd_offset rd), rd)
      | Some n \<Rightarrow>
          let line = take (n + 1) buf in
          case utf8_error line of
            Some e \<Rightarrow> (Inl (BadText (''invalid UTF-8: '' @ e), rd_offset rd), rd)
          | None \<Rightarrow>
              (case decode_text_line crc line of
                 Inl e \<Rightarrow> (Inl (e, rd_offset rd), rd)
               | Inr r \<Rightarrow> (Inr (Some (r, record_offset)), rd\<lparr>rd_offset := rd_offset rd + (n + 1)\<rparr>)))"

text \<open>The binary part of \<open>next_record\<close>, after the checks for text.\<close>

definition next_binary_record ::
    "(bytes \<Rightarrow> u32) \<Rightarrow> segment_reader \<Rightarrow> next_result \<times> segment_reader" where
  "next_binary_record crc rd0 =
     (case read_here 4 rd0 of
        (Inl e, rd) \<Rightarrow> (Inl e, rd)
      | (Inr hdr, rd) \<Rightarrow>
          let marker = u32_of_le hdr; file_len = length (rd_file rd); remaining = file_len - rd_offset rd in
          if marker = footer_magic then (Inr None, rd)
          else if marker = 0 then (Inr None, rd)
          else if remaining < min_record_size then (Inl (Truncated, rd_offset rd), rd)
          else let total = 4 + unat marker in
            if file_len < rd_offset rd + total then (Inl (Truncated, rd_offset rd), rd)
            else (case read_here total rd of
                (Inl e, rd1) \<Rightarrow> (Inl e, rd1)
              | (Inr buf, rd1) \<Rightarrow>
                  (case decode crc buf of
                     Inl e \<Rightarrow> (Inl (e, rd_offset rd1), rd1)
                   | Inr (r, consumed) \<Rightarrow>
                       (Inr (Some (r, rd_offset rd1)), rd1\<lparr>rd_offset := rd_offset rd1 + consumed\<rparr>))))"

definition next_record :: "(bytes \<Rightarrow> u32) \<Rightarrow> segment_reader \<Rightarrow> next_result \<times> segment_reader" where
  "next_record crc rd =
     (if length (rd_file rd) \<le> rd_offset rd then (Inr None, rd)
      else if length (rd_file rd) - rd_offset rd < 4 then (Inr None, rd)
      else case next_record_is_text rd of
          (Inl e, rd1) \<Rightarrow> (Inl e, rd1)
        | (Inr True, rd1) \<Rightarrow> next_text_record crc (rd_offset rd) rd1
        | (Inr False, rd1) \<Rightarrow>
            (case next_is_text_footer rd1 of
               (Inl e, rd2) \<Rightarrow> (Inl e, rd2)
             | (Inr True, rd2) \<Rightarrow> (Inr None, rd2)
             | (Inr False, rd2) \<Rightarrow> next_binary_record crc rd2))"

fun try_footer_ends :: "(bytes \<Rightarrow> u32) \<Rightarrow> bytes \<Rightarrow> nat list \<Rightarrow> segment_footer option" where
  "try_footer_ends crc tail [] = None"
| "try_footer_ends crc tail (e # es) =
     (if e < footer_len then try_footer_ends crc tail es
      else case decode_footer crc (slice (e - footer_len) e tail) of
          Some f \<Rightarrow> Some f
        | None \<Rightarrow> try_footer_ends crc tail es)"

definition read_footer :: "(bytes \<Rightarrow> u32) \<Rightarrow> segment_reader \<Rightarrow> segment_footer option" where
  "read_footer crc rd =
     (let file = rd_file rd; file_len = length file in
      if file_len < seg_header_len + footer_len then None
      else case decode_footer crc (drop (file_len - footer_len) file) of
          Some f \<Rightarrow> Some f
        | None \<Rightarrow>
            let tail_start = max (file_len - footer_tail_scan_bytes) seg_header_len;
                tail = drop tail_start file
            in case try_decode_text_footer_from_tail crc tail of
                 Some f \<Rightarrow> Some f
               | None \<Rightarrow>
                   let first_end = length (strip_zeros tail) in
                   if first_end = 0 then None
                   else try_footer_ends crc tail [first_end..<Suc (min (first_end + 4) (length tail))])"

definition segment_filename :: "u64 \<Rightarrow> bytes" where
  "segment_filename segment_id =
     (let d = dec_str (unat segment_id)
      in asc ''seg-'' @ replicate (7 - length d) 48 @ d @ asc ''.ck'')"

definition parse_segment_filename :: "bytes \<Rightarrow> u64 option" where
  "parse_segment_filename name =
     (if \<not> prefix (asc ''seg-'') name then None
      else let rest = drop 4 name in
        if \<not> suffix (asc ''.ck'') rest then None
        else case parse_uint 10 18446744073709551615 (take (length rest - 3) rest) of
            Inl e \<Rightarrow> None
          | Inr n \<Rightarrow> Some (of_nat n))"

section \<open>The read-ahead buffer is transparent\<close>

definition buffer_ok :: "bytes \<Rightarrow> segment_read_buffer \<Rightarrow> bool" where
  "buffer_ok file rb \<longleftrightarrow> rb_bytes rb = slice (rb_offset rb) (rb_offset rb + length (rb_bytes rb)) file"

lemma buffer_ok_default [simp]: "buffer_ok file buffer_default"
  by (simp add: buffer_ok_def buffer_default_def slice_def)

lemma slice_slice: "b \<le> d \<Longrightarrow> slice a b (slice c (c + d) xs) = slice (c + a) (c + b) xs"
  by (simp add: slice_def drop_take take_take add.commute min_def)

lemma buffer_read_spec:
  assumes ok: "buffer_ok file rb" and pos: "0 < len"
  shows "fst (buffer_read file off len rb) =
      (if off + len \<le> length file then Inr (slice off (off + len) file)
       else if length file < off then Inl (IoError UnexpectedEof ''WAL read starts past EOF'')
       else Inl (IoError UnexpectedEof ''WAL read extends past EOF''))"
    and "buffer_ok file (snd (buffer_read file off len rb))"
proof -
  let ?L = "length (rb_bytes rb)" and ?o = "rb_offset rb"
  have L: "?L = min ?L (length file - ?o)"
    using ok by (metis buffer_ok_def length_slice add_diff_cancel_left')
  have hit: "slice (off - ?o) (off - ?o + len) (rb_bytes rb) = slice off (off + len) file"
    if "?o \<le> off" "len \<le> ?L - (off - ?o)" "off - ?o \<le> ?L"
  proof -
    have "slice (off - ?o) (off - ?o + len) (slice ?o (?o + ?L) file) =
        slice (?o + (off - ?o)) (?o + (off - ?o + len)) file"
      using that by (intro slice_slice) simp
    then show ?thesis using ok that by (simp add: buffer_ok_def)
  qed
  show "fst (buffer_read file off len rb) =
      (if off + len \<le> length file then Inr (slice off (off + len) file)
       else if length file < off then Inl (IoError UnexpectedEof ''WAL read starts past EOF'')
       else Inl (IoError UnexpectedEof ''WAL read extends past EOF''))"
  proof (cases "?o \<le> off \<and> off - ?o \<le> ?L \<and> len \<le> ?L - (off - ?o)")
    case True
    then have "off + len \<le> length file" using L pos by linarith
    moreover have "fst (buffer_read file off len rb) =
        Inr (slice (off - ?o) (off - ?o + len) (rb_bytes rb))"
      unfolding buffer_read_def using True by (simp only: if_True fst_conv simp_thms)
    ultimately show ?thesis using hit True by (simp only: if_True)
  next
    case False
    have "take len (slice off (off + max len k) file) = slice off (off + len) file" for k
      by (simp add: slice_def min_def)
    moreover have "fst (buffer_read file off len rb) =
        (if length file < off then Inl (IoError UnexpectedEof ''WAL read starts past EOF'')
         else if length file - off < len then Inl (IoError UnexpectedEof ''WAL read extends past EOF'')
         else Inr (take len (slice off (off + max len (min (length file - off) read_ahead)) file)))"
      unfolding buffer_read_def Let_def using False by (simp only: if_False if_distrib [of fst] fst_conv)
    ultimately show ?thesis by auto
  qed
  show "buffer_ok file (snd (buffer_read file off len rb))"
    using ok by (simp add: buffer_read_def Let_def buffer_ok_def slice_def min_def)
qed

definition reader_ok :: "segment_reader \<Rightarrow> bool" where
  "reader_ok rd \<longleftrightarrow> buffer_ok (rd_file rd) (rd_buffer rd)"

text \<open>Two readers of the same file at the same place, whatever their buffers hold.\<close>

definition same_place :: "segment_reader \<Rightarrow> segment_reader \<Rightarrow> bool" where
  "same_place rd rd' \<longleftrightarrow> rd_file rd' = rd_file rd \<and> rd_offset rd' = rd_offset rd \<and> reader_ok rd'"

lemma read_here_ok:
  assumes "reader_ok rd" and "0 < len" and "read_here len rd = (res, rd')"
  shows "res = (if rd_offset rd + len \<le> length (rd_file rd) then Inr (take len (drop (rd_offset rd) (rd_file rd)))
                else Inl (Truncated, rd_offset rd))" and "same_place rd rd'"
  using assms buffer_read_spec [of "rd_file rd" "rd_buffer rd" len "rd_offset rd"]
  by (auto simp: reader_ok_def read_here_def same_place_def slice_def split: prod.splits if_splits)

lemma next_has_prefix_ok:
  assumes "reader_ok rd" and "pre \<noteq> []" and "rd_offset rd \<le> length (rd_file rd)"
    and "next_has_prefix pre rd = (res, rd')"
  shows "res = Inr (prefix pre (drop (rd_offset rd) (rd_file rd)))" and "same_place rd rd'"
proof -
  let ?rest = "drop (rd_offset rd) (rd_file rd)"
  have pre: "prefix pre ?rest \<longleftrightarrow> length pre \<le> length ?rest \<and> take (length pre) ?rest = pre"
    by (metis append_eq_conv_conj length_take min.absorb_iff2 prefix_def prefix_length_le take_is_prefix)
  obtain res1 rd1 where rh: "read_here (length pre) rd = (res1, rd1)" by fastforce
  note facts = read_here_ok [OF assms(1) _ rh]
  show "res = Inr (prefix pre ?rest)" and "same_place rd rd'"
    using assms facts pre rh
    by (auto simp: next_has_prefix_def same_place_def split: if_splits)
qed

text \<open>The reader without its buffer: what the next record of a file is at an offset.\<close>

definition text_record_at :: "(bytes \<Rightarrow> u32) \<Rightarrow> bytes \<Rightarrow> nat \<Rightarrow> next_result \<times> nat" where
  "text_record_at crc file off =
     (let buf = drop off file in
      case index_of 10 buf of
        None \<Rightarrow> (Inl (Truncated, off), off)
      | Some n \<Rightarrow>
          (case utf8_error (take (n + 1) buf) of
             Some e \<Rightarrow> (Inl (BadText (''invalid UTF-8: '' @ e), off), off)
           | None \<Rightarrow>
               (case decode_text_line crc (take (n + 1) buf) of
                  Inl e \<Rightarrow> (Inl (e, off), off)
                | Inr r \<Rightarrow> (Inr (Some (r, off)), off + (n + 1)))))"

definition binary_record_at :: "(bytes \<Rightarrow> u32) \<Rightarrow> bytes \<Rightarrow> nat \<Rightarrow> next_result \<times> nat" where
  "binary_record_at crc file off =
     (let buf = drop off file; marker = u32_of_le (take 4 buf) in
      if marker = footer_magic \<or> marker = 0 then (Inr None, off)
      else if length buf < min_record_size \<or> length buf < 4 + unat marker then (Inl (Truncated, off), off)
      else case decode crc (take (4 + unat marker) buf) of
          Inl e \<Rightarrow> (Inl (e, off), off)
        | Inr (r, consumed) \<Rightarrow> (Inr (Some (r, off)), off + consumed))"

definition record_at :: "(bytes \<Rightarrow> u32) \<Rightarrow> bytes \<Rightarrow> nat \<Rightarrow> next_result \<times> nat" where
  "record_at crc file off =
     (if length file < off + 4 then (Inr None, off)
      else if prefix text_prefix (drop off file) then text_record_at crc file off
      else if prefix footer_text_prefix (drop off file) then (Inr None, off)
      else binary_record_at crc file off)"

lemma prefixes_not_Nil [simp]: "text_prefix \<noteq> []" "footer_text_prefix \<noteq> []"
  by (simp_all add: text_prefix_def footer_text_prefix_def asc_def)

lemma next_text_record_exact:
  assumes "reader_ok rd" and "next_text_record crc (rd_offset rd) rd = (res, rd')"
  shows "(res, rd_offset rd') = text_record_at crc (rd_file rd) (rd_offset rd) \<and>
    rd_file rd' = rd_file rd \<and> reader_ok rd'"
  using assms
  by (auto simp: next_text_record_def text_record_at_def Let_def reader_ok_def
      split: option.splits sum.splits)

lemma next_binary_record_exact:
  assumes ok: "reader_ok rd" and len: "rd_offset rd + 4 \<le> length (rd_file rd)"
    and nb: "next_binary_record crc rd = (res, rd')"
  shows "(res, rd_offset rd') = binary_record_at crc (rd_file rd) (rd_offset rd) \<and>
    rd_file rd' = rd_file rd \<and> reader_ok rd'"
proof -
  let ?buf = "drop (rd_offset rd) (rd_file rd)" and ?off = "rd_offset rd"
  let ?m = "u32_of_le (take 4 ?buf)"
  obtain r1 rd1 where r1: "read_here 4 rd = (r1, rd1)" by fastforce
  have hdr: "r1 = Inr (take 4 ?buf)" and same1: "same_place rd rd1"
    using read_here_ok [OF ok _ r1] len by simp_all
  obtain r2 rd2 where r2: "read_here (4 + unat ?m) rd1 = (r2, rd2)" by fastforce
  have ok1: "reader_ok rd1" and same: "rd_file rd1 = rd_file rd" "rd_offset rd1 = ?off"
    using same1 by (simp_all add: same_place_def)
  have body: "4 + unat ?m \<le> length ?buf \<Longrightarrow> r2 = Inr (take (4 + unat ?m) ?buf)"
    and same2: "same_place rd1 rd2"
    using read_here_ok [OF ok1 _ r2] same len by simp_all
  have ok2: "reader_ok rd2" "rd_file rd2 = rd_file rd" "rd_offset rd2 = ?off"
    using same2 same by (simp_all add: same_place_def)
  have nb': "(res, rd') =
      (if ?m = footer_magic \<or> ?m = 0 then (Inr None, rd1)
       else if length ?buf < min_record_size \<or> length ?buf < 4 + unat ?m then (Inl (Truncated, ?off), rd1)
       else case decode crc (take (4 + unat ?m) ?buf) of
           Inl e \<Rightarrow> (Inl (e, ?off), rd2)
         | Inr (r, consumed) \<Rightarrow> (Inr (Some (r, ?off)), rd2\<lparr>rd_offset := ?off + consumed\<rparr>))"
    using nb body len by (auto simp: next_binary_record_def r1 hdr Let_def r2 same ok2 split: if_splits sum.splits)
  then show ?thesis
    using ok1 ok2 same
    by (auto simp: binary_record_at_def Let_def reader_ok_def split: if_splits sum.splits)
qed

lemma next_record_exact:
  assumes ok: "reader_ok rd" and nr: "next_record crc rd = (res, rd')"
  shows "(res, rd_offset rd') = record_at crc (rd_file rd) (rd_offset rd) \<and>
    rd_file rd' = rd_file rd \<and> reader_ok rd'"
proof (cases "rd_offset rd + 4 \<le> length (rd_file rd)")
  case False
  then show ?thesis using assms by (auto simp: next_record_def record_at_def split: if_splits)
next
  case True
  then have le: "rd_offset rd \<le> length (rd_file rd)" by simp
  obtain t1 rd1 where t1: "next_has_prefix text_prefix rd = (t1, rd1)" by fastforce
  note f1 = next_has_prefix_ok [OF ok prefixes_not_Nil(1) le t1]
  then have ok1: "reader_ok rd1" and same1: "rd_file rd1 = rd_file rd" "rd_offset rd1 = rd_offset rd"
    by (simp_all add: same_place_def)
  obtain t2 rd2 where t2: "next_has_prefix footer_text_prefix rd1 = (t2, rd2)" by fastforce
  have le1: "rd_offset rd1 \<le> length (rd_file rd1)" using le same1 by simp
  note f2 = next_has_prefix_ok [OF ok1 prefixes_not_Nil(2) le1 t2]
  then have ok2: "reader_ok rd2" and same2: "rd_file rd2 = rd_file rd" "rd_offset rd2 = rd_offset rd"
    using same1 by (simp_all add: same_place_def)
  have room: "\<not> length (rd_file rd) \<le> rd_offset rd" "\<not> length (rd_file rd) - rd_offset rd < 4"
    using True by auto
  have nr': "(res, rd') =
      (if prefix text_prefix (drop (rd_offset rd) (rd_file rd)) then next_text_record crc (rd_offset rd) rd1
       else if prefix footer_text_prefix (drop (rd_offset rd) (rd_file rd)) then (Inr None, rd2)
       else next_binary_record crc rd2)"
    using nr room f1(1) f2(1) same1
    by (simp add: next_record_def next_record_is_text_def next_is_text_footer_def t1 t2
        split: bool.splits)
  show ?thesis
    using nr' next_text_record_exact [OF ok1, of crc res rd'] True
      next_binary_record_exact [OF ok2, of crc res rd'] ok2 same1 same2
    by (auto simp: record_at_def split: if_splits)
qed

section \<open>Scanning a segment\<close>

lemma read_here_frame: "read_here len rd = (res, rd') \<Longrightarrow> rd_file rd' = rd_file rd \<and> rd_offset rd' = rd_offset rd"
  by (auto simp: read_here_def split: prod.splits)

lemma has_prefix_frame:
  "next_has_prefix pre rd = (res, rd') \<Longrightarrow> rd_file rd' = rd_file rd \<and> rd_offset rd' = rd_offset rd"
  by (auto simp: next_has_prefix_def split: if_splits prod.splits dest: read_here_frame)

lemma decode_consumed: "decode crc data = Inr (r, n) \<Longrightarrow> 0 < n"
  by (auto simp: decode_def Let_def split: if_splits sum.splits)

lemma next_text_progress:
  "next_text_record crc off rd = (Inr (Some x), rd') \<Longrightarrow> rd_file rd' = rd_file rd \<and> rd_offset rd < rd_offset rd'"
  by (auto simp: next_text_record_def Let_def split: option.splits sum.splits)

lemma next_binary_progress:
  assumes "next_binary_record crc rd = (Inr (Some x), rd')"
  shows "rd_file rd' = rd_file rd \<and> rd_offset rd < rd_offset rd'"
proof -
  obtain r1 rd1 where r1: "read_here 4 rd = (r1, rd1)" by fastforce
  then obtain hdr where hdr: "r1 = Inr hdr" using assms by (cases r1) (auto simp: next_binary_record_def)
  obtain r2 rd2 where r2: "read_here (4 + unat (u32_of_le hdr)) rd1 = (r2, rd2)" by fastforce
  have frame: "rd_file rd2 = rd_file rd" "rd_offset rd2 = rd_offset rd"
    using read_here_frame [OF r1] read_here_frame [OF r2] by simp_all
  show ?thesis using assms frame
    by (auto simp: next_binary_record_def r1 hdr r2 Let_def split: if_splits sum.splits
        dest: decode_consumed)
qed

lemma next_record_progress:
  assumes "next_record crc rd = (Inr (Some x), rd')"
  shows "rd_file rd' = rd_file rd \<and> rd_offset rd < rd_offset rd' \<and> rd_offset rd < length (rd_file rd)"
proof -
  have room: "\<not> length (rd_file rd) \<le> rd_offset rd" "\<not> length (rd_file rd) - rd_offset rd < 4"
    using assms by (auto simp: next_record_def split: if_splits)
  obtain t1 rd1 where t1: "next_has_prefix text_prefix rd = (t1, rd1)" by fastforce
  obtain t2 rd2 where t2: "next_has_prefix footer_text_prefix rd1 = (t2, rd2)" by fastforce
  have frame: "rd_file rd1 = rd_file rd" "rd_offset rd1 = rd_offset rd"
      "rd_file rd2 = rd_file rd" "rd_offset rd2 = rd_offset rd"
    using has_prefix_frame [OF t1] has_prefix_frame [OF t2] by simp_all
  have "next_text_record crc (rd_offset rd) rd1 = (Inr (Some x), rd') \<or>
      next_binary_record crc rd2 = (Inr (Some x), rd')"
    using assms room
    by (auto simp: next_record_def next_record_is_text_def next_is_text_footer_def t1 t2
        split: sum.splits bool.splits)
  then show ?thesis
    using frame room next_text_progress [of crc _ rd1 x rd'] next_binary_progress [of crc rd2 x rd']
    by auto
qed

text \<open>The loop of replay over one segment: the records with their offsets, and the corruption
  that stopped it.\<close>

function scan_records ::
    "(bytes \<Rightarrow> u32) \<Rightarrow> segment_reader \<Rightarrow> (wal_record \<times> nat) list \<times> (record_error \<times> nat) option" where
  "scan_records crc rd =
     (case next_record crc rd of
        (Inl e, _) \<Rightarrow> ([], Some e)
      | (Inr None, _) \<Rightarrow> ([], None)
      | (Inr (Some x), rd') \<Rightarrow> (let (xs, e) = scan_records crc rd' in (x # xs, e)))"
  by pat_completeness auto
termination
proof (relation "measure (\<lambda>(crc, rd). length (rd_file rd) - rd_offset rd)")
  fix crc rd a rd' b x
  assume "(a, rd') = next_record crc rd" and "a = Inr b" and "b = Some x"
  then have "next_record crc rd = (Inr (Some x), rd')" by simp
  from next_record_progress [OF this]
  show "((crc, rd'), crc, rd) \<in> measure (\<lambda>(crc, rd). length (rd_file rd) - rd_offset rd)" by auto
qed simp

declare scan_records.simps [simp del]

lemma scan_step:
  assumes "reader_ok rd" and "record_at crc (rd_file rd) (rd_offset rd) = (Inr (Some x), off)"
  obtains rd' where "scan_records crc rd = (let (xs, e) = scan_records crc rd' in (x # xs, e))"
    and "reader_ok rd'" and "rd_file rd' = rd_file rd" and "rd_offset rd' = off"
proof -
  obtain res rd' where nr: "next_record crc rd = (res, rd')" by fastforce
  from next_record_exact [OF assms(1) nr] assms(2)
  have "res = Inr (Some x)" "rd_offset rd' = off" "rd_file rd' = rd_file rd" "reader_ok rd'" by auto
  then show thesis using that nr by (simp add: scan_records.simps [of crc rd])
qed

lemma scan_stop:
  assumes "reader_ok rd" and "record_at crc (rd_file rd) (rd_offset rd) = (Inr None, off)"
  shows "scan_records crc rd = ([], None)"
proof -
  obtain res rd' where nr: "next_record crc rd = (res, rd')" by fastforce
  from next_record_exact [OF assms(1) nr] assms(2) have "res = Inr None" by auto
  then show ?thesis using nr by (simp add: scan_records.simps [of crc rd])
qed

lemma scan_corrupt:
  assumes "reader_ok rd" and "record_at crc (rd_file rd) (rd_offset rd) = (Inl e, off)"
  shows "scan_records crc rd = ([], Some e)"
proof -
  obtain res rd' where nr: "next_record crc rd = (res, rd')" by fastforce
  from next_record_exact [OF assms(1) nr] assms(2) have "res = Inl e" by auto
  then show ?thesis using nr by (simp add: scan_records.simps [of crc rd])
qed

section \<open>Binary records in a file\<close>

definition reader_fits :: "wal_record \<Rightarrow> bool" where
  "reader_fits r \<longleftrightarrow> record_fits r \<and> length (wr_payload r) + 55 \<noteq> unat footer_magic"

definition record_len :: "wal_record \<Rightarrow> nat" where
  "record_len r = length (wr_payload r) + 59"

lemma prefix_nth: "prefix p l \<Longrightarrow> i < length p \<Longrightarrow> l ! i = p ! i"
  by (auto simp: prefix_def nth_append)

lemma text_prefix_bytes: "text_prefix = 67 # 82 # 79 # 87 # 68 # drop 5 text_prefix" "length text_prefix = 15"
  by (simp_all add: text_prefix_def asc_def of_char_def)

lemma footer_text_prefix_bytes:
  "footer_text_prefix = 67 # 82 # 79 # 87 # 68 # drop 5 footer_text_prefix" "length footer_text_prefix = 17"
  by (simp_all add: footer_text_prefix_def asc_def of_char_def)

lemma text_prefixes_nth:
  "prefix text_prefix l \<Longrightarrow> 15 \<le> length l \<and> l ! 0 = 67 \<and> l ! 4 = 68"
  "prefix footer_text_prefix l \<Longrightarrow> 17 \<le> length l \<and> l ! 0 = 67 \<and> l ! 4 = 68"
proof -
  have "text_prefix ! 0 = 67" "text_prefix ! 4 = 68" by (subst text_prefix_bytes, simp)+
  then show "prefix text_prefix l \<Longrightarrow> 15 \<le> length l \<and> l ! 0 = 67 \<and> l ! 4 = 68"
    using prefix_nth [of text_prefix l] prefix_length_le [of text_prefix l] text_prefix_bytes(2) by simp
  have "footer_text_prefix ! 0 = 67" "footer_text_prefix ! 4 = 68"
    by (subst footer_text_prefix_bytes, simp)+
  then show "prefix footer_text_prefix l \<Longrightarrow> 17 \<le> length l \<and> l ! 0 = 67 \<and> l ! 4 = 68"
    using prefix_nth [of footer_text_prefix l] prefix_length_le [of footer_text_prefix l]
      footer_text_prefix_bytes(2) by simp
qed

lemma footer_magic_bytes: "u32_le footer_magic = [84, 79, 79, 70]"
  by (simp add: footer_magic_def u32_le_def le_bytes_numeral)

lemma wal_magic_bytes: "u32_le wal_magic = [87, 79, 82, 67]"
  by (simp add: wal_magic_def u32_le_def le_bytes_numeral)

lemma encoded_record:
  assumes "crc_law crc upd" and "reader_fits r" and "encode crc upd r = Some bs"
  shows "length bs = record_len r" and "take 4 bs = u32_le (of_nat (55 + length (wr_payload r)))"
    and "bs ! 4 = 87"
proof -
  have fits: "record_fits r" using assms(2) by (simp add: reader_fits_def)
  show "length bs = record_len r"
    using encode_length [OF assms(1) fits assms(3)] by (simp add: record_len_def)
  have bs: "bs = u32_le (of_nat (55 + length (wr_payload r))) @
      u32_le wal_magic @ drop 4 (drop 4 bs)"
    using assms(3) encode_eq [OF assms(1) fits] by (auto simp: Let_def write_header_body_def)
  show "take 4 bs = u32_le (of_nat (55 + length (wr_payload r)))"
    by (subst bs) simp
  show "bs ! 4 = 87"
    by (subst bs) (simp add: nth_append wal_magic_bytes)
qed

lemma encoded_marker:
  assumes "reader_fits r"
  shows "unat (of_nat (55 + length (wr_payload r)) :: u32) = 55 + length (wr_payload r)"
    and "(of_nat (55 + length (wr_payload r)) :: u32) \<noteq> footer_magic"
    and "(of_nat (55 + length (wr_payload r)) :: u32) \<noteq> 0"
proof -
  show eq: "unat (of_nat (55 + length (wr_payload r)) :: u32) = 55 + length (wr_payload r)"
    using assms by (intro unat_of_nat32) (simp add: reader_fits_def record_fits_def)
  show "(of_nat (55 + length (wr_payload r)) :: u32) \<noteq> footer_magic"
    using eq assms unfolding reader_fits_def by (metis add.commute)
  show "(of_nat (55 + length (wr_payload r)) :: u32) \<noteq> 0"
    using eq by (metis add_is_0 unat_0 zero_neq_numeral)
qed

lemma encoded_not_text:
  assumes "crc_law crc upd" and "reader_fits r" and "encode crc upd r = Some bs"
    and "5 \<le> n \<or> rest = []"
  shows "\<not> prefix text_prefix (take n bs @ rest)" and "\<not> prefix footer_text_prefix (take n bs @ rest)"
  using text_prefixes_nth [of "take n bs @ rest"] encoded_record [OF assms(1-3)] assms(4)
  by (auto simp: nth_append record_len_def split: if_splits)

lemma record_at_encoded:
  assumes "crc_law crc upd" and "reader_fits r" and "encode crc upd r = Some bs"
  shows "record_at crc (pre @ bs @ rest) (length pre) =
    (Inr (Some (r, length pre)), length pre + record_len r)"
proof -
  note enc = encoded_record [OF assms]
  have total: "4 + (55 + length (wr_payload r)) = length bs" using enc(1) by (simp add: record_len_def)
  have "\<not> prefix text_prefix (bs @ rest)" "\<not> prefix footer_text_prefix (bs @ rest)"
    using encoded_not_text [OF assms, of "length bs" rest] enc(1) by (simp_all add: record_len_def)
  moreover have "u32_of_le (take 4 (bs @ rest)) = of_nat (55 + length (wr_payload r))"
    using enc by (simp add: record_len_def)
  moreover have "decode crc bs = Inr (r, record_len r)"
    using decode_encode_append [OF assms(1) _ assms(3), of "[]"] assms(2) enc(1)
    by (simp add: reader_fits_def)
  ultimately show ?thesis
    using total enc(1) encoded_marker [OF assms(2)]
    by (simp add: record_at_def binary_record_at_def Let_def size_defs record_len_def)
qed

lemma record_at_torn:
  assumes "crc_law crc upd" and "reader_fits r" and "encode crc upd r = Some bs" and "n < length bs"
  shows "record_at crc (pre @ take n bs) (length pre) =
    (if n < 4 then Inr None else Inl (Truncated, length pre), length pre)"
proof (cases "n < 4")
  case True
  then show ?thesis using assms(4) by (simp add: record_at_def)
next
  case False
  note enc = encoded_record [OF assms(1-3)]
  have "u32_of_le (take 4 (take n bs)) = of_nat (55 + length (wr_payload r))"
    using enc False by (simp add: min_def)
  then show ?thesis
    using False assms(4) enc(1) encoded_marker [OF assms(2)] encoded_not_text [OF assms(1-3), of n "[]"]
    by (simp add: record_at_def binary_record_at_def Let_def record_len_def)
qed

lemma record_at_stop:
  assumes "length l < 4 \<or> \<not> prefix text_prefix l \<and>
    (u32_of_le (take 4 l) = footer_magic \<or> u32_of_le (take 4 l) = 0)"
  shows "record_at crc (pre @ l) (length pre) = (Inr None, length pre)"
  using assms by (auto simp: record_at_def binary_record_at_def Let_def)

lemma length_encode_footer [simp]: "length (encode_footer crc mn mx rc) = 28"
  by (simp add: encode_footer_def footer_body_def Let_def)

lemma take_replicate_zero: "u32_of_le (take 4 (replicate n 0)) = 0"
proof -
  have "le_nat (replicate k 0) = 0" for k by (induction k) simp_all
  then show ?thesis by (simp add: u32_of_le_def)
qed

lemma record_at_zeros: "record_at crc (pre @ replicate n 0) (length pre) = (Inr None, length pre)"
  using text_prefixes_nth [of "replicate n 0"] take_replicate_zero [of n]
  by (intro record_at_stop) auto

lemma record_at_footer:
  "record_at crc (pre @ take n (encode_footer crc mn mx rc @ rest)) (length pre) = (Inr None, length pre)"
proof (rule record_at_stop, cases "n < 4")
  case False
  let ?l = "take n (encode_footer crc mn mx rc @ rest)"
  have l: "take 4 ?l = u32_le footer_magic"
    using False by (simp add: encode_footer_def footer_body_def Let_def)
  then have "?l ! 0 = 84" by (metis footer_magic_bytes nth_Cons_0 nth_take zero_less_numeral)
  then have "\<not> prefix text_prefix ?l" using text_prefixes_nth [of ?l] by auto
  moreover have "u32_of_le (take 4 ?l) = footer_magic" unfolding l by simp
  ultimately show "length ?l < 4 \<or> \<not> prefix text_prefix ?l \<and>
    (u32_of_le (take 4 ?l) = footer_magic \<or> u32_of_le (take 4 ?l) = 0)" by blast
qed simp

section \<open>A segment after a crash\<close>

text \<open>The records that lie completely within the first \<open>n\<close> bytes.\<close>

fun complete_records :: "nat \<Rightarrow> nat \<Rightarrow> wal_record list \<Rightarrow> wal_record list" where
  "complete_records off n [] = []"
| "complete_records off n (r # rs) =
     (if off + record_len r \<le> n then r # complete_records (off + record_len r) n rs else [])"

definition seg_appends ::
    "(bytes \<Rightarrow> u32) \<Rightarrow> (u32 \<Rightarrow> bytes \<Rightarrow> u32) \<Rightarrow> wal_record list \<Rightarrow> wal_segment \<Rightarrow> wal_segment" where
  "seg_appends crc upd rs seg = fold (\<lambda>r s. snd (seg_append crc upd None r s)) rs seg"

definition record_bytes :: "(bytes \<Rightarrow> u32) \<Rightarrow> (u32 \<Rightarrow> bytes \<Rightarrow> u32) \<Rightarrow> wal_record \<Rightarrow> bytes" where
  "record_bytes crc upd r = the (encode crc upd r)"

lemma record_bytes:
  assumes "crc_law crc upd" and "reader_fits r"
  shows "encode crc upd r = Some (record_bytes crc upd r)" and "length (record_bytes crc upd r) = record_len r"
proof -
  show enc: "encode crc upd r = Some (record_bytes crc upd r)"
    using encode_eq [OF assms(1), of r] assms(2) by (simp add: record_bytes_def reader_fits_def)
  show "length (record_bytes crc upd r) = record_len r" by (rule encoded_record [OF assms enc])
qed

lemma write_at_end: "write_at data (length f) f = f @ data"
  by (simp add: write_at_def)

lemma note_record_frame [simp]:
  "sg_file (note_record r seg) = sg_file seg" "sg_write_offset (note_record r seg) = sg_write_offset seg"
  "sg_sealed (note_record r seg) = sg_sealed seg" "sg_format (note_record r seg) = sg_format seg"
  by (simp_all add: note_record_def Let_def)

lemma seg_appends_file:
  assumes "crc_law crc upd" and "list_all reader_fits rs" and "\<not> sg_sealed seg"
    and "sg_format seg = FmtBinary" and "sg_write_offset seg = length (sg_file seg)"
  shows "sg_file (seg_appends crc upd rs seg) = sg_file seg @ concat (map (record_bytes crc upd) rs) \<and>
    sg_write_offset (seg_appends crc upd rs seg) = length (sg_file (seg_appends crc upd rs seg)) \<and>
    \<not> sg_sealed (seg_appends crc upd rs seg) \<and> sg_format (seg_appends crc upd rs seg) = FmtBinary"
  using assms
proof (induction rs arbitrary: seg)
  case (Cons r rs)
  let ?s = "snd (seg_append crc upd None r seg)"
  have "sg_file ?s = sg_file seg @ record_bytes crc upd r \<and> sg_write_offset ?s = length (sg_file ?s) \<and>
      \<not> sg_sealed ?s \<and> sg_format ?s = FmtBinary"
    using Cons.prems record_bytes [of crc upd r]
    by (simp add: seg_append_def Let_def write_at_end)
  then show ?case using Cons.IH [of ?s] Cons.prems by (simp add: seg_appends_def)
qed (simp add: seg_appends_def)

definition records_len :: "wal_record list \<Rightarrow> nat" where
  "records_len rs = sum_list (map record_len rs)"

text \<open>A tail that ends the record area wherever it is cut: a footer, or alignment padding.\<close>

definition stops_scan :: "(bytes \<Rightarrow> u32) \<Rightarrow> bytes \<Rightarrow> bool" where
  "stops_scan crc tail \<longleftrightarrow>
     (\<forall>n pre. record_at crc (pre @ take n tail) (length pre) = (Inr None, length pre))"

lemma stops_scan_zeros: "stops_scan crc (replicate k 0)"
  unfolding stops_scan_def by (simp add: record_at_zeros)

lemma stops_scan_footer: "stops_scan crc (encode_footer crc mn mx rc @ rest)"
  unfolding stops_scan_def by (simp only: record_at_footer simp_thms)

lemma scan_truncated:
  assumes "crc_law crc upd" and "list_all reader_fits rs" and "stops_scan crc tail" and "reader_ok rd"
    and "rd_file rd = take n (pre @ concat (map (record_bytes crc upd) rs) @ tail)"
    and "rd_offset rd = length pre" and "length pre \<le> n"
  shows "map fst (fst (scan_records crc rd)) = complete_records (length pre) n rs \<and>
    (complete_records (length pre) n rs = rs \<longrightarrow> snd (scan_records crc rd) = None) \<and>
    (let e = length pre + records_len (complete_records (length pre) n rs)
     in snd (scan_records crc rd) = None \<or> e + 4 \<le> n \<and> snd (scan_records crc rd) = Some (Truncated, e))"
  using assms(2-)
proof (induction rs arbitrary: pre rd)
  case Nil
  then have "rd_file rd = pre @ take (n - length pre) tail" by simp
  then have "record_at crc (rd_file rd) (rd_offset rd) = (Inr None, length pre)"
    using Nil by (simp add: stops_scan_def)
  then show ?case using scan_stop Nil by simp
next
  case (Cons r rs)
  let ?bs = "record_bytes crc upd r" and ?rest = "concat (map (record_bytes crc upd) rs) @ tail"
  have fits: "reader_fits r" using Cons.prems by simp
  note bs = record_bytes [OF assms(1) fits]
  show ?case
  proof (cases "length pre + record_len r \<le> n")
    case True
    then have content: "rd_file rd = pre @ ?bs @ take (n - length pre - record_len r) ?rest"
      using Cons.prems bs(2) by simp
    have "record_at crc (rd_file rd) (rd_offset rd) = (Inr (Some (r, length pre)), length pre + record_len r)"
      unfolding content Cons.prems(5) by (rule record_at_encoded [OF assms(1) fits bs(1)])
    then obtain rd' where scan: "scan_records crc rd = (let (xs, e) = scan_records crc rd' in ((r, length pre) # xs, e))"
      and rd': "reader_ok rd'" "rd_file rd' = rd_file rd" "rd_offset rd' = length pre + record_len r"
      by (rule scan_step [OF Cons.prems(3)])
    have "map fst (fst (scan_records crc rd')) = complete_records (length (pre @ ?bs)) n rs \<and>
      (complete_records (length (pre @ ?bs)) n rs = rs \<longrightarrow> snd (scan_records crc rd') = None) \<and>
      (let e = length (pre @ ?bs) + records_len (complete_records (length (pre @ ?bs)) n rs)
       in snd (scan_records crc rd') = None \<or> e + 4 \<le> n \<and> snd (scan_records crc rd') = Some (Truncated, e))"
      using Cons.prems rd' bs(2) True by (intro Cons.IH) simp_all
    then show ?thesis
      using True bs(2) by (simp add: scan case_prod_unfold Let_def records_len_def add.assoc)
  next
    case False
    have short: "n - length pre < length ?bs" using False bs(2) Cons.prems(6) by linarith
    have "rd_file rd = pre @ take (n - length pre) ?bs" using False Cons.prems bs(2) by simp
    then have at: "record_at crc (rd_file rd) (rd_offset rd) =
        (if n - length pre < 4 then Inr None else Inl (Truncated, length pre), length pre)"
      unfolding Cons.prems(5) using record_at_torn [OF assms(1) fits bs(1) short] by simp
    show ?thesis
    proof (cases "n - length pre < 4")
      case True
      then show ?thesis using at scan_stop [OF Cons.prems(3)] False by simp
    next
      case cut: False
      then show ?thesis using at scan_corrupt [OF Cons.prems(3)] False by (simp add: records_len_def)
    qed
  qed
qed

lemma complete_records_again:
  "complete_records off (off + records_len (complete_records off n rs)) rs = complete_records off n rs"
proof (induction off n rs rule: complete_records.induct)
  case (2 off n r rs)
  have "0 < record_len r" by (simp add: record_len_def)
  with 2 show ?case by (auto simp: records_len_def add.assoc [symmetric])
qed simp

lemma complete_records_all: "off + records_len rs \<le> n \<Longrightarrow> complete_records off n rs = rs"
  by (induction rs arbitrary: off) (auto simp: records_len_def)

lemma complete_records_prefix: "prefix (complete_records off n rs) rs"
  by (induction off n rs rule: complete_records.induct) auto

section \<open>Opening a segment\<close>

lemma seg_header_bytes:
  "length (encode_seg_header sid gid) = 22" "encode_seg_header sid gid ! 0 = 77"
proof -
  have "u32_le seg_magic = [77, 71, 69, 83]"
    by (simp add: seg_magic_def u32_le_def le_bytes_numeral)
  then show "length (encode_seg_header sid gid) = 22" "encode_seg_header sid gid ! 0 = 77"
    by (simp_all add: encode_seg_header_def)
qed

lemma decode_seg_header_encoded:
  "decode_seg_header (encode_seg_header sid gid) = Inr \<lparr> sh_segment_id = sid, sh_group_id = gid \<rparr>"
  by (simp add: decode_seg_header_def encode_seg_header_def rd_u32_def rd_u64_def slice_def)

lemma reader_open_binary:
  "reader_open path (encode_seg_header sid gid @ rest) =
     Inr \<lparr> rd_file = encode_seg_header sid gid @ rest,
           rd_header = \<lparr> sh_segment_id = sid, sh_group_id = gid \<rparr>, rd_offset = 22,
           rd_buffer = buffer_default \<rparr>"
proof -
  have "take (length seg_text_prefix) (encode_seg_header sid gid @ rest) ! 0 = 77"
    using seg_header_bytes [of sid gid]
    by (simp add: nth_append seg_text_prefix_def asc_def)
  moreover have "seg_text_prefix ! 0 = 67" by (simp add: seg_text_prefix_def asc_def of_char_def)
  ultimately have "take (length seg_text_prefix) (encode_seg_header sid gid @ rest) \<noteq> seg_text_prefix"
    by auto
  then show ?thesis
    using seg_header_bytes [of sid gid] decode_seg_header_encoded [of sid gid]
    by (simp add: reader_open_def seg_header_len_def bind_sum_def)
qed

lemma create_binary:
  "sg_file (create_with_format sid gid FmtBinary) = encode_seg_header sid gid"
  "sg_write_offset (create_with_format sid gid FmtBinary) = 22"
  "\<not> sg_sealed (create_with_format sid gid FmtBinary)"
  "sg_format (create_with_format sid gid FmtBinary) = FmtBinary"
  "sg_min_slot (create_with_format sid gid FmtBinary) = u64_max"
  "sg_max_slot (create_with_format sid gid FmtBinary) = 0"
  "sg_record_count (create_with_format sid gid FmtBinary) = 0"
  by (simp_all add: create_with_format_def seg_header_bytes write_at_def Let_def)

definition written_segment ::
    "(bytes \<Rightarrow> u32) \<Rightarrow> (u32 \<Rightarrow> bytes \<Rightarrow> u32) \<Rightarrow> u64 \<Rightarrow> u64 \<Rightarrow> wal_record list \<Rightarrow> bool \<Rightarrow> wal_segment" where
  "written_segment crc upd sid gid rs sealed =
     (let seg = seg_appends crc upd rs (create_with_format sid gid FmtBinary)
      in if sealed then snd (seal crc None None seg) else seg)"

lemma written_segment_file:
  assumes "crc_law crc upd" and "list_all reader_fits rs"
  obtains tail where "sg_file (written_segment crc upd sid gid rs sealed) @ replicate pad 0 =
      encode_seg_header sid gid @ concat (map (record_bytes crc upd) rs) @ tail" and "stops_scan crc tail"
proof -
  let ?seg = "seg_appends crc upd rs (create_with_format sid gid FmtBinary)"
  have content: "sg_file ?seg = encode_seg_header sid gid @ concat (map (record_bytes crc upd) rs)"
      "sg_write_offset ?seg = length (sg_file ?seg)" "\<not> sg_sealed ?seg" "sg_format ?seg = FmtBinary"
    using seg_appends_file [OF assms create_binary(3,4)] by (simp_all add: create_binary seg_header_bytes)
  show thesis
  proof (cases sealed)
    case True
    let ?f = "encode_footer crc (sg_min_slot ?seg) (sg_max_slot ?seg) (sg_record_count ?seg)"
    have "sg_file (written_segment crc upd sid gid rs sealed) = sg_file ?seg @ ?f"
      using True content(2-) by (simp add: written_segment_def seal_def write_at_end Let_def)
    then show thesis
      using content(1) by (intro that [OF _ stops_scan_footer]) simp
  next
    case False
    then show thesis
      using content(1) by (intro that [OF _ stops_scan_zeros]) (simp add: written_segment_def)
  qed
qed

lemma segment_scan:
  assumes "crc_law crc upd" and "list_all reader_fits rs" and "22 \<le> n"
  shows "\<exists>rd. reader_open path (take n (sg_file (written_segment crc upd sid gid rs sealed) @ replicate pad 0)) = Inr rd \<and>
    reader_ok rd \<and> rd_header rd = \<lparr> sh_segment_id = sid, sh_group_id = gid \<rparr> \<and>
    map fst (fst (scan_records crc rd)) = complete_records 22 n rs \<and>
    (complete_records 22 n rs = rs \<longrightarrow> snd (scan_records crc rd) = None) \<and>
    (let e = 22 + records_len (complete_records 22 n rs)
     in snd (scan_records crc rd) = None \<or> e + 4 \<le> n \<and> snd (scan_records crc rd) = Some (Truncated, e))"
proof -
  obtain tail where content: "sg_file (written_segment crc upd sid gid rs sealed) @ replicate pad 0 =
      encode_seg_header sid gid @ concat (map (record_bytes crc upd) rs) @ tail" and stop: "stops_scan crc tail"
    using assms(1,2) by (rule written_segment_file)
  let ?rd = "\<lparr> rd_file = take n (encode_seg_header sid gid @ concat (map (record_bytes crc upd) rs) @ tail),
    rd_header = \<lparr> sh_segment_id = sid, sh_group_id = gid \<rparr>, rd_offset = 22, rd_buffer = buffer_default \<rparr>"
  have "take n (encode_seg_header sid gid @ concat (map (record_bytes crc upd) rs) @ tail) =
      encode_seg_header sid gid @ take (n - 22) (concat (map (record_bytes crc upd) rs) @ tail)"
    using assms(3) by (simp add: seg_header_bytes)
  then have "reader_open path (take n (encode_seg_header sid gid @ concat (map (record_bytes crc upd) rs) @ tail)) =
      Inr ?rd"
    using reader_open_binary [of path sid gid] by (simp only:)
  moreover have "reader_ok ?rd" by (simp add: reader_ok_def)
  moreover have "map fst (fst (scan_records crc ?rd)) =
        complete_records (length (encode_seg_header sid gid)) n rs \<and>
      (complete_records (length (encode_seg_header sid gid)) n rs = rs \<longrightarrow> snd (scan_records crc ?rd) = None) \<and>
      (let e = length (encode_seg_header sid gid) +
          records_len (complete_records (length (encode_seg_header sid gid)) n rs)
       in snd (scan_records crc ?rd) = None \<or> e + 4 \<le> n \<and> snd (scan_records crc ?rd) = Some (Truncated, e))"
    using assms by (intro scan_truncated [OF assms(1,2) stop \<open>reader_ok ?rd\<close>]) (simp_all add: seg_header_bytes)
  ultimately show ?thesis unfolding content seg_header_bytes by auto
qed

section \<open>Text footers\<close>

definition footer_fields :: "slot_index \<Rightarrow> slot_index \<Rightarrow> u32 \<Rightarrow> (string \<times> bytes) list" where
  "footer_fields mn mx rc =
     [(''min_slot'', dec_str (unat mn)), (''max_slot'', dec_str (unat mx)),
      (''record_count'', dec_str (unat rc))]"

lemma encode_text_footer_eq:
  "encode_text_footer crc mn mx rc = with_crc crc (footer_text_prefix @ print_fields (footer_fields mn mx rc))"
  by (simp add: encode_text_footer_def print_fields_def footer_fields_def asc_def of_char_def)

lemma footer_fields_ok: "list_all (\<lambda>(k, v). field_ok k v) (footer_fields mn mx rc)"
  by (simp add: footer_fields_def field_ok_dec asc_def of_char_def)

lemma bad_u64_dec [text_simps]: "bad_u64 name (dec_str (unat w)) = Inr w"
  using unat_bound [of w] by (simp add: bad_u64_def parse_uint_dec)

lemma bad_u32_dec [text_simps]: "bad_u32 name (dec_str (unat w)) = Inr w"
  using unat_bound [of w] by (simp add: bad_u32_def parse_uint_dec)

lemma set_footer_field_keys:
  "set_footer_field (asc ''min_slot'') x (a, b, c) = map_sum id (\<lambda>y. (Some y, b, c)) (bad_u64 ''min_slot'' x)"
  "set_footer_field (asc ''max_slot'') x (a, b, c) = map_sum id (\<lambda>y. (a, Some y, c)) (bad_u64 ''max_slot'' x)"
  "set_footer_field (asc ''record_count'') x (a, b, c) = map_sum id (\<lambda>y. (a, b, Some y)) (bad_u32 ''record_count'' x)"
  by (simp_all add: set_footer_field_def asc_def of_char_def)

lemma decode_text_footer_checked:
  assumes "checked_body crc line = Inr (footer_text_prefix @ print_fields (footer_fields mn mx rc))"
  shows "decode_text_footer crc line = Inr \<lparr> sf_min_slot = mn, sf_max_slot = mx, sf_record_count = rc \<rparr>"
proof -
  have "32 \<notin> set footer_text_prefix" by (simp add: footer_text_prefix_def asc_def of_char_def)
  then have "split_on 32 (footer_text_prefix @ print_fields (footer_fields mn mx rc)) =
      footer_text_prefix # map (\<lambda>(k, v). asc k @ 61 # v) (footer_fields mn mx rc)"
    using footer_fields_ok by (rule split_print_fields)
  moreover have "fold_parsed set_footer_field (footer_fields mn mx rc) (None, None, None) =
      Inr (Some mn, Some mx, Some rc)"
    by (simp add: footer_fields_def set_footer_field_keys text_simps)
  ultimately show ?thesis
    by (simp add: decode_text_footer_def assms bind_sum_def fold_fields_printed [OF footer_fields_ok] require_def)
qed

lemma decode_text_footer_line:
  assumes "encode_text_footer crc mn mx rc = line @ [10]"
  shows "decode_text_footer crc line = Inr \<lparr> sf_min_slot = mn, sf_max_slot = mx, sf_record_count = rc \<rparr>"
proof (rule decode_text_footer_checked)
  let ?b = "footer_text_prefix @ print_fields (footer_fields mn mx rc)"
  let ?h = "hex_pad 8 (unat (crc ?b))"
  have line: "line = ?b @ asc '' crc32c='' @ ?h"
    using assms by (simp add: encode_text_footer_eq with_crc_def)
  have "?h \<noteq> []" by (metis length_hex_pad list.size(3) zero_neq_numeral)
  then have "last line \<in> set ?h" by (simp add: line)
  then have "last line \<noteq> 13 \<and> last line \<noteq> 10" using hex_pad_digits [of "last line" 8] by fastforce
  then have "trim_end_newlines (line @ [10]) = line" "trim_end_newlines line = line"
    by (intro trim_end_newlines_snoc trim_end_newlines_id disjI2, assumption)+
  then have "checked_body crc line = checked_body crc (line @ [10])" by (simp add: checked_body_def)
  also have "line @ [10] = with_crc crc ?b" using assms by (simp add: encode_text_footer_eq)
  finally show "checked_body crc line = Inr ?b" by (simp add: checked_body_with_crc)
qed

text \<open>The fuel of one more than the bytes left is enough: more does not change the answer.\<close>

lemma utf8_from_enough: "length s - i < fuel \<Longrightarrow> utf8_from (fuel + k) s i = utf8_from fuel s i"
proof (induction fuel arbitrary: i)
  case (Suc fuel)
  have "utf8_from (fuel + k) s (i + d) = utf8_from fuel s (i + d)" if "0 < d" "i < length s" for d
    using Suc.prems that by (intro Suc.IH) simp
  from this [of 1] this [of 2] this [of 3] this [of 4] show ?case
    by (cases "length s \<le> i") (simp_all add: Let_def)
qed simp

lemma utf8_ascii: "\<forall>b \<in> set s. b < 128 \<Longrightarrow> utf8_from fuel s i = None"
proof (induction fuel arbitrary: i)
  case (Suc fuel)
  then show ?case by (simp add: utf8_width_def Let_def)
qed simp

lemma index_of_app: "c \<notin> set a \<Longrightarrow> index_of c (a @ c # rest) = Some (length a)"
  by (induction a) auto

text \<open>A printed footer: printable characters, one \<open>C\<close>, one newline at the end.\<close>

definition plain :: "u8 \<Rightarrow> bool" where
  "plain c \<longleftrightarrow> c < 128 \<and> c \<noteq> 10 \<and> c \<noteq> 67"

lemma plain_dec: "list_all plain (dec_str n)"
  unfolding list_all_iff
proof
  fix c assume "c \<in> set (dec_str n)"
  then have c: "48 \<le> c" "c \<le> 57" using dec_str_digits by blast+
  have "c < 128" by (rule le_less_trans [OF c(2)]) simp
  then show "plain c" using c by (auto simp: plain_def)
qed

lemma plain_hex_char: "d < 16 \<Longrightarrow> plain (hex_char d)"
proof -
  assume d: "d < 16"
  then have "unat (hex_char d) < 128" "unat (hex_char d) \<noteq> 10" "unat (hex_char d) \<noteq> 67"
    by (simp_all add: hex_char_def unat_word_ariths unat_of_nat take_bit_eq_mod)
  then show ?thesis unfolding plain_def by (auto simp: word_less_nat_alt)
qed

lemma plain_hex: "list_all plain (hex_pad k n)"
  by (induction k arbitrary: n) (simp_all add: plain_hex_char)

lemma plain_keys:
  "list_all plain (asc ''min_slot'')" "list_all plain (asc ''max_slot'')"
  "list_all plain (asc ''record_count'')" "list_all plain (asc '' crc32c='')"
  "list_all plain (tl footer_text_prefix)" "plain 32" "plain 61"
  by (simp_all add: asc_def of_char_def plain_def footer_text_prefix_def)

lemma text_footer_shape:
  obtains line where "encode_text_footer crc mn mx rc = footer_text_prefix @ line @ [10]"
    and "list_all plain (tl footer_text_prefix @ line)"
proof -
  let ?b = "footer_text_prefix @ print_fields (footer_fields mn mx rc)"
  let ?line = "print_fields (footer_fields mn mx rc) @ asc '' crc32c='' @ hex_pad 8 (unat (crc ?b))"
  have "encode_text_footer crc mn mx rc = footer_text_prefix @ ?line @ [10]"
    by (simp add: encode_text_footer_eq with_crc_def)
  moreover have "list_all plain (tl footer_text_prefix @ ?line)"
    by (simp add: print_fields_def footer_fields_def plain_keys plain_dec plain_hex)
  ultimately show thesis by (rule that)
qed

section \<open>A footer inside a payload\<close>

lemma prefix_short: "length z < length pat \<Longrightarrow> rsplit_once pat z = None"
  by (induction z) (auto dest: prefix_length_le)

lemma rsplit_once_short:
  "c \<notin> set a \<Longrightarrow> length z \<le> length pat \<Longrightarrow> rsplit_once (c # pat) (a @ z) = None"
  by (induction a) (auto simp: prefix_short)

lemma rsplit_once_last:
  assumes "c \<notin> set (pat @ mid)" and "length z \<le> length pat"
  shows "rsplit_once (c # pat) (body @ (c # pat) @ mid @ z) = Some (body, mid @ z)"
proof (induction body)
  case Nil
  have "rsplit_once (c # pat) ((pat @ mid) @ z) = None" using assms by (rule rsplit_once_short)
  then show ?case by simp
qed simp

lemma strip_zeros_app:
  assumes "b \<noteq> 0"
  obtains k where "strip_zeros (a @ [b] @ z) = a @ [b] @ take k z"
proof -
  have "\<exists>k. strip_zeros (a @ [b] @ z) = a @ [b] @ take k z"
  proof (induction z rule: rev_induct)
    case Nil
    show ?case using assms by (simp add: strip_zeros_def)
  next
    case (snoc x z)
    show ?case
    proof (cases "x = 0")
      case True
      then have "strip_zeros (a @ [b] @ z @ [x]) = strip_zeros (a @ [b] @ z)"
        by (simp add: strip_zeros_def)
      moreover obtain k where "strip_zeros (a @ [b] @ z) = a @ [b] @ take k z" using snoc by blast
      ultimately have "strip_zeros (a @ [b] @ z @ [x]) = a @ [b] @ take (min k (length z)) (z @ [x])"
        by (simp add: min_def)
      then show ?thesis by blast
    next
      case False
      then have "strip_zeros (a @ [b] @ z @ [x]) = a @ [b] @ take (Suc (length z)) (z @ [x])"
        by (simp add: strip_zeros_def)
      then show ?thesis by blast
    qed
  qed
  then show thesis using that by blast
qed

lemma plain_ascii: "list_all plain l \<Longrightarrow> utf8_error (67 # l) = None"
proof -
  assume "list_all plain l"
  then have "\<forall>b \<in> set (67 # l). b < 128" by (simp add: list_all_iff plain_def)
  then show ?thesis unfolding utf8_error_def by (simp only: utf8_ascii option.map(1))
qed

lemma text_footer_in_tail:
  assumes "length z \<le> 15"
  shows "try_decode_text_footer_from_tail crc (body @ encode_text_footer crc mn mx rc @ z) =
    Some \<lparr> sf_min_slot = mn, sf_max_slot = mx, sf_record_count = rc \<rparr>"
proof -
  obtain line where foot: "encode_text_footer crc mn mx rc = footer_text_prefix @ line @ [10]"
    and plain: "list_all plain (tl footer_text_prefix @ line)"
    by (rule text_footer_shape)
  have pre: "footer_text_prefix = 67 # tl footer_text_prefix" "length (tl footer_text_prefix) = 16"
    using footer_text_prefix_bytes by (metis list.sel(3), simp)
  obtain k where strip: "strip_zeros (body @ encode_text_footer crc mn mx rc @ z) =
      body @ footer_text_prefix @ line @ [10] @ take k z"
    using strip_zeros_app [of 10 "body @ footer_text_prefix @ line" z] by (auto simp: foot)
  have no67: "67 \<notin> set (tl footer_text_prefix @ line)" and no10: "10 \<notin> set (tl footer_text_prefix @ line)"
    using plain by (auto simp: list_all_iff plain_def)
  have "rsplit_once (67 # tl footer_text_prefix) (body @ (67 # tl footer_text_prefix) @ line @ ([10] @ take k z)) =
      Some (body, line @ [10] @ take k z)"
    using no67 assms pre(2) by (intro rsplit_once_last) simp_all
  then have split: "rsplit_once footer_text_prefix (strip_zeros (body @ encode_text_footer crc mn mx rc @ z)) =
      Some (body, line @ [10] @ take k z)"
    unfolding strip using pre(1) by (metis append_assoc)
  have "index_of 10 ((67 # tl footer_text_prefix @ line) @ 10 # take k z) =
      Some (length (67 # tl footer_text_prefix @ line))"
    using no10 by (intro index_of_app) simp
  moreover have eq: "footer_text_prefix @ line @ [10] @ take k z = (67 # tl footer_text_prefix @ line) @ 10 # take k z"
    using pre(1) by (metis append_Cons append_Nil append_assoc)
  moreover have "decode_text_footer crc (67 # tl footer_text_prefix @ line) =
      Inr \<lparr> sf_min_slot = mn, sf_max_slot = mx, sf_record_count = rc \<rparr>"
    using foot pre(1) by (intro decode_text_footer_line) (metis append_Cons append_assoc)
  ultimately show ?thesis
    unfolding try_decode_text_footer_from_tail_def Let_def split option.case prod.case eq
    by (simp add: plain_ascii [OF plain])
qed

section \<open>The footer of a sealed segment\<close>

lemma decode_footer_encoded:
  "decode_footer crc (encode_footer crc mn mx rc) =
     Some \<lparr> sf_min_slot = mn, sf_max_slot = mx, sf_record_count = rc \<rparr>"
  by (simp add: decode_footer_def encode_footer_def footer_body_def Let_def rd_u32_def rd_u64_def slice_def)

definition slot_bounds :: "wal_record list \<Rightarrow> slot_index \<times> slot_index" where
  "slot_bounds rs = fold (\<lambda>r (mn, mx). if wr_slot r = 0 then (mn, mx) else (min mn (wr_slot r), max mx (wr_slot r)))
     rs (u64_max, 0)"

lemma note_record_meta:
  "(sg_min_slot (note_record r seg), sg_max_slot (note_record r seg)) =
     (if wr_slot r = 0 then (sg_min_slot seg, sg_max_slot seg)
      else (min (sg_min_slot seg) (wr_slot r), max (sg_max_slot seg) (wr_slot r)))"
  "sg_record_count (note_record r seg) = sg_record_count seg + 1"
  by (auto simp: note_record_def Let_def min_def max_def not_less)

lemma seg_appends_meta:
  assumes "crc_law crc upd" and "list_all reader_fits rs" and "\<not> sg_sealed seg" and "sg_format seg = FmtBinary"
  shows "(sg_min_slot (seg_appends crc upd rs seg), sg_max_slot (seg_appends crc upd rs seg)) =
      fold (\<lambda>r (mn, mx). if wr_slot r = 0 then (mn, mx) else (min mn (wr_slot r), max mx (wr_slot r)))
        rs (sg_min_slot seg, sg_max_slot seg) \<and>
    sg_record_count (seg_appends crc upd rs seg) = sg_record_count seg + of_nat (length rs)"
  using assms
proof (induction rs arbitrary: seg)
  case (Cons r rs)
  let ?s = "snd (seg_append crc upd None r seg)"
  have "(sg_min_slot ?s, sg_max_slot ?s) = (if wr_slot r = 0 then (sg_min_slot seg, sg_max_slot seg)
        else (min (sg_min_slot seg) (wr_slot r), max (sg_max_slot seg) (wr_slot r)))"
      "sg_record_count ?s = sg_record_count seg + 1" "\<not> sg_sealed ?s" "sg_format ?s = FmtBinary"
    using Cons.prems record_bytes [of crc upd r] note_record_meta
    by (simp_all add: seg_append_def Let_def)
  then show ?case using Cons.IH [of ?s] Cons.prems by (simp add: seg_appends_def)
qed (simp add: seg_appends_def)

lemma sealed_footer:
  assumes "crc_law crc upd" and "list_all reader_fits rs"
    and "rd_file rd = sg_file (written_segment crc upd sid gid rs True)"
  shows "read_footer crc rd =
    Some \<lparr> sf_min_slot = fst (slot_bounds rs), sf_max_slot = snd (slot_bounds rs),
           sf_record_count = of_nat (length rs) \<rparr>"
proof -
  let ?seg = "seg_appends crc upd rs (create_with_format sid gid FmtBinary)"
  let ?f = "encode_footer crc (sg_min_slot ?seg) (sg_max_slot ?seg) (sg_record_count ?seg)"
  have seg: "sg_file ?seg = encode_seg_header sid gid @ concat (map (record_bytes crc upd) rs)"
      "sg_write_offset ?seg = length (sg_file ?seg)" "\<not> sg_sealed ?seg" "sg_format ?seg = FmtBinary"
    using seg_appends_file [OF assms(1,2) create_binary(3,4)] by (simp_all add: create_binary seg_header_bytes)
  have "rd_file rd = sg_file ?seg @ ?f"
    using assms(3) seg(2-) by (simp add: written_segment_def seal_def write_at_end Let_def)
  moreover from this have "drop (length (rd_file rd) - footer_len) (rd_file rd) = ?f"
    by (simp add: footer_len_def)
  moreover have "22 \<le> length (sg_file ?seg)" by (simp add: seg seg_header_bytes)
  moreover have "(sg_min_slot ?seg, sg_max_slot ?seg) = slot_bounds rs" "sg_record_count ?seg = of_nat (length rs)"
    using seg_appends_meta [OF assms(1,2) create_binary(3,4)]
    by (simp_all add: slot_bounds_def create_binary)
  ultimately show ?thesis
    unfolding read_footer_def Let_def
    by (simp add: decode_footer_encoded seg_header_len_def footer_len_def) (metis fst_conv snd_conv)
qed

section \<open>Properties\<close>

text \<open>C9 A crash at any byte loses only the records that were not completely written. Take a
  binary segment file written by any sequence of appends, sealed or not, with any amount of
  alignment padding behind it, and cut it after any number of bytes that keeps the header: the
  reader opens it and returns exactly the records that lie completely within the remaining
  bytes, in order, reports corruption only at the end of the last complete record, and after
  the file is truncated there returns the same records with no corruption.\<close>

theorem segment_crash_recovery:
  assumes "crc_law crc upd" and "list_all reader_fits rs" and "22 \<le> n"
    and "file = sg_file (written_segment crc upd sid gid rs sealed) @ replicate pad 0"
    and "e = 22 + records_len (complete_records 22 n rs)"
  shows "\<exists>rd rd'. reader_open path (take n file) = Inr rd \<and>
    map fst (fst (scan_records crc rd)) = complete_records 22 n rs \<and>
    (snd (scan_records crc rd) = None \<or> snd (scan_records crc rd) = Some (Truncated, e)) \<and>
    reader_open path (take e file) = Inr rd' \<and>
    map fst (fst (scan_records crc rd')) = complete_records 22 n rs \<and> snd (scan_records crc rd') = None"
proof -
  have "22 \<le> e" using assms(5) by simp
  then show ?thesis
    using segment_scan [OF assms(1-3), of path sid gid sealed pad]
      segment_scan [OF assms(1,2), of e path sid gid sealed pad] complete_records_again [of 22 n rs]
    unfolding assms(4) assms(5) [symmetric] by (auto simp: Let_def assms(5) [symmetric])
qed

lemma segment_crash_recovery_witness:
  "\<exists>rd. reader_open ''seg'' (take 150 (sg_file (written_segment crc32c crc32c_update 1 1
       [from_promised 1 1 7 (PxBallot 1 2), from_promised 1 1 8 (PxBallot 1 2),
        from_promised 1 1 9 (PxBallot 1 2)] False))) = Inr rd \<and>
     map fst (fst (scan_records crc32c rd)) =
       [from_promised 1 1 7 (PxBallot 1 2), from_promised 1 1 8 (PxBallot 1 2)]"
proof -
  let ?rs = "[from_promised 1 1 7 (PxBallot 1 2), from_promised 1 1 8 (PxBallot 1 2),
    from_promised 1 1 9 (PxBallot 1 2)]"
  have fits: "list_all reader_fits ?rs"
    by (simp add: reader_fits_def record_fits_def from_promised_def footer_magic_def)
  have rs: "complete_records 22 150 ?rs =
      [from_promised 1 1 7 (PxBallot 1 2), from_promised 1 1 8 (PxBallot 1 2)]"
    by (simp add: record_len_def from_promised_def)
  have "(22 :: nat) \<le> 150" by simp
  from segment_crash_recovery [OF crc32c_law fits this refl refl, of "''seg''" 1 1 False 0]
  have "\<exists>rd. reader_open ''seg'' (take 150 (sg_file (written_segment crc32c crc32c_update 1 1 ?rs False) @
      replicate 0 0)) = Inr rd \<and> map fst (fst (scan_records crc32c rd)) = complete_records 22 150 ?rs"
    by (elim exE conjE) (intro exI conjI)
  then show ?thesis by (simp only: rs replicate_0 append_Nil2)
qed

text \<open>C33 The read-ahead buffer is transparent: whatever earlier reads left in it, reading the next
  record gives the record, the error and the new position that the plain bytes of the file at the
  current position determine, and leaves a buffer for which this holds again.\<close>

theorem buffered_reader_exact:
  assumes "reader_ok rd" and "next_record crc rd = (res, rd')"
  shows "(res, rd_offset rd') = record_at crc (rd_file rd) (rd_offset rd) \<and>
    rd_file rd' = rd_file rd \<and> reader_ok rd'"
  using assms by (rule next_record_exact)

lemma buffered_reader_exact_witness:
  "record_at crc32c [84, 79, 79, 70, 1] 0 = (Inr None, 0)"
proof -
  let ?rd = "\<lparr> rd_file = [84, 79, 79, 70, 1], rd_header = \<lparr> sh_segment_id = 1, sh_group_id = 1 \<rparr>,
    rd_offset = 0, rd_buffer = \<lparr> rb_bytes = [84, 79, 79, 70, 1], rb_offset = 0 \<rparr> \<rparr>"
  have ok: "reader_ok ?rd" by (simp add: reader_ok_def buffer_ok_def slice_def)
  have magic: "u32_of_le [84, 79, 79, 70] = footer_magic"
    using u32_of_le_u32_le [of footer_magic] by (simp only: footer_magic_bytes)
  have "next_record crc32c ?rd = (Inr None, ?rd)"
    by (simp add: next_record_def next_record_is_text_def next_is_text_footer_def next_has_prefix_def
        text_prefix_bytes(2) footer_text_prefix_bytes(2) next_binary_record_def read_here_def
        buffer_read_def slice_def magic Let_def)
  from buffered_reader_exact [OF ok this] show ?thesis by simp
qed

text \<open>C34 Sealing writes a footer that is found again and that is right: the footer read from a
  sealed segment gives the lowest and the highest slot of its records, ignoring records without a
  slot, and their number modulo the width of the counter.\<close>

theorem sealed_footer_correct:
  assumes "crc_law crc upd" and "list_all reader_fits rs"
    and "reader_open path (sg_file (written_segment crc upd sid gid rs True)) = Inr rd"
  shows "read_footer crc rd =
    Some \<lparr> sf_min_slot = fst (slot_bounds rs), sf_max_slot = snd (slot_bounds rs),
           sf_record_count = of_nat (length rs) \<rparr>"
proof -
  have "rd_file rd = sg_file (written_segment crc upd sid gid rs True)"
    using assms(3) by (auto simp: reader_open_def bind_sum_def split: if_splits option.splits sum.splits)
  then show ?thesis by (rule sealed_footer [OF assms(1,2)])
qed

lemma sealed_footer_correct_witness:
  "\<exists>rd. reader_open ''seg'' (sg_file (written_segment crc32c crc32c_update 1 1
       [from_promised 1 1 7 (PxBallot 1 2), from_vote_granted 1 2 3, from_promised 1 1 5 (PxBallot 1 2)] True)) = Inr rd \<and>
     read_footer crc32c rd = Some \<lparr> sf_min_slot = 5, sf_max_slot = 7, sf_record_count = 3 \<rparr>"
proof -
  let ?rs = "[from_promised 1 1 7 (PxBallot 1 2), from_vote_granted 1 2 3, from_promised 1 1 5 (PxBallot 1 2)]"
  have fits: "list_all reader_fits ?rs"
    by (simp add: reader_fits_def record_fits_def from_promised_def from_vote_granted_def footer_magic_def)
  have bounds: "slot_bounds ?rs = (5, 7)" by code_simp
  let ?f = "sg_file (written_segment crc32c crc32c_update 1 1 ?rs True)"
  obtain rd where rd: "reader_open ''seg'' (take (22 + length ?f) ?f) = Inr rd"
    using segment_scan [OF crc32c_law fits, of "22 + length ?f" "''seg''" 1 1 True 0] by auto
  then have "reader_open ''seg'' ?f = Inr rd" by simp
  with sealed_footer_correct [OF crc32c_law fits this] show ?thesis by (simp add: bounds)
qed

lemma length_text_footer_ones: "length (encode_text_footer crc 1 1 1) = 71"
  by (simp add: encode_text_footer_def with_crc_def asc_def footer_text_prefix_def dec_str.simps)

text \<open>An unsealed segment is taken for a sealed one if the payload of its last record ends with a
  text footer line, even with a few bytes of a torn record behind it.\<close>

lemma embedded_footer:
  assumes "crc_law crc upd" and "wr_payload r = a @ encode_text_footer crc 1 1 1" and "length a \<le> 60000"
    and "rd_file rd = sg_file (written_segment crc upd sid gid [r] False) @ z" and "length z \<le> 11"
  shows "read_footer crc rd \<noteq> None"
proof -
  have len: "length (wr_payload r) = length a + 71" by (simp add: assms(2) length_text_footer_ones)
  then have fits: "reader_fits r" using assms(3) by (simp add: reader_fits_def record_fits_def footer_magic_def)
  let ?core = "write_header_body r (length (wr_payload r)) @ wr_payload r"
  let ?pre = "u32_le (of_nat (55 + length (wr_payload r))) @ write_header_body r (length (wr_payload r)) @ a"
  have "record_bytes crc upd r = u32_le (of_nat (55 + length (wr_payload r))) @ ?core @ u32_le (crc ?core)"
    using encode_eq [OF assms(1), of r] fits by (simp add: record_bytes_def reader_fits_def Let_def)
  then have rec: "record_bytes crc upd r = ?pre @ encode_text_footer crc 1 1 1 @ u32_le (crc ?core)"
    using assms(2) by simp
  have content: "rd_file rd = encode_seg_header sid gid @ record_bytes crc upd r @ z"
    using seg_appends_file [OF assms(1) _ create_binary(3,4), of "[r]" sid gid] fits assms(4)
    by (simp add: written_segment_def create_binary seg_header_bytes)
  have total: "length (rd_file rd) = 152 + length a + length z"
    using content record_bytes(2) [OF assms(1) fits] len by (simp add: seg_header_bytes record_len_def)
  then have start: "max (length (rd_file rd) - footer_tail_scan_bytes) seg_header_len = 22"
    using assms(3,5) by (simp add: footer_tail_scan_bytes_def seg_header_len_def)
  have tail: "drop 22 (rd_file rd) = ?pre @ encode_text_footer crc 1 1 1 @ u32_le (crc ?core) @ z"
    using content rec by (simp add: seg_header_bytes)
  have "try_decode_text_footer_from_tail crc (drop 22 (rd_file rd)) =
      Some \<lparr> sf_min_slot = 1, sf_max_slot = 1, sf_record_count = 1 \<rparr>"
    unfolding tail using assms(5) by (intro text_footer_in_tail) simp
  then show ?thesis
    using total start unfolding read_footer_def Let_def
    by (simp add: footer_len_def seg_header_len_def split: option.split)
qed

end
