(* ===== verification/Wal_Index.thy ===== *)
theory Wal_Index
  imports Wal_Replay Wal_Segment
begin

text \<open>
  The segment index (\<open>wal/index.rs\<close>): where the latest record of a slot is, and the metadata of
  every sealed segment; its partition by pipeline; and garbage collection over it
  (\<open>wal/gc.rs\<close>), which unlinks segments below a watermark but keeps the evidence of the highest
  term and of the latest vote.
\<close>

section \<open>Index\<close>

record slot_location =
  sl_disk_idx :: nat
  sl_segment_id :: u64
  sl_file_offset :: nat

record segment_meta =
  sm_segment_id :: u64
  sm_disk_idx :: nat
  sm_min_slot :: slot_index
  sm_max_slot :: slot_index
  sm_record_count :: u32
  sm_max_term :: u64
  sm_vote_term :: "u64 option"

record segment_index =
  si_map :: "(slot_index, slot_location) omap"
  si_segments :: "(u64, segment_meta) omap"

definition index_new :: segment_index where
  "index_new = \<lparr> si_map = [], si_segments = [] \<rparr>"

definition index_insert :: "slot_index \<Rightarrow> slot_location \<Rightarrow> segment_index \<Rightarrow> segment_index" where
  "index_insert slot loc ix = ix\<lparr>si_map := om_put slot loc (si_map ix)\<rparr>"

definition index_locate :: "slot_index \<Rightarrow> segment_index \<Rightarrow> slot_location option" where
  "index_locate slot ix = om_get (si_map ix) slot"

definition register_segment :: "segment_meta \<Rightarrow> segment_index \<Rightarrow> segment_index" where
  "register_segment meta ix = ix\<lparr>si_segments := om_put (sm_segment_id meta) meta (si_segments ix)\<rparr>"

definition remove_segment :: "u64 \<Rightarrow> segment_index \<Rightarrow> segment_index" where
  "remove_segment segment_id ix =
     (case om_get (si_segments ix) segment_id of
        None \<Rightarrow> ix
      | Some meta \<Rightarrow>
          \<lparr> si_map = filter (\<lambda>(slot, loc). sl_segment_id loc \<noteq> sm_segment_id meta) (si_map ix),
            si_segments = om_del segment_id (si_segments ix) \<rparr>)"

definition index_segments :: "segment_index \<Rightarrow> segment_meta list" where
  "index_segments ix = map snd (si_segments ix)"

definition index_slot_count :: "segment_index \<Rightarrow> nat" where
  "index_slot_count ix = length (si_map ix)"

definition rebuild_from_scans :: "(segment_meta \<times> (slot_index \<times> nat) list) list \<Rightarrow> segment_index" where
  "rebuild_from_scans scans =
     fold (\<lambda>(meta, slots) ix.
       register_segment meta
         (fold (\<lambda>(slot, off). index_insert slot
            \<lparr> sl_disk_idx = sm_disk_idx meta, sl_segment_id = sm_segment_id meta, sl_file_offset = off \<rparr>)
            slots ix)) scans index_new"

section \<open>Index partitioned by pipeline\<close>

record sharded_segment_index =
  sx_shards :: "segment_index list"
  sx_group_id :: u64

definition sharded_new :: "nat \<Rightarrow> u64 \<Rightarrow> sharded_segment_index option" where
  "sharded_new pipeline_count group_id =
     (if pipeline_count = 0 then None
      else Some \<lparr> sx_shards = replicate pipeline_count index_new, sx_group_id = group_id \<rparr>)"

text \<open>Both \<open>shard_for_slot\<close> and the engine's \<open>select_pipeline\<close> hash the slot.\<close>

definition shard_for_slot :: "sharded_segment_index \<Rightarrow> slot_index \<Rightarrow> nat" where
  "shard_for_slot sx slot =
     (if length (sx_shards sx) = 1 then 0
      else unat (xor (slot * 0x9E3779B97F4A7C15) (sx_group_id sx)) mod length (sx_shards sx))"

definition select_pipeline :: "nat \<Rightarrow> wal_record \<Rightarrow> nat" where
  "select_pipeline pipeline_count r =
     (if pipeline_count \<le> 1 then 0
      else let lane_slot = (if wr_slot r = 0 then 0 else wr_slot r)
           in unat (xor (lane_slot * 0x9E3779B97F4A7C15) (wr_group_id r)) mod pipeline_count)"

definition update_shard ::
    "nat \<Rightarrow> (segment_index \<Rightarrow> segment_index) \<Rightarrow> sharded_segment_index \<Rightarrow> sharded_segment_index" where
  "update_shard i f sx = sx\<lparr>sx_shards := (sx_shards sx)[i := f (sx_shards sx ! i)]\<rparr>"

text \<open>The assertions of \<open>insert\<close> and \<open>register_segment\<close> that the location names the pipeline are checked in
  debug builds only and are not part of the model; \<open>None\<close> is the panic of an index out of range.\<close>

definition sharded_insert ::
    "nat \<Rightarrow> slot_index \<Rightarrow> slot_location \<Rightarrow> sharded_segment_index \<Rightarrow> sharded_segment_index option" where
  "sharded_insert i slot loc sx =
     (if i < length (sx_shards sx) then Some (update_shard i (index_insert slot loc) sx) else None)"

definition sharded_locate :: "slot_index \<Rightarrow> sharded_segment_index \<Rightarrow> slot_location option" where
  "sharded_locate slot sx = index_locate slot (sx_shards sx ! shard_for_slot sx slot)"

definition sharded_register ::
    "nat \<Rightarrow> segment_meta \<Rightarrow> sharded_segment_index \<Rightarrow> sharded_segment_index option" where
  "sharded_register i meta sx =
     (if i < length (sx_shards sx) then Some (update_shard i (register_segment meta) sx) else None)"

definition sharded_remove :: "nat \<Rightarrow> u64 \<Rightarrow> sharded_segment_index \<Rightarrow> sharded_segment_index option" where
  "sharded_remove i segment_id sx =
     (if i < length (sx_shards sx) then Some (update_shard i (remove_segment segment_id) sx) else None)"

definition segments_snapshot :: "sharded_segment_index \<Rightarrow> segment_meta list" where
  "segments_snapshot sx = concat (map index_segments (sx_shards sx))"

definition sharded_slot_count :: "sharded_segment_index \<Rightarrow> nat" where
  "sharded_slot_count sx = sum_list (map index_slot_count (sx_shards sx))"

definition index_snapshot :: "sharded_segment_index \<Rightarrow> segment_index" where
  "index_snapshot sx =
     fold (\<lambda>shard snap.
        \<lparr> si_map = fold (\<lambda>(slot, loc). om_put slot loc) (si_map shard) (si_map snap),
          si_segments = fold (\<lambda>(i, meta). om_put i meta) (si_segments shard) (si_segments snap) \<rparr>)
       (sx_shards sx) index_new"

fun seed_slots ::
    "(slot_index \<times> slot_location) list \<Rightarrow> sharded_segment_index \<Rightarrow> io_error + sharded_segment_index" where
  "seed_slots [] sx = Inr sx"
| "seed_slots ((slot, loc) # rest) sx =
     (case sharded_insert (sl_disk_idx loc) slot loc sx of
        None \<Rightarrow> Inl (IoError InvalidInput ''replayed WAL disk is unavailable'')
      | Some sx' \<Rightarrow> seed_slots rest sx')"

fun seed_segments :: "segment_meta list \<Rightarrow> sharded_segment_index \<Rightarrow> io_error + sharded_segment_index" where
  "seed_segments [] sx = Inr sx"
| "seed_segments (meta # rest) sx =
     (case sharded_register (sm_disk_idx meta) meta sx of
        None \<Rightarrow> Inl (IoError InvalidInput ''replayed WAL disk is unavailable'')
      | Some sx' \<Rightarrow> seed_segments rest sx')"

definition from_replay :: "nat \<Rightarrow> u64 \<Rightarrow> segment_index \<Rightarrow> (io_error + sharded_segment_index) option" where
  "from_replay pipeline_count group_id recovered =
     (case sharded_new pipeline_count group_id of
        None \<Rightarrow> None
      | Some sx \<Rightarrow> Some (bind_sum (seed_slots (si_map recovered) sx)
                         (seed_segments (index_segments recovered))))"

section \<open>Garbage collection\<close>

definition compute_gc_slot :: "slot_index \<Rightarrow> slot_index \<Rightarrow> slot_index" where
  "compute_gc_slot safe_slot snapshot_slot = min safe_slot snapshot_slot"

text \<open>\<open>max_by_key\<close> and \<open>max\<close> of an iterator return the last of several maximal elements.\<close>

fun last_max :: "('a \<Rightarrow> 'k::linorder) \<Rightarrow> 'a list \<Rightarrow> 'a option" where
  "last_max key [] = None"
| "last_max key (x # xs) =
     (case last_max key xs of
        None \<Rightarrow> Some x
      | Some y \<Rightarrow> if key x \<le> key y then Some y else Some x)"

definition term_segment :: "segment_meta list \<Rightarrow> u64 option" where
  "term_segment segments =
     map_option sm_segment_id (last_max (\<lambda>m. (sm_max_term m, sm_segment_id m)) segments)"

definition vote_segment :: "segment_meta list \<Rightarrow> u64 option" where
  "vote_segment segments =
     map_option snd (last_max id
       (List.map_filter (\<lambda>m. map_option (\<lambda>t. (t, sm_segment_id m)) (sm_vote_term m)) segments))"

definition gc_eligible :: "slot_index \<Rightarrow> segment_meta list \<Rightarrow> segment_meta list" where
  "gc_eligible gc_slot segments =
     filter (\<lambda>m. Some (sm_segment_id m) \<noteq> term_segment segments \<and> Some (sm_segment_id m) \<noteq> vote_segment segments)
       (filter (\<lambda>m. 0 < sm_max_slot m \<and> sm_max_slot m < gc_slot) segments)"

datatype unlink_result = UnlinkOk | UnlinkNotFound | UnlinkFailed

fun gc_unlink ::
    "(segment_meta \<Rightarrow> unlink_result) \<Rightarrow> segment_meta list \<Rightarrow> nat \<Rightarrow> sharded_segment_index \<Rightarrow>
     nat \<times> sharded_segment_index" where
  "gc_unlink unlink [] n sx = (n, sx)"
| "gc_unlink unlink (m # ms) n sx =
     (let removed = update_shard (sm_disk_idx m) (remove_segment (sm_segment_id m)) sx in
      case unlink m of
        UnlinkOk \<Rightarrow> gc_unlink unlink ms (n + 1) removed
      | UnlinkNotFound \<Rightarrow> gc_unlink unlink ms n removed
      | UnlinkFailed \<Rightarrow> gc_unlink unlink ms n sx)"

definition run_gc_with_watermark ::
    "(segment_meta \<Rightarrow> unlink_result) \<Rightarrow> slot_index \<Rightarrow> sharded_segment_index \<Rightarrow> nat \<times> sharded_segment_index" where
  "run_gc_with_watermark unlink gc_slot sx =
     (if gc_slot = 0 then (0, sx)
      else gc_unlink unlink (gc_eligible gc_slot (segments_snapshot sx)) 0 sx)"

definition run_gc_pass ::
    "(segment_meta \<Rightarrow> unlink_result) \<Rightarrow> slot_index \<Rightarrow> slot_index \<Rightarrow> sharded_segment_index \<Rightarrow>
     nat \<times> sharded_segment_index" where
  "run_gc_pass unlink safe_slot snapshot_slot sx =
     run_gc_with_watermark unlink (compute_gc_slot safe_slot snapshot_slot) sx"

section \<open>Metadata of a scanned segment\<close>

text \<open>What replay computes about one segment while it walks its records.\<close>

definition scan_note :: "wal_record \<times> nat \<Rightarrow> segment_meta \<Rightarrow> segment_meta" where
  "scan_note x m0 =
     (let r = fst x;
          m1 = (if wr_slot r \<noteq> 0
                then m0\<lparr>sm_min_slot := (if wr_slot r < sm_min_slot m0 then wr_slot r else sm_min_slot m0),
                        sm_max_slot := (if sm_max_slot m0 < wr_slot r then wr_slot r else sm_max_slot m0)\<rparr>
                else m0);
          m2 = m1\<lparr>sm_record_count := sm_record_count m1 + 1, sm_max_term := max (sm_max_term m1) (wr_term r)\<rparr>
      in if wr_type r = RecVoteGranted
         then m2\<lparr>sm_vote_term := Some (case sm_vote_term m2 of None \<Rightarrow> wr_term r
                                                             | Some t \<Rightarrow> max t (wr_term r))\<rparr>
         else m2)"

definition scan_meta :: "nat \<Rightarrow> u64 \<Rightarrow> (wal_record \<times> nat) list \<Rightarrow> segment_meta" where
  "scan_meta disk_idx seg_id xs =
     (let m = fold scan_note xs
        \<lparr> sm_segment_id = seg_id, sm_disk_idx = disk_idx, sm_min_slot = u64_max, sm_max_slot = 0,
          sm_record_count = 0, sm_max_term = 0, sm_vote_term = None \<rparr>
      in m\<lparr>sm_min_slot := (if sm_min_slot m = u64_max then 0 else sm_min_slot m)\<rparr>)"

definition scan_slots_of :: "(wal_record \<times> nat) list \<Rightarrow> (slot_index \<times> nat) list" where
  "scan_slots_of xs = map (\<lambda>(r, off). (wr_slot r, off)) (filter (\<lambda>(r, off). wr_slot r \<noteq> 0) xs)"

section \<open>Metadata describes the records\<close>

definition describes :: "segment_meta \<Rightarrow> wal_record list \<Rightarrow> bool" where
  "describes m rs \<longleftrightarrow>
     (\<forall>r \<in> set rs. wr_slot r \<le> sm_max_slot m) \<and>
     (\<forall>r \<in> set rs. wr_term r \<le> sm_max_term m) \<and>
     (sm_max_term m = 0 \<or> (\<exists>r \<in> set rs. wr_term r = sm_max_term m)) \<and>
     (\<forall>r \<in> set rs. wr_type r = RecVoteGranted \<longrightarrow> (\<exists>t. sm_vote_term m = Some t \<and> wr_term r \<le> t)) \<and>
     (\<forall>t. sm_vote_term m = Some t \<longrightarrow> (\<exists>r \<in> set rs. wr_type r = RecVoteGranted \<and> wr_term r = t))"

lemma scan_note_fields:
  "sm_max_slot (scan_note x m) = max (sm_max_slot m) (wr_slot (fst x))"
  "sm_max_term (scan_note x m) = max (sm_max_term m) (wr_term (fst x))"
  "sm_vote_term (scan_note x m) =
     (if wr_type (fst x) = RecVoteGranted
      then Some (case sm_vote_term m of None \<Rightarrow> wr_term (fst x) | Some t \<Rightarrow> max t (wr_term (fst x)))
      else sm_vote_term m)"
  by (auto simp: scan_note_def Let_def max_def)

lemma describes_snoc:
  assumes "describes m rs" and "sm_max_slot m' = max (sm_max_slot m) (wr_slot r)"
    and "sm_max_term m' = max (sm_max_term m) (wr_term r)"
    and "sm_vote_term m' = (if wr_type r = RecVoteGranted
      then Some (case sm_vote_term m of None \<Rightarrow> wr_term r | Some t \<Rightarrow> max t (wr_term r)) else sm_vote_term m)"
  shows "describes m' (rs @ [r])"
  unfolding describes_def
proof (intro conjI)
  note d = assms(1) [unfolded describes_def]
  show "\<forall>x \<in> set (rs @ [r]). wr_slot x \<le> sm_max_slot m'"
    and "\<forall>x \<in> set (rs @ [r]). wr_term x \<le> sm_max_term m'"
    using d assms(2,3) by (simp_all add: le_max_iff_disj)
  show "sm_max_term m' = 0 \<or> (\<exists>x \<in> set (rs @ [r]). wr_term x = sm_max_term m')"
    using d unfolding assms(3) by (auto simp: max_def)
  show "\<forall>x \<in> set (rs @ [r]). wr_type x = RecVoteGranted \<longrightarrow> (\<exists>t. sm_vote_term m' = Some t \<and> wr_term x \<le> t)"
    using d unfolding assms(4) by (fastforce simp: le_max_iff_disj split: option.split)
  show "\<forall>t. sm_vote_term m' = Some t \<longrightarrow> (\<exists>x \<in> set (rs @ [r]). wr_type x = RecVoteGranted \<and> wr_term x = t)"
    using d unfolding assms(4) by (auto simp: max_def split: option.splits if_splits)
qed

lemma scan_fold_describes:
  "describes (fold scan_note xs
     \<lparr> sm_segment_id = seg_id, sm_disk_idx = disk_idx, sm_min_slot = u64_max, sm_max_slot = 0,
       sm_record_count = 0, sm_max_term = 0, sm_vote_term = None \<rparr>) (map fst xs)"
proof (induction xs rule: rev_induct)
  case Nil
  show ?case by (simp add: describes_def)
next
  case (snoc x xs)
  show ?case
    unfolding map_append fold_append comp_def list.map fold.simps
    by (rule describes_snoc [OF snoc]) (simp_all add: scan_note_fields)
qed

lemma scan_meta_describes: "describes (scan_meta disk_idx seg_id xs) (map fst xs)"
  using scan_fold_describes [of xs] unfolding scan_meta_def describes_def Let_def by simp

lemma scan_meta_ids [simp]:
  "sm_segment_id (scan_meta d i xs) = i" "sm_disk_idx (scan_meta d i xs) = d"
proof -
  have "sm_segment_id (fold scan_note xs m) = sm_segment_id m \<and> sm_disk_idx (fold scan_note xs m) = sm_disk_idx m" for m
    by (induction xs arbitrary: m) (simp_all add: scan_note_def Let_def)
  then show "sm_segment_id (scan_meta d i xs) = i" "sm_disk_idx (scan_meta d i xs) = d"
    by (simp_all add: scan_meta_def Let_def)
qed

section \<open>What garbage collection keeps\<close>

lemma last_max_spec:
  "last_max key xs = Some y \<Longrightarrow> y \<in> set xs \<and> (\<forall>x \<in> set xs. key x \<le> key y)"
proof (induction xs arbitrary: y)
  case (Cons x xs)
  show ?case
  proof (cases "last_max key xs")
    case None
    then have "xs = []" by (cases xs) (auto split: option.splits if_splits)
    then show ?thesis using Cons.prems None by simp
  next
    case (Some z)
    then show ?thesis using Cons.prems Cons.IH [of z] by (auto split: if_splits)
  qed
qed simp

lemma last_max_exists: "x \<in> set xs \<Longrightarrow> \<exists>y. last_max key xs = Some y"
  by (cases xs) (auto split: option.split)

lemma kept_term:
  assumes desc: "\<forall>(m, rs) \<in> set segs. describes m rs"
    and elig: "set removed \<subseteq> set (gc_eligible gc_slot (map fst segs))"
    and r: "(m, rs) \<in> set segs" "r \<in> set rs" "wr_term r \<noteq> 0"
  obtains m' rs' r' where "(m', rs') \<in> set segs" and "m' \<notin> set removed" and "r' \<in> set rs'"
    and "wr_term r \<le> wr_term r'"
proof -
  obtain m' where m': "last_max (\<lambda>m. (sm_max_term m, sm_segment_id m)) (map fst segs) = Some m'"
    using last_max_exists [of m "map fst segs"] r(1) by force
  from last_max_spec [OF m'] have in_segs: "m' \<in> set (map fst segs)"
    and "(sm_max_term m, sm_segment_id m) \<le> (sm_max_term m', sm_segment_id m')"
    using r(1) by force+
  then have le: "sm_max_term m \<le> sm_max_term m'" by (auto simp: less_eq_prod_def)
  obtain rs' where rs': "(m', rs') \<in> set segs" using in_segs by auto
  have "wr_term r \<le> sm_max_term m" using desc r(1,2) by (auto simp: describes_def)
  then have lr: "wr_term r \<le> sm_max_term m'" using le by (rule order_trans)
  moreover from this have "sm_max_term m' \<noteq> 0" using r(3) by auto
  ultimately obtain r' where "r' \<in> set rs'" "wr_term r' = sm_max_term m'"
    using desc rs' by (auto simp: describes_def)
  moreover have "Some (sm_segment_id m') = term_segment (map fst segs)"
    using m' by (simp add: term_segment_def)
  then have "m' \<notin> set removed" using elig by (auto simp: gc_eligible_def)
  ultimately show thesis using that rs' lr by simp
qed

lemma kept_vote:
  assumes desc: "\<forall>(m, rs) \<in> set segs. describes m rs"
    and elig: "set removed \<subseteq> set (gc_eligible gc_slot (map fst segs))"
    and r: "(m, rs) \<in> set segs" "r \<in> set rs" "wr_type r = RecVoteGranted"
  obtains m' rs' r' where "(m', rs') \<in> set segs" and "m' \<notin> set removed" and "r' \<in> set rs'"
    and "wr_type r' = RecVoteGranted" and "wr_term r \<le> wr_term r'"
proof -
  let ?votes = "List.map_filter (\<lambda>m. map_option (\<lambda>t. (t, sm_segment_id m)) (sm_vote_term m)) (map fst segs)"
  have "describes m rs" using desc r(1) by blast
  then obtain t where t: "sm_vote_term m = Some t" "wr_term r \<le> t"
    using r(2,3) unfolding describes_def by blast
  then have in_votes: "(t, sm_segment_id m) \<in> set ?votes"
    using r(1) by (force simp: in_set_map_filter)
  from last_max_exists [OF this, of id] obtain v where v: "last_max id ?votes = Some v" by (rule exE)
  note max = last_max_spec [OF v]
  then have "v \<in> set ?votes" by (rule conjunct1)
  have "(t, sm_segment_id m) \<le> v" using bspec [OF conjunct2 [OF max] in_votes] by (simp only: id_apply)
  obtain m' where m': "m' \<in> set (map fst segs)" "sm_vote_term m' = Some (fst v)" "sm_segment_id m' = snd v"
    using \<open>v \<in> set ?votes\<close> unfolding in_set_map_filter by (auto simp del: set_map)
  have tv: "t \<le> fst v" using \<open>(t, sm_segment_id m) \<le> v\<close> by (auto simp: less_eq_prod_def)
  obtain rs' where rs': "(m', rs') \<in> set segs" using m'(1) by auto
  then have "describes m' rs'" using desc by blast
  then obtain r' where "r' \<in> set rs'" "wr_type r' = RecVoteGranted" "wr_term r' = fst v"
    using m'(2) unfolding describes_def by blast
  moreover have "Some (sm_segment_id m') = vote_segment (map fst segs)"
    unfolding vote_segment_def v m'(3) by simp
  then have "m' \<notin> set removed" using elig by (auto simp: gc_eligible_def)
  ultimately show thesis using that rs' order_trans [OF t(2) tv] by simp
qed

definition segments_log :: "(segment_meta \<times> wal_record list) list \<Rightarrow> wal_record list" where
  "segments_log segs = concat (map snd segs)"

definition surviving ::
    "segment_meta list \<Rightarrow> (segment_meta \<times> wal_record list) list \<Rightarrow> (segment_meta \<times> wal_record list) list" where
  "surviving removed segs = filter (\<lambda>(m, rs). m \<notin> set removed) segs"

lemma segments_logE:
  assumes "r \<in> set (segments_log segs)"
  obtains m rs where "(m, rs) \<in> set segs" and "r \<in> set rs"
  using assms by (auto simp: segments_log_def)

lemma surviving_logI:
  "(m, rs) \<in> set segs \<Longrightarrow> m \<notin> set removed \<Longrightarrow> r \<in> set rs \<Longrightarrow> r \<in> set (segments_log (surviving removed segs))"
  by (force simp: segments_log_def surviving_def)

lemma gc_log_subset: "set (segments_log (surviving removed segs) @ active) \<subseteq> set (segments_log segs @ active)"
  by (auto simp: segments_log_def surviving_def)

lemma gc_term:
  assumes "\<forall>(m, rs) \<in> set segs. describes m rs" and "set removed \<subseteq> set (gc_eligible gc_slot (map fst segs))"
  shows "rr_current_term (replay_scan (segments_log (surviving removed segs) @ active)) =
    rr_current_term (replay_scan (segments_log segs @ active))" (is "?t' = ?t")
proof (rule antisym [OF scan_term_mono [OF gc_log_subset]])
  show "?t \<le> ?t'"
  proof (cases "?t = 0")
    case False
    then obtain r where r: "r \<in> set (segments_log segs @ active)" "wr_term r = ?t"
      using scan_term_attained by blast
    have "\<exists>r' \<in> set (segments_log (surviving removed segs) @ active). wr_term r \<le> wr_term r'"
    proof (cases "r \<in> set active")
      case False
      then have "r \<in> set (segments_log segs)" using r(1) by simp
      then obtain m rs where "(m, rs) \<in> set segs" "r \<in> set rs" by (rule segments_logE)
      moreover have "wr_term r \<noteq> 0" using r(2) \<open>?t \<noteq> 0\<close> by simp
      ultimately obtain m' rs' r' where "(m', rs') \<in> set segs" "m' \<notin> set removed" "r' \<in> set rs'" "wr_term r \<le> wr_term r'"
        by (rule kept_term [OF assms])
      then show ?thesis using surviving_logI by (intro bexI [of _ r']) simp_all
    qed auto
    then show ?thesis using scan_term_bound r(2) by (metis order_trans)
  qed simp
qed

lemma gc_vote:
  assumes "\<forall>(m, rs) \<in> set segs. describes m rs" and "set removed \<subseteq> set (gc_eligible gc_slot (map fst segs))"
    and votes: "single_votes (segments_log segs @ active)"
  shows "rr_voted_for (replay_scan (segments_log (surviving removed segs) @ active)) =
    rr_voted_for (replay_scan (segments_log segs @ active))"
proof (cases rule: scan_vote_cases [of "segments_log segs @ active"])
  case none
  then have "rr_voted_for (replay_scan (segments_log (surviving removed segs) @ active)) = None"
    unfolding gc_term [OF assms(1,2), symmetric, of active]
    by (intro scan_voted_for_none ballI) (meson gc_log_subset subsetD)
  then show ?thesis using scan_voted_for_none [OF none] by simp
next
  case (some r)
  let ?t = "rr_current_term (replay_scan (segments_log segs @ active))"
  let ?L' = "segments_log (surviving removed segs) @ active"
  have "\<exists>r' \<in> set ?L'. wr_type r' = RecVoteGranted \<and> wr_term r \<le> wr_term r'"
  proof (cases "r \<in> set active")
    case False
    then have "r \<in> set (segments_log segs)" using some(1) by simp
    then obtain m rs where "(m, rs) \<in> set segs" "r \<in> set rs" by (rule segments_logE)
    then obtain m' rs' r' where "(m', rs') \<in> set segs" "m' \<notin> set removed" "r' \<in> set rs'"
      "wr_type r' = RecVoteGranted" "wr_term r \<le> wr_term r'"
      using some(2) by (rule kept_vote [OF assms(1,2)])
    then show ?thesis using surviving_logI by (intro bexI [of _ r']) simp_all
  qed (use some in auto)
  then obtain r' where r': "r' \<in> set ?L'" "wr_type r' = RecVoteGranted" "wr_term r \<le> wr_term r'" by blast
  have in_all: "r' \<in> set (segments_log segs @ active)" using r'(1) gc_log_subset by blast
  then have "wr_term r' \<le> ?t" by (rule scan_term_bound)
  then have t': "wr_term r' = ?t" using r'(3) some(3) by simp
  have "single_votes ?L'" using votes gc_log_subset unfolding single_votes_def by (meson subsetD)
  then have "rr_voted_for (replay_scan ?L') = voted_for_id r'"
    using r'(1,2) t' by (intro scan_voted_for) (simp_all add: gc_term [OF assms(1,2)])
  moreover have "voted_for_id r' = voted_for_id r"
    using t' some r'(2) by (intro single_votesD [OF votes in_all]) simp_all
  ultimately show ?thesis using scan_voted_for [OF votes some] by simp
qed

lemma gc_slots:
  assumes "\<forall>(m, rs) \<in> set segs. describes m rs" and "set removed \<subseteq> set (gc_eligible gc_slot (map fst segs))"
    and det: "ballots_determine (set (segments_log segs @ active))" and "gc_slot \<le> slot"
  shows "om_get (rr_slots (replay_scan (segments_log (surviving removed segs) @ active))) (slot, ty) =
    om_get (rr_slots (replay_scan (segments_log segs @ active))) (slot, ty)"
proof -
  let ?L = "segments_log segs @ active" and ?L' = "segments_log (surviving removed segs) @ active"
  have "r \<in> set ?L'" if r: "r \<in> set ?L" "wr_slot r = slot" for r
  proof (rule ccontr)
    assume gone: "r \<notin> set ?L'"
    then have "r \<in> set (segments_log segs)" using r(1) by simp
    then obtain m rs where m: "(m, rs) \<in> set segs" "r \<in> set rs" by (rule segments_logE)
    then have "m \<in> set removed" using gone surviving_logI by fastforce
    note m = m this
    then have "wr_slot r \<le> sm_max_slot m" using assms(1) by (auto simp: describes_def)
    moreover have "sm_max_slot m < gc_slot" using m(3) assms(2) by (auto simp: gc_eligible_def)
    ultimately show False using r(2) assms(4) by simp
  qed
  then have same: "slot_records (set ?L') (slot, ty) = slot_records (set ?L) (slot, ty)"
    using gc_log_subset [of removed segs active] by (auto simp: slot_records_def slot_key_def)
  show ?thesis
    using scan_slots [of ?L "(slot, ty)"] scan_slots [of ?L' "(slot, ty)"]
      best_of_unique [OF det, of "(slot, ty)"]
    unfolding same by (auto simp: best_of_def split: option.splits)
qed

section \<open>Properties\<close>

text \<open>C10 Garbage collection of the log does not change what a restart recovers. Given segments whose
  metadata describes their records, and the records of the active segments, let any of the segments
  eligible at a watermark be unlinked. When the log holds at most one vote per term and the ballot of
  a record determines it within its slot and type, the recovered term is the same, the recovered vote is the
  same, and for every slot at or above the watermark the recovered promise and accepted entry are
  the same. The metadata that replay computes while it scans a segment describes it.\<close>

theorem gc_preserves_recovery:
  assumes "\<forall>(m, rs) \<in> set segs. describes m rs"
    and "set removed \<subseteq> set (gc_eligible gc_slot (map fst segs))"
    and "single_votes (segments_log segs @ active)" and "ballots_determine (set (segments_log segs @ active))"
    and "before = replay_scan (segments_log segs @ active)"
    and "after = replay_scan (segments_log (surviving removed segs) @ active)"
  shows "rr_current_term after = rr_current_term before \<and> rr_voted_for after = rr_voted_for before \<and>
    (gc_slot \<le> slot \<longrightarrow> om_get (rr_slots after) (slot, ty) = om_get (rr_slots before) (slot, ty)) \<and>
    describes (scan_meta disk_idx seg_id xs) (map fst xs)"
  using gc_term [OF assms(1,2)] gc_vote [OF assms(1-3)] gc_slots [OF assms(1,2,4)] scan_meta_describes
  unfolding assms(5,6) by simp

definition demo_segment :: "u64 \<Rightarrow> wal_record list \<Rightarrow> segment_meta \<times> wal_record list" where
  "demo_segment i rs = (scan_meta 0 i (map (\<lambda>r. (r, 22)) rs), rs)"

definition demo_segments :: "(segment_meta \<times> wal_record list) list" where
  "demo_segments =
     [demo_segment 1 [from_promised 1 1 3 (PxBallot 1 2), from_vote_granted 1 2 9],
      demo_segment 2 [from_accepted 1 (demo_entry 4 1 2 1)],
      demo_segment 3 [from_promised 1 2 9 (PxBallot 2 2)]]"

lemma demo_segment_describes: "demo_segment i rs = (m, rs') \<Longrightarrow> describes m rs'"
  using scan_meta_describes [of 0 i "map (\<lambda>r. (r, 22)) rs"] by (auto simp: demo_segment_def comp_def)

lemma gc_preserves_recovery_witness:
  "gc_eligible 8 (map fst demo_segments) = [fst (demo_segments ! 1)] \<and>
   rr_voted_for (replay_scan (segments_log (surviving [fst (demo_segments ! 1)] demo_segments) @ [])) = Some 9"
proof -
  have elig: "gc_eligible 8 (map fst demo_segments) = [fst (demo_segments ! 1)]" by code_simp
  then have sub: "set [fst (demo_segments ! 1)] \<subseteq> set (gc_eligible 8 (map fst demo_segments))"
    by (simp only: elig subset_refl)
  have desc: "\<forall>(m, rs) \<in> set demo_segments. describes m rs"
    unfolding demo_segments_def using demo_segment_describes by (metis (no_types, lifting) case_prodI2 set_ConsD empty_iff empty_set)
  have log: "segments_log demo_segments @ [] =
      [from_promised 1 1 3 (PxBallot 1 2), from_vote_granted 1 2 9, from_accepted 1 (demo_entry 4 1 2 1),
       from_promised 1 2 9 (PxBallot 2 2)]"
    by (simp add: segments_log_def demo_segments_def demo_segment_def)
  have votes: "single_votes (segments_log demo_segments @ [])"
    unfolding log by (simp add: single_votes_def from_promised_def from_accepted_def)
  have det: "ballots_determine (set (segments_log demo_segments @ []))"
    unfolding log by (auto simp: ballots_determine_def slot_records_def slot_key_def from_promised_def
        from_accepted_def from_vote_granted_def demo_entry_def)
  have "rr_voted_for (replay_scan (segments_log demo_segments @ [])) = Some 9" unfolding log by code_simp
  then show ?thesis
    using gc_preserves_recovery [OF desc sub votes det refl refl] elig by simp
qed

lemma locate_update:
  assumes "i < length (sx_shards sx)"
  shows "sharded_locate slot (update_shard i f sx) =
    index_locate slot (if shard_for_slot sx slot = i then f (sx_shards sx ! i)
                       else sx_shards sx ! shard_for_slot sx slot)"
proof -
  have "shard_for_slot (update_shard i f sx) slot = shard_for_slot sx slot"
    by (simp add: shard_for_slot_def update_shard_def)
  then show ?thesis unfolding sharded_locate_def using assms by (simp add: update_shard_def)
qed

text \<open>C35 The index finds what the writer put in. The pipeline chosen for a record of the group is the
  shard in which its slot is looked up, so after the writer of that pipeline has indexed a record
  the lookup returns its location, and the lookup of every other slot is unchanged.\<close>

theorem locate_after_insert:
  assumes "wr_group_id r = sx_group_id sx" and "sx_shards sx \<noteq> []"
    and "i = select_pipeline (length (sx_shards sx)) r"
  shows "\<exists>sx'. sharded_insert i (wr_slot r) loc sx = Some sx' \<and> sharded_locate (wr_slot r) sx' = Some loc \<and>
    (\<forall>slot. slot \<noteq> wr_slot r \<longrightarrow> sharded_locate slot sx' = sharded_locate slot sx)"
proof -
  have i: "i < length (sx_shards sx)" using assms(2,3) by (simp add: select_pipeline_def Let_def)
  have same: "shard_for_slot sx (wr_slot r) = i"
  proof (cases "length (sx_shards sx) = 1")
    case False
    then have "\<not> length (sx_shards sx) \<le> 1" using assms(2) by (simp add: le_Suc_eq)
    then show ?thesis using False assms(1,3) by (simp add: shard_for_slot_def select_pipeline_def Let_def)
  qed (use assms(3) in \<open>simp add: shard_for_slot_def select_pipeline_def\<close>)
  let ?sx = "update_shard i (index_insert (wr_slot r) loc) sx"
  have locate: "sharded_locate slot ?sx =
      (if shard_for_slot sx slot = i \<and> slot = wr_slot r then Some loc else sharded_locate slot sx)" for slot
    unfolding locate_update [OF i] unfolding sharded_locate_def
    by (auto simp: index_locate_def index_insert_def)
  show ?thesis using i same by (simp add: sharded_insert_def locate)
qed

lemma locate_after_insert_witness:
  "let sx = \<lparr> sx_shards = replicate 3 index_new, sx_group_id = 1 \<rparr>;
       r = from_promised 1 1 12 (PxBallot 1 2); loc = \<lparr> sl_disk_idx = 0, sl_segment_id = 4, sl_file_offset = 22 \<rparr>
   in select_pipeline 3 r = sl_disk_idx loc \<and>
     (\<exists>sx'. sharded_insert (select_pipeline 3 r) 12 loc sx = Some sx' \<and> sharded_locate 12 sx' = Some loc)"
proof -
  let ?sx = "\<lparr> sx_shards = replicate 3 index_new, sx_group_id = 1 \<rparr>"
  let ?r = "from_promised 1 1 12 (PxBallot 1 2)"
  let ?loc = "\<lparr> sl_disk_idx = 0, sl_segment_id = 4, sl_file_offset = 22 \<rparr>"
  have h: "wr_group_id ?r = sx_group_id ?sx" "sx_shards ?sx \<noteq> []"
    "select_pipeline 3 ?r = select_pipeline (length (sx_shards ?sx)) ?r"
    by (simp_all add: from_promised_def)
  have slot: "wr_slot ?r = 12" by (simp add: from_promised_def)
  from locate_after_insert [OF h, of ?loc] obtain sx' where
    "sharded_insert (select_pipeline 3 ?r) 12 ?loc ?sx = Some sx'" "sharded_locate 12 sx' = Some ?loc"
    unfolding slot by (elim exE conjE)
  moreover have "select_pipeline 3 ?r = sl_disk_idx ?loc"
    by (simp add: select_pipeline_def from_promised_def Let_def)
  ultimately show ?thesis unfolding Let_def by (intro exI conjI)
qed

end
