(* ===== verification/Wal_Recover.thy ===== *)
theory Wal_Recover
  imports Wal_Index
begin

text \<open>
  Replay of the log of a group (\<open>wal/replay.rs\<close>): discovery of the segment files on all disks,
  the scan of each in the order of the segment ids, the decision between truncating a torn
  segment and giving up, and the rebuilt index. Directory reads succeed; a file that was listed
  can be read. The files that a replay removed or cut short before it gave up are not part of its
  error result.
\<close>

section \<open>Discovery\<close>

record segment_file =
  gf_disk :: nat
  gf_id :: u64
  gf_path :: string
  gf_content :: bytes

text \<open>A disk is its path with the entries of the group's directory, if that exists.\<close>

type_synonym disk = "string \<times> (bytes \<times> bytes) list option"

definition discover_entry :: "u64 \<Rightarrow> nat \<Rightarrow> string \<Rightarrow> bytes \<times> bytes \<Rightarrow> segment_file option" where
  "discover_entry group_id disk_idx disk_path entry =
     (if utf8_error (fst entry) \<noteq> None then None
      else map_option (\<lambda>seg_id.
             \<lparr> gf_disk = disk_idx, gf_id = seg_id,
               gf_path = disk_path @ ''/group'' @ text_of (dec_str (unat group_id)) @ ''/'' @ text_of (fst entry),
               gf_content = snd entry \<rparr>) (parse_segment_filename (fst entry)))"

definition discover :: "u64 \<Rightarrow> disk list \<Rightarrow> segment_file list" where
  "discover group_id disks =
     sort_key gf_id (concat (map (\<lambda>(i, path, dir).
       case dir of None \<Rightarrow> [] | Some es \<Rightarrow> List.map_filter (discover_entry group_id i path) es)
       (enumerate 0 disks)))"

definition disk_tail :: "segment_file list \<Rightarrow> nat \<Rightarrow> u64" where
  "disk_tail files d = fold (\<lambda>f t. if gf_disk f = d then max t (gf_id f) else t) files 0"

section \<open>Replay of one segment\<close>

datatype file_effect = FileRemoved string | FileTruncated string nat

record replay_state =
  ry_records :: replay_records
  ry_index :: segment_index
  ry_max_segment_id :: u64
  ry_effects :: "file_effect list"

definition replay_state_new :: replay_state where
  "replay_state_new = \<lparr> ry_records = replay_records_default, ry_index = index_new,
     ry_max_segment_id = 0, ry_effects = [] \<rparr>"

fun record_error_text :: "record_error \<Rightarrow> string" where
  "record_error_text Truncated = ''truncated record''"
| "record_error_text (BadCrc expected got) =
     ''CRC mismatch: expected '' @ hex_alt (unat expected) @ '', got '' @ hex_alt (unat got)"
| "record_error_text (BadMagic m) = ''bad magic: '' @ hex_alt (unat m)"
| "record_error_text (BadVersion v) = ''bad version: '' @ text_of (dec_str (unat v))"
| "record_error_text (BadRecordType t) = ''bad record type: '' @ text_of (dec_str (unat t))"
| "record_error_text (BadText msg) = ''bad text record: '' @ msg"

definition index_segment :: "segment_file \<Rightarrow> (wal_record \<times> nat) list \<Rightarrow> segment_index \<Rightarrow> segment_index" where
  "index_segment sf xs ix =
     register_segment (scan_meta (gf_disk sf) (gf_id sf) xs)
       (fold (\<lambda>(slot, off). index_insert slot
          \<lparr> sl_disk_idx = gf_disk sf, sl_segment_id = gf_id sf, sl_file_offset = off \<rparr>)
          (scan_slots_of xs) ix)"

definition replay_segment ::
    "(bytes \<Rightarrow> u32) \<Rightarrow> (nat \<Rightarrow> u64) \<Rightarrow> bool \<Rightarrow> segment_file \<Rightarrow> replay_state \<Rightarrow> io_error + replay_state" where
  "replay_segment crc tails is_last sf st0 =
     (let st = st0\<lparr>ry_max_segment_id := max (ry_max_segment_id st0) (gf_id sf)\<rparr> in
      case reader_open (gf_path sf) (gf_content sf) of
        Inl (IoError kind msg) \<Rightarrow>
          if gf_id sf = tails (gf_disk sf) \<and> gf_content sf = []
          then Inr (st\<lparr>ry_effects := ry_effects st @ [FileRemoved (gf_path sf)]\<rparr>)
          else Inl (IoError kind (''cannot recover WAL segment '' @ gf_path sf @ '': '' @ msg))
      | Inr rd \<Rightarrow>
          let is_sealed = read_footer crc rd \<noteq> None;
              (xs, err) = scan_records crc rd;
              done = st\<lparr>ry_records := fold (\<lambda>x. replay_push (fst x)) xs (ry_records st),
                        ry_index := index_segment sf xs (ry_index st)\<rparr>
          in case err of
               None \<Rightarrow> Inr done
             | Some (e, off) \<Rightarrow>
                 if is_sealed \<and> \<not> is_last
                 then Inl (IoError InvalidData (''critical: corruption in sealed segment '' @ gf_path sf @
                        '' at offset '' @ text_of (dec_str off) @ '': '' @ record_error_text e @
                        ''. next step: fail node out of group and rebuild from peers.''))
                 else Inr (done\<lparr>ry_effects := ry_effects done @ [FileTruncated (gf_path sf) off]\<rparr>))"

fun replay_segments ::
    "(bytes \<Rightarrow> u32) \<Rightarrow> (nat \<Rightarrow> u64) \<Rightarrow> segment_file list \<Rightarrow> replay_state \<Rightarrow> io_error + replay_state" where
  "replay_segments crc tails [] st = Inr st"
| "replay_segments crc tails (sf # sfs) st =
     bind_sum (replay_segment crc tails (sfs = []) sf st) (replay_segments crc tails sfs)"

record replay_result =
  rp_records :: "wal_record list"
  rp_index :: segment_index
  rp_max_segment_id :: u64
  rp_current_term :: u64
  rp_voted_for :: "node_id option"
  rp_effects :: "file_effect list"

definition replay_group :: "(bytes \<Rightarrow> u32) \<Rightarrow> disk list \<Rightarrow> u64 \<Rightarrow> io_error + replay_result" where
  "replay_group crc disks group_id =
     (let files = discover group_id disks in
      map_sum id (\<lambda>st.
        \<lparr> rp_records = into_records (ry_records st), rp_index = ry_index st,
          rp_max_segment_id = ry_max_segment_id st, rp_current_term = rr_current_term (ry_records st),
          rp_voted_for = rr_voted_for (ry_records st), rp_effects = ry_effects st \<rparr>)
        (replay_segments crc (disk_tail files) files replay_state_new))"

section \<open>Segments as a crash leaves them\<close>

text \<open>A segment file as it was written, cut at some byte behind its header.\<close>

record crashed_segment =
  cs_records :: "wal_record list"
  cs_sealed :: bool
  cs_padding :: nat
  cs_cut :: nat

definition crashed_content ::
    "(bytes \<Rightarrow> u32) \<Rightarrow> (u32 \<Rightarrow> bytes \<Rightarrow> u32) \<Rightarrow> u64 \<Rightarrow> u64 \<Rightarrow> crashed_segment \<Rightarrow> bytes" where
  "crashed_content crc upd sid gid c =
     take (cs_cut c) (sg_file (written_segment crc upd sid gid (cs_records c) (cs_sealed c)) @
       replicate (cs_padding c) 0)"

definition recovered :: "crashed_segment \<Rightarrow> wal_record list" where
  "recovered c = complete_records 22 (cs_cut c) (cs_records c)"

definition crashed_ok :: "crashed_segment \<Rightarrow> bool" where
  "crashed_ok c \<longleftrightarrow> 22 \<le> cs_cut c \<and> list_all reader_fits (cs_records c)"

text \<open>All record bytes survived.\<close>

definition whole :: "crashed_segment \<Rightarrow> bool" where
  "whole c \<longleftrightarrow> 22 + records_len (cs_records c) \<le> cs_cut c"

text \<open>Discovery reads the id back from every name the writer gives a segment.\<close>

lemma parse_zeros: "parse_digits 10 m 0 (replicate k 48 @ s) = parse_digits 10 m 0 s"
  using to_digit_dec [of 0 10] by (induction k) simp_all

lemma segment_filename_roundtrip [simp]: "parse_segment_filename (segment_filename w) = Some w"
proof -
  let ?d = "dec_str (unat w)"
  let ?s = "replicate (7 - length ?d) 48 @ ?d"
  have "\<forall>c \<in> set ?s. 48 \<le> c" using dec_str_digits by auto
  then have "parse_uint 10 18446744073709551615 ?s = parse_digits 10 18446744073709551615 0 ?s"
    by (intro parse_uint_digits) simp_all
  also have "\<dots> = Inr (unat w)"
    unfolding parse_zeros by (rule parse_dec_str) (use unat_bound [of w] in simp)
  finally have n: "parse_uint 10 18446744073709551615 ?s = Inr (unat w)" .
  have name: "segment_filename w = asc ''seg-'' @ ?s @ asc ''.ck''"
    by (simp add: segment_filename_def Let_def)
  have len: "length (asc ''seg-'') = 4" "length (asc ''.ck'') = 3" by (simp_all add: asc_def)
  have "drop 4 (segment_filename w) = ?s @ asc ''.ck''"
    unfolding name using len(1) by (metis append_eq_conv_conj)
  moreover have "take (length (?s @ asc ''.ck'') - 3) (?s @ asc ''.ck'') = ?s" using len(2) by simp
  moreover have "prefix (asc ''seg-'') (segment_filename w)" unfolding name by simp
  moreover have "suffix (asc ''.ck'') (?s @ asc ''.ck'')" by (simp add: suffix_def)
  ultimately show ?thesis using n by (simp only: parse_segment_filename_def Let_def) simp
qed

lemma whole_recovered: "whole c \<Longrightarrow> recovered c = cs_records c"
  by (simp add: whole_def recovered_def complete_records_all)

lemma fold_push_scan: "fold (\<lambda>x. replay_push (fst x)) xs (replay_scan rs) = replay_scan (rs @ map fst xs)"
  by (simp add: replay_scan_def fold_map comp_def)

definition looks_unsealed :: "(bytes \<Rightarrow> u32) \<Rightarrow> bytes \<Rightarrow> bool" where
  "looks_unsealed crc file \<longleftrightarrow> (\<forall>rd. rd_file rd = file \<longrightarrow> read_footer crc rd = None)"

lemma reader_open_file: "reader_open path file = Inr rd \<Longrightarrow> rd_file rd = file"
  by (auto simp: reader_open_def bind_sum_def split: if_splits option.splits sum.splits)

lemma replay_segment_crashed:
  assumes law: "crc_law crc upd" and ok: "crashed_ok c"
    and content: "gf_content sf = crashed_content crc upd (gf_id sf) gid c"
    and torn: "whole c \<or> is_last \<or> looks_unsealed crc (gf_content sf)"
    and st: "ry_records st = replay_scan rs"
  obtains st' where "replay_segment crc tails is_last sf st = Inr st'"
    and "ry_records st' = replay_scan (rs @ recovered c)"
proof -
  have "22 \<le> cs_cut c" "list_all reader_fits (cs_records c)" using ok by (simp_all add: crashed_ok_def)
  from segment_scan [OF law this(2,1), of "gf_path sf" "gf_id sf" gid "cs_sealed c" "cs_padding c"]
  obtain rd where rd: "reader_open (gf_path sf) (gf_content sf) = Inr rd"
    and xs: "map fst (fst (scan_records crc rd)) = recovered c"
    and all: "recovered c = cs_records c \<longrightarrow> snd (scan_records crc rd) = None"
    unfolding content crashed_content_def recovered_def Let_def by blast
  have clean: "snd (scan_records crc rd) = None \<or> \<not> (read_footer crc rd \<noteq> None \<and> \<not> is_last)"
    using torn
  proof (elim disjE)
    assume "whole c"
    then show ?thesis using all by (simp add: whole_recovered)
  next
    assume "looks_unsealed crc (gf_content sf)"
    then show ?thesis using reader_open_file [OF rd] by (simp add: looks_unsealed_def)
  qed simp
  have push: "fold (\<lambda>x. replay_push (fst x)) (fst (scan_records crc rd)) (ry_records st) =
      replay_scan (rs @ recovered c)"
    unfolding st fold_push_scan xs ..
  have "\<exists>st'. replay_segment crc tails is_last sf st = Inr st' \<and> ry_records st' = replay_scan (rs @ recovered c)"
  proof (cases "snd (scan_records crc rd)")
    case None
    then show ?thesis using push by (simp add: replay_segment_def rd Let_def case_prod_unfold)
  next
    case (Some e)
    then have "\<not> (read_footer crc rd \<noteq> None \<and> \<not> is_last)" using clean by simp
    then show ?thesis using push Some by (auto simp: replay_segment_def rd Let_def case_prod_unfold)
  qed
  then show thesis using that by blast
qed

text \<open>The segments in scan order, each with what the crash left of it: a torn segment is the last
  one or does not look sealed.\<close>

fun recoverable ::
    "(bytes \<Rightarrow> u32) \<Rightarrow> (u32 \<Rightarrow> bytes \<Rightarrow> u32) \<Rightarrow> u64 \<Rightarrow> (segment_file \<times> crashed_segment) list \<Rightarrow> bool" where
  "recoverable crc upd gid [] \<longleftrightarrow> True"
| "recoverable crc upd gid ((sf, c) # rest) \<longleftrightarrow>
     crashed_ok c \<and> gf_content sf = crashed_content crc upd (gf_id sf) gid c \<and>
     (whole c \<or> rest = [] \<or> looks_unsealed crc (gf_content sf)) \<and>
     recoverable crc upd gid rest"

lemma replay_segments_crashed:
  assumes "crc_law crc upd" and "recoverable crc upd gid fs" and "ry_records st = replay_scan rs"
  shows "\<exists>st'. replay_segments crc tails (map fst fs) st = Inr st' \<and>
    ry_records st' = replay_scan (rs @ concat (map (recovered \<circ> snd) fs))"
  using assms(2,3)
proof (induction fs arbitrary: st rs)
  case (Cons f fs)
  obtain sf c where f: "f = (sf, c)" by fastforce
  have "whole c \<or> map fst fs = [] \<or> looks_unsealed crc (gf_content sf)"
    and "crashed_ok c" "gf_content sf = crashed_content crc upd (gf_id sf) gid c"
    using Cons.prems(1) unfolding f recoverable.simps map_is_Nil_conv by blast+
  then obtain st1 where st1: "replay_segment crc tails (map fst fs = []) sf st = Inr st1"
    "ry_records st1 = replay_scan (rs @ recovered c)"
    using replay_segment_crashed [OF assms(1) _ _ _ Cons.prems(2)] by metis
  have "recoverable crc upd gid fs" using Cons.prems(1) f by simp
  from Cons.IH [OF this st1(2)] st1(1) show ?case by (simp add: f bind_sum_def)
qed simp

lemma replay_state_new_scan: "ry_records replay_state_new = replay_scan []"
  by (simp add: replay_state_new_def)

section \<open>Properties\<close>

text \<open>C6 A restart recovers exactly the complete records of all segments. If the discovered files
  are segments as the writer left them, each cut at some byte by a crash, and every torn file is
  the last one or does not look sealed, replay succeeds and its term, vote and slot records are
  those of the scan of the complete records of all segments in the order of their ids.\<close>

theorem replay_group_recovers:
  assumes "crc_law crc upd" and "discover gid disks = map fst fs" and "recoverable crc upd gid fs"
    and "scan = replay_scan (concat (map (recovered \<circ> snd) fs))"
  shows "\<exists>res. replay_group crc disks gid = Inr res \<and> rp_records res = into_records scan \<and>
    rp_current_term res = rr_current_term scan \<and> rp_voted_for res = rr_voted_for scan"
proof -
  obtain st where "replay_segments crc (disk_tail (map fst fs)) (map fst fs) replay_state_new = Inr st"
    "ry_records st = replay_scan ([] @ concat (map (recovered \<circ> snd) fs))"
    using replay_segments_crashed [OF assms(1,3) replay_state_new_scan] by blast
  then show ?thesis by (simp add: replay_group_def assms(2,4) Let_def)
qed

definition demo_disks :: "disk list" where
  "demo_disks = [(''d0'', Some [(segment_filename 1,
     crashed_content crc32c crc32c_update 1 7
       \<lparr> cs_records = [from_vote_granted 7 2 9, from_promised 7 2 4 (PxBallot 1 2)],
         cs_sealed = False, cs_padding = 0, cs_cut = 110 \<rparr>)])]"

lemma replay_group_recovers_witness:
  "\<exists>res. replay_group crc32c demo_disks 7 = Inr res \<and> rp_records res = [from_vote_granted 7 2 9] \<and>
     rp_current_term res = 2 \<and> rp_voted_for res = Some 9"
proof -
  let ?c = "\<lparr> cs_records = [from_vote_granted 7 2 9, from_promised 7 2 4 (PxBallot 1 2)],
    cs_sealed = False, cs_padding = 0, cs_cut = 110 \<rparr>"
  let ?sf = "\<lparr> gf_disk = 0, gf_id = 1, gf_path = ''d0/group7/seg-0000001.ck'',
    gf_content = crashed_content crc32c crc32c_update 1 7 ?c \<rparr>"
  have name: "utf8_error (segment_filename 1) = None"
    "text_of (segment_filename 1) = ''seg-0000001.ck''" "text_of (dec_str 7) = ''7''"
    by code_simp+
  have files: "discover 7 demo_disks = map fst [(?sf, ?c)]"
    by (simp add: discover_def demo_disks_def discover_entry_def name List.map_filter_simps)
  have rec: "recovered ?c = [from_vote_granted 7 2 9]"
    by (simp add: recovered_def record_len_def from_vote_granted_def from_promised_def)
  have ok: "recoverable crc32c crc32c_update 7 [(?sf, ?c)]"
    by (simp add: crashed_ok_def reader_fits_def record_fits_def from_vote_granted_def from_promised_def
        footer_magic_def)
  have scan: "into_records (replay_scan [from_vote_granted 7 2 9]) = [from_vote_granted 7 2 9]"
    "rr_current_term (replay_scan [from_vote_granted 7 2 9]) = 2"
    "rr_voted_for (replay_scan [from_vote_granted 7 2 9]) = Some 9"
    by code_simp+
  from replay_group_recovers [OF crc32c_law files ok refl]
  show ?thesis by (simp add: rec scan)
qed

text \<open>C36 A client can make a replica unrecoverable. If the payload of the last record of an unsealed
  segment ends with a text footer line and a crash leaves a few bytes of a torn record behind it,
  then replay takes the segment for a sealed one and, unless it happens to be the last segment
  scanned, gives up on the whole group instead of truncating the torn record.\<close>

theorem embedded_footer_aborts_replay:
  assumes law: "crc_law crc upd" and payload: "wr_payload r = a @ encode_text_footer crc 1 1 1"
    and small: "length a \<le> 60000" and fits': "reader_fits r'" and k: "4 \<le> k" "k \<le> 11"
    and content: "gf_content sf = sg_file (written_segment crc upd (gf_id sf) gid [r] False) @
      take k (record_bytes crc upd r')"
  shows "\<exists>msg. replay_segment crc tails False sf st = Inl (IoError InvalidData msg)"
proof -
  have "length (wr_payload r) = length a + 71" by (simp add: payload length_text_footer_ones)
  then have fits: "reader_fits r" using small by (simp add: reader_fits_def record_fits_def footer_magic_def)
  let ?h = "encode_seg_header (gf_id sf) gid" and ?bs = "record_bytes crc upd r"
  have bytes: "gf_content sf = ?h @ ?bs @ take k (record_bytes crc upd r')"
    using seg_appends_file [OF law _ create_binary(3,4), of "[r]" "gf_id sf" gid] fits content
    by (simp add: written_segment_def create_binary seg_header_bytes)
  let ?rd = "\<lparr> rd_file = gf_content sf, rd_header = \<lparr> sh_segment_id = gf_id sf, sh_group_id = gid \<rparr>,
    rd_offset = 22, rd_buffer = buffer_default \<rparr>"
  have opened: "reader_open (gf_path sf) (gf_content sf) = Inr ?rd"
    unfolding bytes by (rule reader_open_binary)
  have ok: "reader_ok ?rd" by (simp add: reader_ok_def)
  have len: "length (?h @ ?bs) = 22 + record_len r" using record_bytes(2) [OF law fits] by (simp add: seg_header_bytes)
  have "record_at crc (rd_file ?rd) (rd_offset ?rd) = (Inr (Some (r, 22)), 22 + record_len r)"
    using record_at_encoded [OF law fits record_bytes(1) [OF law fits], of ?h "take k (record_bytes crc upd r')"]
    by (simp add: bytes seg_header_bytes)
  then obtain rd' where scan: "scan_records crc ?rd = (let (xs, e) = scan_records crc rd' in ((r, 22) # xs, e))"
    and rd': "reader_ok rd'" "rd_file rd' = rd_file ?rd" "rd_offset rd' = 22 + record_len r"
    by (rule scan_step [OF ok])
  have short: "k < length (record_bytes crc upd r')"
    using k record_bytes(2) [OF law fits'] by (simp add: record_len_def)
  have "record_at crc ((?h @ ?bs) @ take k (record_bytes crc upd r')) (length (?h @ ?bs)) =
      (Inl (Truncated, 22 + record_len r), length (?h @ ?bs))"
    using record_at_torn [OF law fits' record_bytes(1) [OF law fits'] short, of "?h @ ?bs"] k len by simp
  then have "record_at crc (rd_file rd') (rd_offset rd') =
      (Inl (Truncated, 22 + record_len r), 22 + record_len r)"
    unfolding len using rd' by (simp add: bytes)
  from scan_corrupt [OF rd'(1) this]
  have err: "scan_records crc ?rd = ([(r, 22)], Some (Truncated, 22 + record_len r))" by (simp add: scan)
  have "read_footer crc ?rd \<noteq> None"
    using embedded_footer [OF law payload small, of ?rd "gf_id sf" gid "take k (record_bytes crc upd r')"]
      content k by simp
  then show ?thesis by (simp add: replay_segment_def opened err Let_def)
qed

lemma embedded_footer_aborts_replay_witness:
  "let r = from_accepted 1 \<lparr> e_slot = 3, e_ballot = PxBallot 0 1, e_term = 1,
             e_payload = encode_text_footer crc32c 1 1 1 \<rparr>;
       sf = \<lparr> gf_disk = 0, gf_id = 1, gf_path = ''seg'',
              gf_content = sg_file (written_segment crc32c crc32c_update 1 1 [r] False) @
                take 4 (record_bytes crc32c crc32c_update (from_promised 1 1 9 (PxBallot 1 2))) \<rparr>
   in \<exists>msg. replay_segment crc32c (\<lambda>_. 1) False sf replay_state_new = Inl (IoError InvalidData msg)"
proof -
  let ?r = "from_accepted 1 \<lparr> e_slot = 3, e_ballot = PxBallot 0 1, e_term = 1,
    e_payload = encode_text_footer crc32c 1 1 1 \<rparr>"
  let ?r' = "from_promised 1 1 9 (PxBallot 1 2)"
  have "wr_payload ?r = [] @ encode_text_footer crc32c 1 1 1" by (simp add: from_accepted_def)
  moreover have "reader_fits ?r'" by (simp add: reader_fits_def record_fits_def from_promised_def footer_magic_def)
  moreover have "length ([] :: bytes) \<le> 60000" "(4 :: nat) \<le> 4" "(4 :: nat) \<le> 11" by simp_all
  ultimately show ?thesis
    unfolding Let_def
    by (intro embedded_footer_aborts_replay [OF crc32c_law, where r = ?r and r' = ?r' and k = 4 and gid = 1
          and a = "[]"]) simp_all
qed

end
