(* ===== verification/Kv_Op.thy ===== *)
theory Kv_Op
  imports Prelude "HOL-Library.Multiset" "HOL-Library.List_Lexorder"
begin

text \<open>
  The payload of a log entry (\<open>kv/op.rs\<close>) and its three encoders (\<open>encode_kv_payload\<close> and
  \<open>encode_kv_batch_items\<close> in \<open>cluster/px_kv_store.rs\<close>, \<open>encode_mutations\<close> in
  \<open>cluster/group_operations.rs\<close>), and the contract of the storage engine (\<open>kv/kv_engine.rs\<close>)
  with the facts that follow from it alone: applying chosen batches in any order gives the
  same key-value state.
\<close>

section \<open>Operations and batches\<close>

datatype kv_op = Put bytes | Delete

record batch_op =
  bo_key :: bytes
  bo_op :: kv_op

datatype kv_cell = Value bytes | Tombstone

definition read_u32_le :: "bytes \<Rightarrow> nat \<Rightarrow> u32" where
  "read_u32_le buf off =
     u32_of_le (if off + 4 \<le> length buf then slice off (off + 4) buf else [0, 0, 0, 0])"

definition take_or_empty :: "bytes \<Rightarrow> nat \<Rightarrow> nat \<Rightarrow> bytes" where
  "take_or_empty buf off n = (if off + n \<le> length buf then slice off (off + n) buf else [])"

fun decode_ops :: "nat \<Rightarrow> bytes \<Rightarrow> nat \<Rightarrow> batch_op list" where
  "decode_ops 0 p off = []"
| "decode_ops (Suc n) p off =
     (if length p \<le> off then []
      else let kind = p ! off;
               key_len = unat (read_u32_le p (off + 1));
               key = take_or_empty p (off + 5) key_len;
               value_off = off + 5 + key_len;
               value_len = unat (read_u32_le p value_off);
               value = take_or_empty p (value_off + 4) value_len
           in \<lparr> bo_key = key, bo_op = (if kind = 0 then Put value else Delete) \<rparr> #
              decode_ops n p (value_off + 4 + value_len))"

definition byte_or_zero :: "bytes \<Rightarrow> nat \<Rightarrow> u8" where
  "byte_or_zero p i = (if i < length p then p ! i else 0)"

definition batch_decode :: "bytes \<Rightarrow> batch_op list" where
  "batch_decode p =
     (if p = [] then []
      else decode_ops (unat (u16_of_le [byte_or_zero p 0, byte_or_zero p 1])) p 2)"

section \<open>Encoders\<close>

definition encode_op :: "bytes \<Rightarrow> bytes option \<Rightarrow> bytes" where
  "encode_op key value_opt =
     [if value_opt = None then 1 else 0] @
     u32_le (of_nat (length key)) @ key @
     u32_le (of_nat (case value_opt of None \<Rightarrow> 0 | Some v \<Rightarrow> length v)) @
     (case value_opt of None \<Rightarrow> [] | Some v \<Rightarrow> v)"

definition encode_kv_payload :: "(bytes \<times> bytes option) list \<Rightarrow> bytes" where
  "encode_kv_payload ops =
     u16_le (of_nat (length ops)) @ concat (map (\<lambda>(k, v). encode_op k v) ops)"

record kv_batch_item =
  kbi_key :: bytes
  kbi_value :: bytes
  kbi_is_delete :: bool

definition encode_batch_item :: "kv_batch_item \<Rightarrow> bytes" where
  "encode_batch_item item =
     [if kbi_is_delete item then 1 else 0] @
     u32_le (of_nat (length (kbi_key item))) @ kbi_key item @
     u32_le (if kbi_is_delete item then 0 else of_nat (length (kbi_value item))) @
     (if kbi_is_delete item then [] else kbi_value item)"

definition encode_kv_batch_items :: "kv_batch_item list \<Rightarrow> bytes" where
  "encode_kv_batch_items items =
     u16_le (of_nat (length items)) @ concat (map encode_batch_item items)"

datatype kv_group_mutation = MutPut bytes bytes | MutDelete bytes

fun mutation_parts :: "kv_group_mutation \<Rightarrow> bytes \<times> bytes option" where
  "mutation_parts (MutPut k v) = (k, Some v)"
| "mutation_parts (MutDelete k) = (k, None)"

definition encode_mutations :: "kv_group_mutation list \<Rightarrow> bytes" where
  "encode_mutations ms =
     u16_le (of_nat (length ms)) @
     concat (map (\<lambda>mut. case mutation_parts mut of (k, v) \<Rightarrow> encode_op k v) ms)"

section \<open>Decoding what was encoded\<close>

definition op_of :: "bytes \<times> bytes option \<Rightarrow> batch_op" where
  "op_of kv = \<lparr> bo_key = fst kv, bo_op = (case snd kv of Some v \<Rightarrow> Put v | None \<Rightarrow> Delete) \<rparr>"

definition op_fits :: "bytes \<times> bytes option \<Rightarrow> bool" where
  "op_fits kv \<longleftrightarrow> length (fst kv) < 2 ^ 32 \<and>
     (case snd kv of Some v \<Rightarrow> length v < 2 ^ 32 | None \<Rightarrow> True)"

definition item_parts :: "kv_batch_item \<Rightarrow> bytes \<times> bytes option" where
  "item_parts item = (kbi_key item, if kbi_is_delete item then None else Some (kbi_value item))"

lemma encode_batch_item_op: "encode_batch_item item = (case item_parts item of (k, v) \<Rightarrow> encode_op k v)"
  by (simp add: encode_batch_item_def encode_op_def item_parts_def)

lemma encode_kv_batch_items_payload:
  "encode_kv_batch_items items = encode_kv_payload (map item_parts items)"
  by (simp add: encode_kv_batch_items_def encode_kv_payload_def comp_def
      encode_batch_item_op cong: map_cong)

lemma encode_mutations_payload:
  "encode_mutations ms = encode_kv_payload (map mutation_parts ms)"
  by (simp add: encode_mutations_def encode_kv_payload_def comp_def)

lemma read_u32_le_app:
  "length pre = off \<Longrightarrow> read_u32_le (pre @ u32_le w @ post) off = w"
  by (auto simp: read_u32_le_def slice_def)

lemma take_or_empty_app:
  "length pre = off \<Longrightarrow> length xs = n \<Longrightarrow> take_or_empty (pre @ xs @ post) off n = xs"
  by (auto simp: take_or_empty_def slice_def)

lemma unat_of_nat_u32: "n < 2 ^ 32 \<Longrightarrow> unat (of_nat n :: u32) = n"
  by (simp add: unat_of_nat take_bit_eq_mod)

lemma decode_ops_step:
  assumes fits: "op_fits kv"
  shows "decode_ops (Suc n) (pre @ encode_op (fst kv) (snd kv) @ post) (length pre) =
    op_of kv # decode_ops n (pre @ encode_op (fst kv) (snd kv) @ post)
      (length (pre @ encode_op (fst kv) (snd kv)))"
proof -
  obtain key vo where kv: "kv = (key, vo)" by (cases kv)
  define v where "v = (case vo of None \<Rightarrow> [] | Some v \<Rightarrow> v)"
  define kind :: u8 where "kind = (if vo = None then 1 else 0)"
  let ?kl = "u32_le (of_nat (length key))" and ?vl = "u32_le (of_nat (length v))"
  let ?p = "pre @ encode_op key vo @ post"
  have lens: "length key < 2 ^ 32" "length v < 2 ^ 32"
    using fits by (auto simp: op_fits_def kv v_def split: option.splits)
  have enc: "encode_op key vo = [kind] @ ?kl @ key @ ?vl @ v"
    by (auto simp: encode_op_def kind_def v_def split: option.split)
  have kl: "unat (read_u32_le ?p (length pre + 1)) = length key"
    using read_u32_le_app [of "pre @ [kind]" "length pre + 1" "of_nat (length key)" "key @ ?vl @ v @ post"]
      lens by (simp add: enc unat_of_nat_u32)
  have k: "take_or_empty ?p (length pre + 5) (length key) = key"
    using take_or_empty_app [of "pre @ [kind] @ ?kl" "length pre + 5" key "length key" "?vl @ v @ post"]
    by (simp add: enc)
  have vl: "unat (read_u32_le ?p (length pre + 5 + length key)) = length v"
    using read_u32_le_app [of "pre @ [kind] @ ?kl @ key" "length pre + 5 + length key"
        "of_nat (length v)" "v @ post"] lens by (simp add: enc unat_of_nat_u32)
  have val: "take_or_empty ?p (length pre + 5 + length key + 4) (length v) = v"
    using take_or_empty_app [of "pre @ [kind] @ ?kl @ key @ ?vl" "length pre + 5 + length key + 4"
        v "length v" post] by (simp add: enc)
  have kd: "?p ! length pre = kind" by (simp add: enc nth_append)
  have inb: "\<not> length ?p \<le> length pre" by (simp add: enc)
  have op: "(if kind = 0 then Put v else Delete) = (case vo of Some v \<Rightarrow> Put v | None \<Rightarrow> Delete)"
    by (simp add: kind_def v_def split: option.split)
  have len: "length (pre @ encode_op key vo) = length pre + 5 + length key + 4 + length v"
    by (simp add: enc)
  show ?thesis
    unfolding kv fst_conv snd_conv decode_ops.simps if_not_P [OF inb] Let_def kl k vl val kd op
      op_of_def len by simp
qed

lemma decode_ops_encoded:
  "list_all op_fits kvs \<Longrightarrow>
   decode_ops (length kvs) (pre @ concat (map (\<lambda>(k, v). encode_op k v) kvs) @ post) (length pre) =
   map op_of kvs"
proof (induction kvs arbitrary: pre)
  case (Cons kv kvs)
  obtain k v where kv: "kv = (k, v)" by (cases kv)
  show ?case
    using decode_ops_step [of kv "length kvs" pre "concat (map (\<lambda>(k, v). encode_op k v) kvs) @ post"]
      Cons.IH [of "pre @ encode_op k v"] Cons.prems by (simp add: kv)
qed simp

lemma u16_count_roundtrip: "n < 2 ^ 16 \<Longrightarrow> unat (of_nat n :: u16) = n"
  by (simp add: unat_of_nat take_bit_eq_mod)

lemma byte_or_zero_u16:
  "[byte_or_zero (u16_le w @ p) 0, byte_or_zero (u16_le w @ p) 1] = u16_le w"
  by (simp add: byte_or_zero_def u16_le_def numeral_2_eq_2)

lemma u16_le_not_Nil [simp]: "u16_le w \<noteq> []"
  by (metis length_0_conv length_u16_le zero_neq_numeral)

lemma batch_decode_counted:
  "batch_decode (u16_le w @ p) = decode_ops (unat w) (u16_le w @ p) 2"
  unfolding batch_decode_def byte_or_zero_u16 by simp

lemma batch_decode_payload_mod:
  assumes "list_all op_fits kvs"
  shows "batch_decode (encode_kv_payload kvs) = map op_of (take (length kvs mod 2 ^ 16) kvs)"
proof -
  let ?n = "length kvs mod 2 ^ 16" and ?w = "of_nat (length kvs) :: u16"
  let ?enc = "\<lambda>kvs. concat (map (\<lambda>(k, v). encode_op k v) kvs)"
  have n: "unat ?w = length (take ?n kvs)"
    by (simp add: unat_of_nat take_bit_eq_mod min_def)
  have "?enc kvs = ?enc (take ?n kvs) @ ?enc (drop ?n kvs)"
    by (metis append_take_drop_id concat_append map_append)
  moreover have "list_all op_fits (take ?n kvs)"
    using assms by (auto simp: list_all_iff dest: in_set_takeD)
  ultimately show ?thesis
    using decode_ops_encoded [of "take ?n kvs" "u16_le ?w" "?enc (drop ?n kvs)"]
    unfolding encode_kv_payload_def batch_decode_counted n by simp
qed

section \<open>The storage engine\<close>

text \<open>
  The contract is the documentation of \<open>KVEngine::apply\<close>: an operation on a key is skipped
  when the slot is not above the slot the key was resolved at, and the last occurrence of a
  repeated key in a batch wins. \<open>mem_apply\<close> is the in-memory engine of the repository
  (\<open>tests/kv_test/mem_kv_impl_test.rs\<close>); the production engine is a C++ tree and only meets
  the contract by assumption.
\<close>

fun cell_of :: "kv_op \<Rightarrow> kv_cell" where
  "cell_of (Put v) = Value v"
| "cell_of Delete = Tombstone"

type_synonym mem_kv = "(bytes, u64 \<times> kv_cell) omap"

definition collapse_ops :: "batch_op list \<Rightarrow> (bytes, kv_op) omap" where
  "collapse_ops ops = fold (\<lambda>bo m. om_put (bo_key bo) (bo_op bo) m) ops []"

definition mem_write :: "u64 \<Rightarrow> bytes \<times> kv_op \<Rightarrow> mem_kv \<Rightarrow> mem_kv" where
  "mem_write slot kop m =
     (case om_get m (fst kop) of
        Some (resolved, c) \<Rightarrow>
          if resolved < slot then om_put (fst kop) (slot, cell_of (snd kop)) m else m
      | None \<Rightarrow> om_put (fst kop) (slot, cell_of (snd kop)) m)"

definition mem_apply :: "u64 \<Rightarrow> batch_op list \<Rightarrow> mem_kv \<Rightarrow> mem_kv" where
  "mem_apply slot ops m = fold (mem_write slot) (collapse_ops ops) m"

definition mem_get :: "mem_kv \<Rightarrow> bytes \<Rightarrow> (u64 \<times> bytes) option" where
  "mem_get m k =
     (case om_get m k of Some (s, Value v) \<Rightarrow> Some (s, v) | Some (s, Tombstone) \<Rightarrow> None | None \<Rightarrow> None)"

definition last_op :: "batch_op list \<Rightarrow> bytes \<Rightarrow> kv_op option" where
  "last_op ops k = map_of (rev (map (\<lambda>bo. (bo_key bo, bo_op bo)) ops)) k"

definition merge_cell :: "u64 \<Rightarrow> kv_op option \<Rightarrow> (u64 \<times> kv_cell) option \<Rightarrow> (u64 \<times> kv_cell) option" where
  "merge_cell slot op old =
     (case op of None \<Rightarrow> old
      | Some w \<Rightarrow>
          (case old of Some (r, c) \<Rightarrow> if r < slot then Some (slot, cell_of w) else old
           | None \<Rightarrow> Some (slot, cell_of w)))"

lemma merge_cell_None [simp]: "merge_cell s None c = c"
  by (simp add: merge_cell_def)

lemma merge_cell_commute:
  "s \<noteq> t \<Longrightarrow> merge_cell s op (merge_cell t op' c) = merge_cell t op' (merge_cell s op c)"
  by (auto simp: merge_cell_def split: option.split)

lemma merge_cell_idem: "merge_cell s op (merge_cell s op c) = merge_cell s op c"
  by (auto simp: merge_cell_def split: option.split)

locale kv_engine =
  fixes apply_batch :: "u64 \<Rightarrow> batch_op list \<Rightarrow> 'e \<Rightarrow> 'e"
    and cell_at :: "'e \<Rightarrow> bytes \<Rightarrow> (u64 \<times> kv_cell) option"
  assumes cell_apply: "cell_at (apply_batch s ops e) k = merge_cell s (last_op ops k) (cell_at e k)"
begin

lemma cell_fold:
  "cell_at (fold (\<lambda>(s, ops). apply_batch s ops) log e) k =
   fold (\<lambda>(s, ops). merge_cell s (last_op ops k)) log (cell_at e k)"
  by (induction log arbitrary: e) (auto simp: cell_apply)

lemma apply_twice: "cell_at (apply_batch s ops (apply_batch s ops e)) k = cell_at (apply_batch s ops e) k"
  by (simp add: cell_apply merge_cell_idem)

lemma apply_any_order:
  assumes "distinct (map fst log)" and "mset log = mset log'"
  shows "cell_at (fold (\<lambda>(s, ops). apply_batch s ops) log e) =
         cell_at (fold (\<lambda>(s, ops). apply_batch s ops) log' e)"
proof (rule ext)
  fix k
  let ?f = "\<lambda>(s, ops). merge_cell s (last_op ops k)"
  have "?f x \<circ> ?f y = ?f y \<circ> ?f x" if "x \<in> set log" "y \<in> set log" for x y
  proof (cases "fst x = fst y")
    case True
    then have "x = y" using assms(1) that by (metis distinct_map inj_onD)
    then show ?thesis by simp
  next
    case False
    then show ?thesis by (auto simp: fun_eq_iff merge_cell_commute split: prod.split)
  qed
  then have "fold ?f log = fold ?f log'" using assms(2) by (intro fold_multiset_equiv) auto
  then show "cell_at (fold (\<lambda>(s, ops). apply_batch s ops) log e) k =
             cell_at (fold (\<lambda>(s, ops). apply_batch s ops) log' e) k"
    by (simp add: cell_fold)
qed

end

lemma map_of_collapse: "om_get (collapse_ops ops) k = last_op ops k"
proof -
  have "om_get (fold (\<lambda>bo m. om_put (bo_key bo) (bo_op bo) m) ops m) k =
        (case last_op ops k of Some v \<Rightarrow> Some v | None \<Rightarrow> om_get m k)" for m
    by (induction ops arbitrary: m) (auto simp: last_op_def map_add_def split: option.split)
  then show ?thesis by (simp add: collapse_ops_def split: option.split)
qed

lemma collapse_sorted: "om_sorted (collapse_ops ops)"
proof -
  have "om_sorted m \<Longrightarrow> om_sorted (fold (\<lambda>bo m. om_put (bo_key bo) (bo_op bo) m) ops m)" for m
    by (induction ops arbitrary: m) auto
  then show ?thesis by (simp add: collapse_ops_def)
qed

lemma mem_write_get: "om_get (mem_write s (k, op) m) k' =
    (if k' = k then merge_cell s (Some op) (om_get m k) else om_get m k')"
  by (auto simp: mem_write_def merge_cell_def split: option.split)

lemma mem_fold_get:
  "distinct (map fst kvs) \<Longrightarrow>
   om_get (fold (mem_write s) kvs m) k = merge_cell s (map_of kvs k) (om_get m k)"
proof (induction kvs arbitrary: m)
  case (Cons e kvs)
  obtain k0 op where e: "e = (k0, op)" by (cases e)
  have "k0 \<notin> fst ` set kvs" using Cons.prems e by simp
  then have "map_of kvs k0 = None" by (simp add: map_of_eq_None_iff)
  then show ?case using Cons e by (auto simp: mem_write_get)
qed simp

interpretation mem: kv_engine mem_apply om_get
  by unfold_locales
     (simp add: mem_apply_def mem_fold_get map_of_collapse om_sorted_distinct collapse_sorted)

section \<open>Properties\<close>

text \<open>C24 Payload round trip: decoding what any of the three encoders produces gives back the
  operations, in order and with their keys, values and kinds, for every batch of fewer than
  65536 operations whose keys and values are shorter than 4 GiB.\<close>

theorem batch_roundtrip:
  assumes "length ops < 65536" and "list_all op_fits ops"
    and "ops = map item_parts items" and "ops = map mutation_parts muts"
  shows "batch_decode (encode_kv_payload ops) = map op_of ops \<and>
         batch_decode (encode_kv_batch_items items) = map op_of ops \<and>
         batch_decode (encode_mutations muts) = map op_of ops"
proof -
  have "batch_decode (encode_kv_payload ops) = map op_of ops"
    using batch_decode_payload_mod [OF assms(2)] assms(1) by simp
  then show ?thesis
    unfolding encode_kv_batch_items_payload encode_mutations_payload
      assms(3) [symmetric] assms(4) [symmetric] by simp
qed

lemma batch_roundtrip_witness:
  "batch_decode (encode_mutations [MutPut [1, 2] [7], MutDelete [3]]) =
     [\<lparr> bo_key = [1, 2], bo_op = Put [7] \<rparr>, \<lparr> bo_key = [3], bo_op = Delete \<rparr>]"
proof -
  let ?ops = "[([1, 2], Some [7]), ([3], None)] :: (bytes \<times> bytes option) list"
  let ?items = "[\<lparr> kbi_key = [1, 2], kbi_value = [7], kbi_is_delete = False \<rparr>,
    \<lparr> kbi_key = [3], kbi_value = [9], kbi_is_delete = True \<rparr>]"
  have "length ?ops < 65536" and "list_all op_fits ?ops" by (simp_all add: op_fits_def)
  moreover have "?ops = map item_parts ?items" by (simp add: item_parts_def)
  moreover have "?ops = map mutation_parts [MutPut [1, 2] [7], MutDelete [3]]" by simp
  ultimately have "batch_decode (encode_mutations [MutPut [1, 2] [7], MutDelete [3]]) = map op_of ?ops"
    by (rule batch_roundtrip [THEN conjunct2, THEN conjunct2])
  then show ?thesis by (simp add: op_of_def)
qed

text \<open>C25 The operation count is written as a 16-bit integer without a range check: whatever the
  number of operations, the payload decodes to their first \<open>n mod 65536\<close>. A batch of exactly
  65536 operations is committed and applied as an empty one.\<close>

theorem batch_count_truncated:
  assumes "list_all op_fits ops"
  shows "batch_decode (encode_kv_payload ops) = map op_of (take (length ops mod 65536) ops)"
  using batch_decode_payload_mod [OF assms] by simp

lemma batch_count_truncated_witness:
  "batch_decode (encode_kv_payload (replicate 65536 ([1], None))) = []"
  using batch_count_truncated [of "replicate 65536 ([1], None)"]
  by (simp add: op_fits_def list_all_iff)

text \<open>C26 Replicas converge whatever the order of apply: two engines that apply the same chosen
  batches, each slot once, hold the same cell (slot, value or tombstone) for every key, even
  when the deferred applies complete in different orders; applying a batch again changes
  nothing.\<close>

theorem engine_apply_any_order:
  assumes "distinct (map fst log)" and "mset log = mset log'"
  shows "om_get (fold (\<lambda>(s, ops). mem_apply s ops) log m) =
         om_get (fold (\<lambda>(s, ops). mem_apply s ops) log' m) \<and>
         om_get (mem_apply s ops (mem_apply s ops m)) = om_get (mem_apply s ops m)"
  using mem.apply_any_order [OF assms] mem.apply_twice by (auto simp: fun_eq_iff)

lemma engine_apply_any_order_witness:
  "let w = (\<lambda>v. [\<lparr> bo_key = [1], bo_op = Put [v] \<rparr>]) in
   om_get (fold (\<lambda>(s, ops). mem_apply s ops) [(1, w 1), (2, w 2)] []) =
   om_get (fold (\<lambda>(s, ops). mem_apply s ops) [(2, w 2), (1, w 1)] [])"
  unfolding Let_def by (rule engine_apply_any_order [THEN conjunct1]) simp_all

end
