(* ===== verification/Learner.thy ===== *)
theory Learner
  imports Roles Kv_Op "HOL-Library.Sublist"
begin

text \<open>
  The learner (\<open>paxos/learner.rs\<close>): the chosen and applied frontiers with their maps of slots
  that arrived out of order, the highest chosen slot, the per-client window of request
  results, and the apply of a chosen entry to the engine. The engine is a parameter
  (\<open>kv_iface\<close>): its apply may fail. Calls are modelled whole; the drain ownership flags of
  the source only matter between concurrent drains.
\<close>

section \<open>State\<close>

record 'e kv_iface =
  ki_apply :: "slot_index \<Rightarrow> batch_op list \<Rightarrow> 'e \<Rightarrow> bool \<times> 'e"
  ki_noop :: "slot_index \<Rightarrow> 'e \<Rightarrow> 'e"

record 'e px_learner =
  lr_engine :: 'e
  lr_contiguous_chosen :: slot_index
  lr_contiguous_applied :: slot_index
  lr_last_chosen_slot :: slot_index
  lr_last_chosen_term :: u64
  lr_out_of_order :: "(slot_index, u64) omap"
  lr_applied_out_of_order :: "(slot_index, unit) omap"
  lr_request_results :: "(u64, (u64 \<times> slot_index) list) omap"

definition learner_new :: "'e \<Rightarrow> 'e px_learner" where
  "learner_new e =
     \<lparr> lr_engine = e, lr_contiguous_chosen = 0, lr_contiguous_applied = 0,
       lr_last_chosen_slot = 0, lr_last_chosen_term = 0, lr_out_of_order = [],
       lr_applied_out_of_order = [], lr_request_results = [] \<rparr>"

section \<open>Request results\<close>

definition request_result_window :: nat where
  "request_result_window = 64"

definition window_record :: "u64 \<Rightarrow> slot_index \<Rightarrow> (u64 \<times> slot_index) list \<Rightarrow> (u64 \<times> slot_index) list" where
  "window_record seq slot entries =
     (if list_ex (\<lambda>e. fst e = seq) entries then entries
      else let replacement = entries @ [(seq, slot)]
           in if request_result_window < length replacement then tl replacement else replacement)"

definition window_lookup :: "u64 \<Rightarrow> (u64 \<times> slot_index) list \<Rightarrow> slot_index option" where
  "window_lookup seq entries = map_option snd (find (\<lambda>e. fst e = seq) (rev entries))"

definition request_result_lookup :: "u64 \<Rightarrow> u64 \<Rightarrow> 'e px_learner \<Rightarrow> slot_index option" where
  "request_result_lookup client_id seq l =
     (if client_id = 0 then None
      else case om_get (lr_request_results l) client_id of
          None \<Rightarrow> None
        | Some w \<Rightarrow> window_lookup seq w)"

definition record_one_result :: "slot_index \<Rightarrow> request_identity \<Rightarrow> 'e px_learner \<Rightarrow> 'e px_learner" where
  "record_one_result slot ri l =
     (if ri_client_id ri = 0 then l
      else let w = (case om_get (lr_request_results l) (ri_client_id ri) of None \<Rightarrow> [] | Some w \<Rightarrow> w)
           in l\<lparr>lr_request_results :=
                 om_put (ri_client_id ri) (window_record (ri_seq ri) slot w) (lr_request_results l)\<rparr>)"

definition record_request_results ::
    "request_identity list \<Rightarrow> slot_index \<Rightarrow> 'e px_learner \<Rightarrow> 'e px_learner" where
  "record_request_results ids slot l = fold (record_one_result slot) ids l"

section \<open>Frontiers\<close>

function drain_gaps :: "slot_index \<Rightarrow> (slot_index, 'v) omap \<Rightarrow> slot_index \<times> (slot_index, 'v) omap" where
  "drain_gaps c m =
     (case om_get m (c + 1) of
        None \<Rightarrow> (c, m)
      | Some v \<Rightarrow> drain_gaps (c + 1) (om_del (c + 1) m))"
  by pat_completeness auto
termination
  by (relation "measure (\<lambda>(c, m). length m)") (auto simp: length_om_del_less)

declare drain_gaps.simps [simp del]

definition update_last_chosen :: "slot_index \<Rightarrow> u64 \<Rightarrow> 'e px_learner \<Rightarrow> bool \<times> 'e px_learner" where
  "update_last_chosen slot term l =
     (if lr_last_chosen_slot l < slot
      then (True, l\<lparr>lr_last_chosen_term := term, lr_last_chosen_slot := slot\<rparr>)
      else (False, l))"

definition note_chosen :: "slot_index \<Rightarrow> u64 \<Rightarrow> 'e px_learner \<Rightarrow> bool \<times> 'e px_learner" where
  "note_chosen slot term l = update_last_chosen slot term l"

definition drain_chosen_frontier :: "'e px_learner \<Rightarrow> 'e px_learner" where
  "drain_chosen_frontier l =
     (let (c, m) = drain_gaps (lr_contiguous_chosen l) (lr_out_of_order l)
      in l\<lparr>lr_contiguous_chosen := c, lr_out_of_order := m\<rparr>)"

definition om_get_or_insert :: "'k::linorder \<Rightarrow> 'v \<Rightarrow> ('k, 'v) omap \<Rightarrow> ('k, 'v) omap" where
  "om_get_or_insert k v m = (case om_get m k of Some _ \<Rightarrow> m | None \<Rightarrow> om_put k v m)"

definition update_chosen_frontier :: "slot_index \<Rightarrow> u64 \<Rightarrow> 'e px_learner \<Rightarrow> 'e px_learner" where
  "update_chosen_frontier slot term l0 =
     (let l = snd (update_last_chosen slot term l0) in
      if lr_contiguous_chosen l < slot
      then drain_chosen_frontier (l\<lparr>lr_out_of_order := om_get_or_insert slot term (lr_out_of_order l)\<rparr>)
      else l)"

definition drain_applied_frontier :: "'e px_learner \<Rightarrow> 'e px_learner" where
  "drain_applied_frontier l =
     (let (c, m) = drain_gaps (lr_contiguous_applied l) (lr_applied_out_of_order l)
      in l\<lparr>lr_contiguous_applied := c, lr_applied_out_of_order := m\<rparr>)"

definition advance_applied_frontier :: "slot_index \<Rightarrow> 'e px_learner \<Rightarrow> 'e px_learner" where
  "advance_applied_frontier slot l =
     (if lr_contiguous_applied l < slot
      then drain_applied_frontier
             (l\<lparr>lr_applied_out_of_order := om_get_or_insert slot () (lr_applied_out_of_order l)\<rparr>)
      else l)"

definition seed_resume_frontier :: "slot_index \<Rightarrow> u64 \<Rightarrow> 'e px_learner \<Rightarrow> 'e px_learner" where
  "seed_resume_frontier slot term l =
     l\<lparr>lr_contiguous_chosen := slot, lr_contiguous_applied := slot,
       lr_last_chosen_slot := slot, lr_last_chosen_term := term\<rparr>"

definition is_chosen :: "slot_index \<Rightarrow> 'e px_learner \<Rightarrow> bool" where
  "is_chosen slot l \<longleftrightarrow>
     slot \<le> lr_contiguous_chosen l \<or> om_get (lr_out_of_order l) slot \<noteq> None"

section \<open>Applying and learning\<close>

definition apply_entry :: "'e kv_iface \<Rightarrow> slot_index \<Rightarrow> bytes \<Rightarrow> 'e px_learner \<Rightarrow> bool \<times> 'e px_learner" where
  "apply_entry ki slot payload l =
     (let ops = batch_decode payload in
      if ops = [] then (True, l\<lparr>lr_engine := ki_noop ki slot (lr_engine l)\<rparr>)
      else let (ok, e) = ki_apply ki slot ops (lr_engine l) in (ok, l\<lparr>lr_engine := e\<rparr>))"

definition learn :: "'e kv_iface \<Rightarrow> px_log_entry \<Rightarrow> request_identity list \<Rightarrow> 'e px_learner \<Rightarrow> 'e px_learner" where
  "learn ki e ids l =
     (let (ok, l1) = apply_entry ki (e_slot e) (e_payload e) l;
          l2 = update_chosen_frontier (e_slot e) (e_term e) l1;
          l3 = (if ok then advance_applied_frontier (e_slot e) l2 else l2)
      in record_request_results ids (e_slot e) l3)"

section \<open>Runs of a learner\<close>

text \<open>
  What a replica does to its learner: learn an entry synchronously, take note of a chosen
  slot, advance the chosen frontier, and the deferred apply of a chosen entry.
\<close>

datatype learner_event =
    EvLearn px_log_entry "request_identity list"
  | EvNote slot_index u64
  | EvChosen slot_index u64
  | EvApply slot_index bytes

fun learner_step :: "'e kv_iface \<Rightarrow> learner_event \<Rightarrow> 'e px_learner \<Rightarrow> 'e px_learner" where
  "learner_step ki (EvLearn e ids) l = learn ki e ids l"
| "learner_step ki (EvNote s t) l = snd (note_chosen s t l)"
| "learner_step ki (EvChosen s t) l = update_chosen_frontier s t l"
| "learner_step ki (EvApply s p) l =
     (let (ok, l') = apply_entry ki s p l in if ok then advance_applied_frontier s l' else l')"

definition run_learner :: "'e kv_iface \<Rightarrow> learner_event list \<Rightarrow> 'e px_learner \<Rightarrow> 'e px_learner" where
  "run_learner ki evs l = fold (learner_step ki) evs l"

fun chosen_by :: "learner_event \<Rightarrow> 'e px_learner \<Rightarrow> slot_index set" where
  "chosen_by (EvLearn e ids) l = {e_slot e}"
| "chosen_by (EvChosen s t) l = {s}"
| "chosen_by _ l = {}"

fun applied_by :: "'e kv_iface \<Rightarrow> learner_event \<Rightarrow> 'e px_learner \<Rightarrow> slot_index set" where
  "applied_by ki (EvLearn e ids) l =
     (if fst (apply_entry ki (e_slot e) (e_payload e) l) then {e_slot e} else {})"
| "applied_by ki (EvApply s p) l = (if fst (apply_entry ki s p l) then {s} else {})"
| "applied_by ki _ l = {}"

fun slots_along :: "('ev \<Rightarrow> 'st \<Rightarrow> slot_index set) \<Rightarrow> ('ev \<Rightarrow> 'st \<Rightarrow> 'st) \<Rightarrow> 'ev list \<Rightarrow> 'st \<Rightarrow> slot_index set" where
  "slots_along by_ev step [] st = {}"
| "slots_along by_ev step (ev # evs) st = by_ev ev st \<union> slots_along by_ev step evs (step ev st)"

section \<open>The contract of a gap-filling frontier\<close>

text \<open>
  Both frontiers follow one contract: a step records some slots, the frontier is the end of
  the contiguous prefix of recorded slots, and the pending set holds the recorded slots
  beyond it. What the callers use follows from these laws, once for both.
\<close>

locale gap_frontier =
  fixes step :: "'ev \<Rightarrow> 'st \<Rightarrow> 'st"
    and by_ev :: "'ev \<Rightarrow> 'st \<Rightarrow> slot_index set"
    and frontier :: "'st \<Rightarrow> slot_index"
    and pending :: "'st \<Rightarrow> slot_index set"
    and inv :: "'st \<Rightarrow> bool"
  assumes pending_gap: "inv st \<Longrightarrow> frontier st + 1 \<notin> pending st"
    and step_inv: "inv st \<Longrightarrow> inv (step ev st)"
    and step_known: "inv st \<Longrightarrow>
      {0<..frontier (step ev st)} \<union> pending (step ev st) =
      {0<..frontier st} \<union> pending st \<union> (by_ev ev st - {0})"
begin

lemma frontier_iff:
  assumes "inv st"
  shows "n \<le> frontier st \<longleftrightarrow> {0<..n} \<subseteq> {0<..frontier st} \<union> pending st"
proof
  assume sub: "{0<..n} \<subseteq> {0<..frontier st} \<union> pending st"
  show "n \<le> frontier st"
  proof (rule ccontr)
    assume "\<not> n \<le> frontier st"
    then have less: "frontier st < n" by simp
    then have "frontier st + 1 \<in> {0<..n}" using word_succ_pos word_succ_le by auto
    moreover have "\<not> frontier st + 1 \<le> frontier st" using word_less_succ [OF less] by simp
    ultimately show False using sub pending_gap [OF assms] by auto
  qed
qed auto

lemma run_inv: "inv st \<Longrightarrow> inv (fold step evs st)"
  by (induction evs arbitrary: st) (auto intro: step_inv)

lemma run_known:
  "inv st \<Longrightarrow>
   {0<..frontier (fold step evs st)} \<union> pending (fold step evs st) =
   {0<..frontier st} \<union> pending st \<union> (slots_along by_ev step evs st - {0})"
proof (induction evs arbitrary: st)
  case (Cons ev evs)
  then show ?case using Cons.IH [of "step ev st"] step_inv step_known by auto
qed simp

lemma run_frontier:
  assumes "inv st" and "frontier st = 0" and "pending st = {}"
  shows "n \<le> frontier (fold step evs st) \<longleftrightarrow> {0<..n} \<subseteq> slots_along by_ev step evs st"
  using frontier_iff [OF run_inv, of st n evs] run_known [of st evs] assms by auto

end

definition keys :: "(slot_index, 'v) omap \<Rightarrow> slot_index set" where
  "keys m = fst ` set m"

lemma keys_get: "k \<in> keys m \<longleftrightarrow> om_get m k \<noteq> None"
  by (simp add: keys_def map_of_eq_None_iff)

lemma keys_get_or_insert [simp]: "keys (om_get_or_insert k v m) = insert k (keys m)"
  by (auto simp: om_get_or_insert_def keys_get split: option.split if_splits)

lemma keys_del: "keys (om_del k m) = keys m - {k}"
  by (auto simp: keys_def om_del_def)

lemma drain_gaps_spec:
  assumes "\<forall>k \<in> keys m. c < k" and "drain_gaps c m = (c', m')"
  shows "c \<le> c' \<and> {c<..c'} \<subseteq> keys m \<and> keys m' = {k \<in> keys m. c' < k} \<and> c' + 1 \<notin> keys m'"
  using assms
proof (induction c m rule: drain_gaps.induct)
  case (1 c m)
  show ?case
  proof (cases "om_get m (c + 1)")
    case None
    then have "c' = c" "m' = m" using 1(3) by (simp_all add: drain_gaps.simps [of c])
    then show ?thesis using 1(2) None by (auto simp: keys_get)
  next
    case (Some v)
    have rec: "drain_gaps (c + 1) (om_del (c + 1) m) = (c', m')"
      using 1(3) Some by (simp add: drain_gaps.simps [of c])
    have mem: "c + 1 \<in> keys m" using Some by (simp add: keys_get)
    then have less: "c < c + 1" using 1(2) by simp
    have del: "keys (om_del (c + 1) m) = keys m - {c + 1}" by (rule keys_del)
    have "\<forall>k \<in> keys (om_del (c + 1) m). c + 1 < k"
      unfolding del using 1(2) word_between_succ by (metis Diff_iff insertI1 leI)
    then have ih: "c + 1 \<le> c'" "{c + 1<..c'} \<subseteq> keys m - {c + 1}"
        "keys m' = {k \<in> keys m - {c + 1}. c' < k}" "c' + 1 \<notin> keys m'"
      using 1(1) [OF Some _ rec] unfolding del by auto
    have "{c<..c'} \<subseteq> keys m"
    proof
      fix k assume "k \<in> {c<..c'}"
      then have k: "c < k" "k \<le> c'" by simp_all
      show "k \<in> keys m"
      proof (cases "k \<le> c + 1")
        case True
        then show ?thesis using k mem word_between_succ [of c k] by simp
      next
        case False
        then have "k \<in> {c + 1<..c'}" using k by simp
        then show ?thesis using ih(2) by blast
      qed
    qed
    moreover have "\<not> c' < c + 1" using ih(1) by simp
    then have "keys m' = {k \<in> keys m. c' < k}" unfolding ih(3) by blast
    ultimately show ?thesis using ih(1,4) less by (meson less_imp_le order_trans)
  qed
qed

text \<open>One recorded slot, as both frontier updates do it.\<close>

definition gap_ok :: "slot_index \<Rightarrow> (slot_index, 'v) omap \<Rightarrow> bool" where
  "gap_ok c m \<longleftrightarrow> (\<forall>k \<in> keys m. c < k) \<and> c + 1 \<notin> keys m"

definition gap_note ::
    "slot_index \<Rightarrow> 'v \<Rightarrow> slot_index \<Rightarrow> (slot_index, 'v) omap \<Rightarrow> slot_index \<times> (slot_index, 'v) omap" where
  "gap_note s v c m = (if c < s then drain_gaps c (om_get_or_insert s v m) else (c, m))"

lemma gap_note_spec:
  assumes ok: "gap_ok c m" and run: "gap_note s v c m = (c', m')"
  shows "gap_ok c' m'" and "{0<..c'} \<union> keys m' = {0<..c} \<union> keys m \<union> ({s} - {0})"
proof (atomize (full), cases "c < s")
  case True
  let ?m = "om_get_or_insert s v m"
  have above: "\<forall>k \<in> keys ?m. c < k" using ok True by (auto simp: gap_ok_def)
  have "drain_gaps c ?m = (c', m')" using run True by (simp add: gap_note_def)
  note spec = drain_gaps_spec [OF above this, unfolded keys_get_or_insert]
  then have le: "c \<le> c'" and sub: "{c<..c'} \<subseteq> insert s (keys m)"
    and rest: "keys m' = {k \<in> insert s (keys m). c' < k}" and gap: "c' + 1 \<notin> keys m'"
    by blast+
  have "insert s (keys m) = {k \<in> insert s (keys m). k \<le> c'} \<union> keys m'"
    unfolding rest by (auto simp: not_less)
  moreover have "{k \<in> insert s (keys m). k \<le> c'} = {c<..c'}"
    using sub above unfolding keys_get_or_insert by fastforce
  ultimately have "{0<..c} \<union> {c<..c'} \<union> keys m' = {0<..c} \<union> insert s (keys m)"
    by blast
  then have "{0<..c'} \<union> keys m' = {0<..c} \<union> insert s (keys m)"
    by (simp only: word_interval_split [OF le])
  moreover have "s \<noteq> 0" using True word_pos_of_less by blast
  moreover have "gap_ok c' m'" using rest gap by (auto simp: gap_ok_def)
  ultimately show "gap_ok c' m' \<and> {0<..c'} \<union> keys m' = {0<..c} \<union> keys m \<union> ({s} - {0})"
    by simp
next
  case False
  then have in_prefix: "s = 0 \<or> s \<in> {0<..c}"
    using word_gt_0 [of s] by (cases "s = 0") simp_all
  from False show "gap_ok c' m' \<and> {0<..c'} \<union> keys m' = {0<..c} \<union> keys m \<union> ({s} - {0})"
    using ok run in_prefix by (auto simp: gap_note_def)
qed

definition chosen_inv :: "'e px_learner \<Rightarrow> bool" where
  "chosen_inv l = gap_ok (lr_contiguous_chosen l) (lr_out_of_order l)"

definition applied_inv :: "'e px_learner \<Rightarrow> bool" where
  "applied_inv l = gap_ok (lr_contiguous_applied l) (lr_applied_out_of_order l)"

lemmas frontier_defs =
  update_chosen_frontier_def drain_chosen_frontier_def update_last_chosen_def
  advance_applied_frontier_def drain_applied_frontier_def note_chosen_def gap_note_def Let_def

lemma update_chosen_gap_note:
  "(lr_contiguous_chosen (update_chosen_frontier s t l), lr_out_of_order (update_chosen_frontier s t l)) =
   gap_note s t (lr_contiguous_chosen l) (lr_out_of_order l)"
  by (simp add: frontier_defs split: prod.split)

lemma advance_applied_gap_note:
  "(lr_contiguous_applied (advance_applied_frontier s l), lr_applied_out_of_order (advance_applied_frontier s l)) =
   gap_note s () (lr_contiguous_applied l) (lr_applied_out_of_order l)"
  by (simp add: frontier_defs split: prod.split)

lemma update_chosen_frame [simp]:
  "lr_contiguous_applied (update_chosen_frontier s t l) = lr_contiguous_applied l"
  "lr_applied_out_of_order (update_chosen_frontier s t l) = lr_applied_out_of_order l"
  "lr_request_results (update_chosen_frontier s t l) = lr_request_results l"
  "lr_engine (update_chosen_frontier s t l) = lr_engine l"
  by (simp_all add: frontier_defs split: prod.split)

lemma advance_applied_frame [simp]:
  "lr_contiguous_chosen (advance_applied_frontier s l) = lr_contiguous_chosen l"
  "lr_out_of_order (advance_applied_frontier s l) = lr_out_of_order l"
  "lr_request_results (advance_applied_frontier s l) = lr_request_results l"
  "lr_engine (advance_applied_frontier s l) = lr_engine l"
  by (simp_all add: frontier_defs split: prod.split)

lemma note_chosen_frame [simp]:
  "lr_contiguous_chosen (snd (note_chosen s t l)) = lr_contiguous_chosen l"
  "lr_out_of_order (snd (note_chosen s t l)) = lr_out_of_order l"
  "lr_contiguous_applied (snd (note_chosen s t l)) = lr_contiguous_applied l"
  "lr_applied_out_of_order (snd (note_chosen s t l)) = lr_applied_out_of_order l"
  by (simp_all add: frontier_defs)

lemma record_one_frame [simp]:
  "lr_contiguous_chosen (record_one_result s ri l) = lr_contiguous_chosen l"
  "lr_out_of_order (record_one_result s ri l) = lr_out_of_order l"
  "lr_contiguous_applied (record_one_result s ri l) = lr_contiguous_applied l"
  "lr_applied_out_of_order (record_one_result s ri l) = lr_applied_out_of_order l"
  by (simp_all add: record_one_result_def Let_def)

lemma record_results_frame [simp]:
  "lr_contiguous_chosen (record_request_results ids s l) = lr_contiguous_chosen l"
  "lr_out_of_order (record_request_results ids s l) = lr_out_of_order l"
  "lr_contiguous_applied (record_request_results ids s l) = lr_contiguous_applied l"
  "lr_applied_out_of_order (record_request_results ids s l) = lr_applied_out_of_order l"
  unfolding record_request_results_def by (induction ids arbitrary: l) simp_all

lemma apply_entry_frame [simp]:
  "lr_contiguous_chosen (snd (apply_entry ki s p l)) = lr_contiguous_chosen l"
  "lr_out_of_order (snd (apply_entry ki s p l)) = lr_out_of_order l"
  "lr_contiguous_applied (snd (apply_entry ki s p l)) = lr_contiguous_applied l"
  "lr_applied_out_of_order (snd (apply_entry ki s p l)) = lr_applied_out_of_order l"
  "lr_request_results (snd (apply_entry ki s p l)) = lr_request_results l"
  by (simp_all add: apply_entry_def Let_def split: prod.split)

interpretation chosen: gap_frontier "learner_step ki" chosen_by lr_contiguous_chosen
  "\<lambda>l. keys (lr_out_of_order l)" chosen_inv
proof unfold_locales
  fix l :: "'a px_learner" and ev
  assume inv: "chosen_inv l"
  then show "lr_contiguous_chosen l + 1 \<notin> keys (lr_out_of_order l)"
    by (simp add: chosen_inv_def gap_ok_def)
  have upd: "chosen_inv (update_chosen_frontier s t k)"
    "{0<..lr_contiguous_chosen (update_chosen_frontier s t k)} \<union>
       keys (lr_out_of_order (update_chosen_frontier s t k)) =
     {0<..lr_contiguous_chosen l} \<union> keys (lr_out_of_order l) \<union> ({s} - {0})"
    if "lr_contiguous_chosen k = lr_contiguous_chosen l" "lr_out_of_order k = lr_out_of_order l"
    for s t and k :: "'a px_learner"
    using gap_note_spec [OF _ update_chosen_gap_note [symmetric], of k s t] inv that
    by (simp_all add: chosen_inv_def)
  show "chosen_inv (learner_step ki ev l)"
    using inv upd [unfolded chosen_inv_def]
    by (cases ev) (simp_all add: learn_def chosen_inv_def Let_def case_prod_unfold)
  show "{0<..lr_contiguous_chosen (learner_step ki ev l)} \<union> keys (lr_out_of_order (learner_step ki ev l)) =
        {0<..lr_contiguous_chosen l} \<union> keys (lr_out_of_order l) \<union> (chosen_by ev l - {0})"
    using upd by (cases ev) (simp_all add: learn_def Let_def case_prod_unfold)
qed

interpretation applied: gap_frontier "learner_step ki" "applied_by ki" lr_contiguous_applied
  "\<lambda>l. keys (lr_applied_out_of_order l)" applied_inv
proof unfold_locales
  fix l :: "'a px_learner" and ev
  assume inv: "applied_inv l"
  then show "lr_contiguous_applied l + 1 \<notin> keys (lr_applied_out_of_order l)"
    by (simp add: applied_inv_def gap_ok_def)
  have upd: "applied_inv (advance_applied_frontier s k)"
    "{0<..lr_contiguous_applied (advance_applied_frontier s k)} \<union>
       keys (lr_applied_out_of_order (advance_applied_frontier s k)) =
     {0<..lr_contiguous_applied l} \<union> keys (lr_applied_out_of_order l) \<union> ({s} - {0})"
    if "lr_contiguous_applied k = lr_contiguous_applied l"
      "lr_applied_out_of_order k = lr_applied_out_of_order l"
    for s and k :: "'a px_learner"
    using gap_note_spec [OF _ advance_applied_gap_note [symmetric], of k s] inv that
    by (simp_all add: applied_inv_def)
  show "applied_inv (learner_step ki ev l)"
    using inv upd [unfolded applied_inv_def]
    by (cases ev) (simp_all add: learn_def applied_inv_def Let_def case_prod_unfold)
  show "{0<..lr_contiguous_applied (learner_step ki ev l)} \<union>
          keys (lr_applied_out_of_order (learner_step ki ev l)) =
        {0<..lr_contiguous_applied l} \<union> keys (lr_applied_out_of_order l) \<union> (applied_by ki ev l - {0})"
    using upd by (cases ev) (simp_all add: learn_def Let_def case_prod_unfold)
qed

lemma learner_new_inv [simp]: "chosen_inv (learner_new e)" "applied_inv (learner_new e)"
  by (simp_all add: chosen_inv_def applied_inv_def gap_ok_def learner_new_def keys_def)

lemma learner_new_frontiers [simp]:
  "lr_contiguous_chosen (learner_new e) = 0" "lr_contiguous_applied (learner_new e) = 0"
  "keys (lr_out_of_order (learner_new e)) = {}" "keys (lr_applied_out_of_order (learner_new e)) = {}"
  by (simp_all add: learner_new_def keys_def)

section \<open>The request-result window\<close>

definition window_ok :: "(u64 \<times> slot_index) list \<Rightarrow> bool" where
  "window_ok w \<longleftrightarrow> length w \<le> request_result_window \<and> distinct (map fst w)"

definition record_all :: "(u64 \<times> slot_index) list \<Rightarrow> (u64 \<times> slot_index) list \<Rightarrow> (u64 \<times> slot_index) list" where
  "record_all rs w = fold (\<lambda>(q, s). window_record q s) rs w"

lemma window_record_eq:
  "window_record q s w =
     (if q \<in> fst ` set w then w
      else if length w < 64 then w @ [(q, s)] else tl w @ [(q, s)])"
proof -
  have "list_ex (\<lambda>e. fst e = q) w \<longleftrightarrow> q \<in> fst ` set w"
    by (auto simp: list_ex_iff)
  moreover have "tl (w @ [(q, s)]) = tl w @ [(q, s)]" if "\<not> length w < 64"
    using that by (cases w) auto
  ultimately show ?thesis
    by (simp add: window_record_def request_result_window_def Let_def)
qed

lemma window_record_cases:
  obtains (known) "q \<in> fst ` set w" "window_record q s w = w"
  | (room) "q \<notin> fst ` set w" "length w < 64" "window_record q s w = w @ [(q, s)]"
  | (full) "q \<notin> fst ` set w" "64 \<le> length w" "window_record q s w = tl w @ [(q, s)]"
  using window_record_eq [of q s w] by (cases "length w < 64") (auto split: if_splits)

lemma window_ok_record:
  assumes "window_ok w"
  shows "window_ok (window_record q s w)"
proof (cases rule: window_record_cases [of q w s])
  case full
  then show ?thesis using assms
    by (cases w) (auto simp: window_ok_def request_result_window_def)
qed (use assms in \<open>auto simp: window_ok_def request_result_window_def\<close>)

lemma window_ok_record_all: "window_ok w \<Longrightarrow> window_ok (record_all rs w)"
  unfolding record_all_def by (induction rs arbitrary: w) (auto intro: window_ok_record)

lemma window_lookup_iff:
  "window_ok w \<Longrightarrow> window_lookup q w = Some s \<longleftrightarrow> (q, s) \<in> set w"
proof -
  assume "window_ok w"
  then have "distinct (map fst (rev w))" by (simp add: window_ok_def rev_map [symmetric])
  moreover have "map_option snd (find (\<lambda>e. fst e = q) xs) = map_of xs q" for xs
    by (induction xs) auto
  then have "window_lookup q w = map_of (rev w) q" by (simp add: window_lookup_def)
  ultimately show ?thesis using map_of_eq_Some_iff [of "rev w" q s] by simp
qed

lemma window_record_subset: "set (window_record q s w) \<subseteq> insert (q, s) (set w)"
  using set_mono_suffix [of "tl w" w] suffix_tl [of w] by (auto simp: window_record_eq)

lemma record_all_subset: "set (record_all rs w) \<subseteq> set rs \<union> set w"
  unfolding record_all_def
proof (induction rs arbitrary: w)
  case (Cons r rs)
  then show ?case using window_record_subset [of "fst r" "snd r" w] by (fastforce simp: case_prod_unfold)
qed simp

text \<open>An entry leaves the window only after 64 later ones have entered it.\<close>

lemma window_record_keeps:
  assumes "w = pre @ (q, s) # post" and "length post \<le> 62"
  obtains pre' post' where "window_record q' s' w = pre' @ (q, s) # post'"
    "length post' \<le> Suc (length post)"
proof (cases rule: window_record_cases [of q' w s'])
  case full
  then have "pre \<noteq> []" using assms by auto
  then show ?thesis using that [of "tl pre" "post @ [(q', s')]"] full assms by simp
next
  case room
  then show ?thesis using that [of pre "post @ [(q', s')]"] assms by simp
qed (use that [of pre post] assms in simp)

lemma record_all_keeps:
  "w = pre @ (q, s) # post \<Longrightarrow> length post + length rs \<le> 63 \<Longrightarrow> (q, s) \<in> set (record_all rs w)"
proof (induction rs arbitrary: w pre post)
  case (Cons r rs)
  then have "length post \<le> 62" by simp
  from window_record_keeps [OF Cons.prems(1) this, of "fst r" "snd r"]
  obtain pre' post' where "window_record (fst r) (snd r) w = pre' @ (q, s) # post'"
    "length post' \<le> Suc (length post)" by blast
  then show ?case using Cons.IH [of _ pre' post'] Cons.prems(2)
    by (simp add: record_all_def case_prod_unfold)
qed (simp add: record_all_def)

definition client_log :: "u64 \<Rightarrow> (request_identity \<times> slot_index) list \<Rightarrow> (u64 \<times> slot_index) list" where
  "client_log c log = map (\<lambda>(ri, s). (ri_seq ri, s)) (filter (\<lambda>(ri, s). ri_client_id ri = c) log)"

definition record_log :: "(request_identity \<times> slot_index) list \<Rightarrow> 'e px_learner \<Rightarrow> 'e px_learner" where
  "record_log log l = fold (\<lambda>(ri, s). record_request_results [ri] s) log l"

definition client_window :: "u64 \<Rightarrow> 'e px_learner \<Rightarrow> (u64 \<times> slot_index) list" where
  "client_window c l = (case om_get (lr_request_results l) c of None \<Rightarrow> [] | Some w \<Rightarrow> w)"

lemma client_window_record:
  "c \<noteq> 0 \<Longrightarrow> client_window c (record_request_results [ri] s l) =
     (if ri_client_id ri = c then window_record (ri_seq ri) s (client_window c l) else client_window c l)"
  by (auto simp: client_window_def record_request_results_def record_one_result_def Let_def)

lemma client_window_log:
  "c \<noteq> 0 \<Longrightarrow> client_window c (record_log log l) = record_all (client_log c log) (client_window c l)"
proof (induction log arbitrary: l)
  case (Cons r log)
  then show ?case
    by (auto simp: record_log_def record_all_def client_log_def client_window_record case_prod_unfold)
qed (simp add: record_log_def record_all_def client_log_def)

lemma lookup_client_window:
  "c \<noteq> 0 \<Longrightarrow> request_result_lookup c q l = window_lookup q (client_window c l)"
  by (auto simp: request_result_lookup_def client_window_def window_lookup_def split: option.split)

lemma client_window_new [simp]: "client_window c (learner_new e) = []"
  by (simp add: client_window_def learner_new_def)

lemma window_ok_Nil [simp]: "window_ok []"
  by (simp add: window_ok_def)

lemma record_all_append: "record_all (xs @ ys) w = record_all ys (record_all xs w)"
  by (simp add: record_all_def)

section \<open>Properties\<close>

text \<open>C27 The chosen frontier is exact. After any sequence of learn, notice, chosen and deferred
  apply events, in any order and with repetitions, \<open>contiguous_chosen\<close> is the end of the longest
  prefix of slots 1, 2, ... that were all reported chosen, and \<open>is_chosen\<close> answers true for
  exactly the reported slots. The drain loop ends on every state.\<close>

theorem chosen_frontier_exact:
  fixes ki :: "'e kv_iface"
  assumes "l = run_learner ki evs (learner_new e)"
    and "C = slots_along chosen_by (learner_step ki) evs (learner_new e)"
  shows "(n \<le> lr_contiguous_chosen l \<longleftrightarrow> {0<..n} \<subseteq> C) \<and> (0 < s \<longrightarrow> is_chosen s l = (s \<in> C))"
proof -
  have "n \<le> lr_contiguous_chosen l \<longleftrightarrow> {0<..n} \<subseteq> C"
    unfolding assms run_learner_def by (rule chosen.run_frontier) simp_all
  moreover have known: "{0<..lr_contiguous_chosen l} \<union> keys (lr_out_of_order l) = C - {0}"
    using chosen.run_known [of "learner_new e" ki evs] by (simp add: assms run_learner_def)
  have "is_chosen s l \<longleftrightarrow> s \<in> C" if "0 < s"
  proof -
    have "is_chosen s l \<longleftrightarrow> s \<in> {0<..lr_contiguous_chosen l} \<union> keys (lr_out_of_order l)"
      using that by (simp add: is_chosen_def keys_get)
    then show ?thesis using that unfolding known by (simp add: less_le)
  qed
  ultimately show ?thesis by simp
qed

lemma chosen_frontier_exact_witness:
  "let evs = [EvChosen 2 1, EvChosen 4 1, EvNote 9 1, EvChosen 1 1];
       ki = \<lparr> ki_apply = (\<lambda>s ops e. (True, e)), ki_noop = (\<lambda>s e. e) \<rparr>;
       l = run_learner ki evs (learner_new ())
   in lr_contiguous_chosen l = 2 \<and> is_chosen 4 l \<and> \<not> is_chosen 3 l"
proof -
  let ?evs = "[EvChosen 2 1, EvChosen 4 1, EvNote 9 1, EvChosen 1 1]"
  let ?ki = "\<lparr> ki_apply = (\<lambda>s ops e. (True, e)), ki_noop = (\<lambda>s e. e) \<rparr> :: unit kv_iface"
  let ?l = "run_learner ?ki ?evs (learner_new ())"
  have "lr_contiguous_chosen ?l = 2" by code_simp
  moreover have "is_chosen 4 ?l" "\<not> is_chosen 3 ?l"
    using chosen_frontier_exact [OF refl refl, where ki = ?ki and evs = ?evs and e = "()" and s = 4]
      chosen_frontier_exact [OF refl refl, where ki = ?ki and evs = ?evs and e = "()" and s = 3]
    by simp_all
  ultimately show ?thesis unfolding Let_def by blast
qed

text \<open>C28 The applied frontier is exact and never runs ahead. It covers exactly the longest prefix
  of slots whose apply to the engine succeeded, so a slot whose apply failed stalls it, and as
  long as only chosen slots are applied it stays at or below the chosen frontier.\<close>

theorem applied_frontier_exact:
  fixes ki :: "'e kv_iface"
  assumes "l = run_learner ki evs (learner_new e)"
    and "A = slots_along (applied_by ki) (learner_step ki) evs (learner_new e)"
    and "A \<subseteq> slots_along chosen_by (learner_step ki) evs (learner_new e)"
  shows "(n \<le> lr_contiguous_applied l \<longleftrightarrow> {0<..n} \<subseteq> A) \<and>
         lr_contiguous_applied l \<le> lr_contiguous_chosen l"
proof -
  have applied: "n \<le> lr_contiguous_applied l \<longleftrightarrow> {0<..n} \<subseteq> A" for n
    unfolding assms(1,2) run_learner_def by (rule applied.run_frontier) simp_all
  then have "{0<..lr_contiguous_applied l} \<subseteq> A" by blast
  then have "{0<..lr_contiguous_applied l} \<subseteq> slots_along chosen_by (learner_step ki) evs (learner_new e)"
    using assms(3) by blast
  then have "lr_contiguous_applied l \<le> lr_contiguous_chosen l"
    unfolding assms(1) run_learner_def by (subst chosen.run_frontier) simp_all
  with applied show ?thesis by blast
qed

text \<open>An engine that refuses slot 2, for the witness.\<close>

definition faulty_iface :: "unit kv_iface" where
  "faulty_iface = \<lparr> ki_apply = (\<lambda>s ops e. (s \<noteq> 2, e)), ki_noop = (\<lambda>s e. e) \<rparr>"

definition learn_event :: "slot_index \<Rightarrow> learner_event" where
  "learn_event s =
     EvLearn \<lparr> e_slot = s, e_ballot = PxBallot 0 1, e_term = 1,
               e_payload = encode_mutations [MutDelete [7]] \<rparr> []"

lemma applied_frontier_exact_witness:
  "let l = run_learner faulty_iface [learn_event 3, learn_event 1, learn_event 2] (learner_new ())
   in lr_contiguous_applied l \<le> lr_contiguous_chosen l \<and>
      lr_contiguous_applied l = 1 \<and> lr_contiguous_chosen l = 3"
proof -
  let ?evs = "[learn_event 3, learn_event 1, learn_event 2]"
  let ?l = "run_learner faulty_iface ?evs (learner_new ())"
  have "slots_along (applied_by faulty_iface) (learner_step faulty_iface) ?evs (learner_new ()) \<subseteq>
        slots_along chosen_by (learner_step faulty_iface) ?evs (learner_new ())"
    by (simp add: learn_event_def)
  from applied_frontier_exact [OF refl refl this]
  have "lr_contiguous_applied ?l \<le> lr_contiguous_chosen ?l" by blast
  moreover have "lr_contiguous_applied ?l = 1" "lr_contiguous_chosen ?l = 3" by code_simp+
  ultimately show ?thesis unfolding Let_def by blast
qed

text \<open>C29 Retried requests are answered exactly. For a client with a non-zero identifier, a lookup
  only ever returns a slot that was recorded for that very sequence number; the result of a
  request is found as long as fewer than 64 requests of the same client were recorded after it,
  however many other clients were; and a client never occupies more than 64 cells.\<close>

theorem request_results_window:
  fixes e :: 'e
  assumes "l = record_log log (learner_new e)" and "c \<noteq> 0"
    and "log = before @ (\<lparr> ri_client_id = c, ri_seq = q \<rparr>, s) # after"
    and "q \<notin> fst ` set (client_log c before)" and "length (client_log c after) < 64"
  shows "request_result_lookup c q l = Some s \<and>
         (\<forall>q' s'. request_result_lookup c q' l = Some s' \<longrightarrow> (q', s') \<in> set (client_log c log)) \<and>
         length (client_window c l) \<le> 64 \<and> request_result_lookup 0 q l = None"
proof -
  let ?w = "client_window c l"
  have w: "?w = record_all (client_log c log) []"
    using assms(1,2) by (simp add: client_window_log)
  have ok: "window_ok ?w" unfolding w by (rule window_ok_record_all) simp
  have found: "request_result_lookup c q' l = Some s' \<longleftrightarrow> (q', s') \<in> set ?w" for q' s'
    using assms(2) ok by (simp add: lookup_client_window window_lookup_iff)
  let ?b = "record_all (client_log c before) []"
  have "q \<notin> fst ` set ?b"
    using record_all_subset [of "client_log c before" "[]"] assms(4) by auto
  then obtain pre where "window_record q s ?b = pre @ [(q, s)]"
    by (cases rule: window_record_cases [of q ?b s]) auto
  moreover have "?w = record_all (client_log c after) (window_record q s ?b)"
    unfolding w assms(3) by (simp add: client_log_def record_all_append) (simp add: record_all_def)
  ultimately have "(q, s) \<in> set ?w" using record_all_keeps [of _ pre q s "[]"] assms(5) by simp
  moreover have "set ?w \<subseteq> set (client_log c log)"
    using record_all_subset [of "client_log c log" "[]"] w by simp
  ultimately show ?thesis
    using found ok by (auto simp: window_ok_def request_result_window_def request_result_lookup_def)
qed

lemma request_results_window_witness:
  "request_result_lookup 3 7 (record_log [(\<lparr> ri_client_id = 3, ri_seq = 7 \<rparr>, 11),
      (\<lparr> ri_client_id = 4, ri_seq = 7 \<rparr>, 12), (\<lparr> ri_client_id = 3, ri_seq = 7 \<rparr>, 13)]
      (learner_new ())) = Some 11"
  using request_results_window [where e = "()" and c = 3 and q = 7 and s = 11 and before = "[]" and
      after = "[(\<lparr> ri_client_id = 4, ri_seq = 7 \<rparr>, 12), (\<lparr> ri_client_id = 3, ri_seq = 7 \<rparr>, 13)]"]
  by (simp add: client_log_def)

end
