(* ===== verification/Replica.thy ===== *)
theory Replica
  imports Wal_Replay Learner
begin

text \<open>
  One member of a group (\<open>cluster/local_replica.rs\<close> and its parts \<open>_election\<close>, \<open>_accept\<close>,
  \<open>_replay\<close>): the election state with its lock-free mirrors, the lease, the handlers of the
  election and consensus messages, and the rebuild of a member from replayed records.

  Every handler is one whole call. An instant is a number of milliseconds relative to the process
  anchor; a handler that reads the clock has the reading as its argument \<open>now\<close>. The log is the list of
  records whose append succeeded, and a handler that appends has the outcome of the append as
  its argument \<open>ok\<close>. Metrics, log lines and wake-up signals are left out.
\<close>

section \<open>State\<close>

type_synonym instant = int

datatype replica_role = RoleFollower | RolePreCandidate | RoleCandidate | RoleLeader

fun role_as_u8 :: "replica_role \<Rightarrow> u8" where
  "role_as_u8 RoleFollower = 0"
| "role_as_u8 RolePreCandidate = 1"
| "role_as_u8 RoleCandidate = 2"
| "role_as_u8 RoleLeader = 3"

definition role_from_u8 :: "u8 \<Rightarrow> replica_role" where
  "role_from_u8 v =
     (if v = 0 then RoleFollower else if v = 1 then RolePreCandidate
      else if v = 2 then RoleCandidate else if v = 3 then RoleLeader else RoleFollower)"

record election_state =
  es_current_term :: u64
  es_voted_for :: "node_id option"
  es_role :: replica_role
  es_leader_id :: "node_id option"
  es_vote_lockout_until :: instant

definition election_initial :: "node_id \<Rightarrow> replica_role \<Rightarrow> instant \<Rightarrow> election_state" where
  "election_initial i role now =
     \<lparr> es_current_term = 0, es_voted_for = None, es_role = role,
       es_leader_id = (if role = RoleLeader then Some i else None), es_vote_lockout_until = now \<rparr>"

record wal_handle =
  wh_group_id :: u64
  wh_records :: "wal_record list"
  wh_snapshot_slot :: slot_index

record 'e px_local_replica =
  re_id :: node_id
  re_acceptor :: px_acceptor
  re_learner :: "'e px_learner"
  re_voting :: bool
  re_election :: election_state
  re_term_atomic :: u64
  re_role_atomic :: u8
  re_lease_read_until_ms :: u64
  re_last_quorum_heartbeat_ms :: u64
  re_lease_duration_ms :: u64
  re_wal :: "wal_handle option"
  re_known_commit_slot :: slot_index
  re_gap_slots :: "(slot_index, unit) omap"
  re_fetchgap_inflight :: u64

definition instant_to_anchor_ms :: "instant \<Rightarrow> u64" where
  "instant_to_anchor_ms t = word_of_int (min (max 0 t) 18446744073709551615)"

definition anchor_ms_to_instant :: "u64 \<Rightarrow> instant" where
  "anchor_ms_to_instant ms = uint ms"

definition new_with_learner :: "node_id \<Rightarrow> replica_role \<Rightarrow> 'e px_learner \<Rightarrow> instant \<Rightarrow> 'e px_local_replica" where
  "new_with_learner i role l now =
     \<lparr> re_id = i, re_acceptor = acceptor_new, re_learner = l, re_voting = True,
       re_election = election_initial i role now, re_term_atomic = 0,
       re_role_atomic = role_as_u8 role,
       re_lease_read_until_ms = instant_to_anchor_ms now,
       re_last_quorum_heartbeat_ms = instant_to_anchor_ms now,
       re_lease_duration_ms = 3000, re_wal = None, re_known_commit_slot = 0,
       re_gap_slots = [], re_fetchgap_inflight = 0 \<rparr>"

definition new_inheriting_election_state :: "'e px_local_replica \<Rightarrow> instant \<Rightarrow> 'e px_local_replica" where
  "new_inheriting_election_state prior now =
     prior\<lparr>re_term_atomic := es_current_term (re_election prior),
           re_role_atomic := role_as_u8 (es_role (re_election prior)),
           re_lease_read_until_ms := instant_to_anchor_ms now,
           re_last_quorum_heartbeat_ms := instant_to_anchor_ms now,
           re_known_commit_slot := 0, re_gap_slots := [], re_fetchgap_inflight := 0\<rparr>"

section \<open>Election state and lease\<close>

definition with_election_state ::
    "(election_state \<Rightarrow> election_state) \<Rightarrow> 'e px_local_replica \<Rightarrow> 'e px_local_replica" where
  "with_election_state f r =
     (let s = f (re_election r) in r\<lparr>re_election := s, re_term_atomic := es_current_term s\<rparr>)"

definition set_role_atomic :: "replica_role \<Rightarrow> 'e px_local_replica \<Rightarrow> 'e px_local_replica" where
  "set_role_atomic role r = r\<lparr>re_role_atomic := role_as_u8 role\<rparr>"

definition replica_role_of :: "'e px_local_replica \<Rightarrow> replica_role" where
  "replica_role_of r = role_from_u8 (re_role_atomic r)"

definition is_leader :: "'e px_local_replica \<Rightarrow> bool" where
  "is_leader r \<longleftrightarrow> replica_role_of r = RoleLeader"

definition lease_read_until :: "'e px_local_replica \<Rightarrow> instant" where
  "lease_read_until r = anchor_ms_to_instant (re_lease_read_until_ms r)"

definition lease_read_valid :: "instant \<Rightarrow> 'e px_local_replica \<Rightarrow> bool" where
  "lease_read_valid now r \<longleftrightarrow> is_leader r \<and> now < lease_read_until r"

definition reset_lease_to :: "instant \<Rightarrow> 'e px_local_replica \<Rightarrow> 'e px_local_replica" where
  "reset_lease_to now r =
     r\<lparr>re_lease_read_until_ms := instant_to_anchor_ms now,
       re_last_quorum_heartbeat_ms := instant_to_anchor_ms now\<rparr>"

definition extend_lease_read_until :: "instant \<Rightarrow> 'e px_local_replica \<Rightarrow> 'e px_local_replica" where
  "extend_lease_read_until candidate r =
     r\<lparr>re_lease_read_until_ms := max (re_lease_read_until_ms r) (instant_to_anchor_ms candidate)\<rparr>"

definition record_quorum_heartbeat :: "instant \<Rightarrow> 'e px_local_replica \<Rightarrow> 'e px_local_replica" where
  "record_quorum_heartbeat now r = r\<lparr>re_last_quorum_heartbeat_ms := instant_to_anchor_ms now\<rparr>"

definition renew_lease :: "instant \<Rightarrow> u64 \<Rightarrow> u64 \<Rightarrow> instant \<Rightarrow> 'e px_local_replica \<Rightarrow> 'e px_local_replica" where
  "renew_lease t_send lease_duration_ms max_clock_skew_ms now r =
     record_quorum_heartbeat now
       (extend_lease_read_until (t_send + max 0 (uint lease_duration_ms - uint max_clock_skew_ms)) r)"

section \<open>Role transitions\<close>

definition become_follower :: "instant \<Rightarrow> u64 \<Rightarrow> 'e px_local_replica \<Rightarrow> 'e px_local_replica" where
  "become_follower now new_term r =
     reset_lease_to now (set_role_atomic RoleFollower
       (with_election_state (\<lambda>s0.
          let s = (if es_current_term s0 < new_term
                   then s0\<lparr>es_current_term := new_term, es_voted_for := None\<rparr> else s0)
          in s\<lparr>es_role := RoleFollower, es_leader_id := None\<rparr>) r))"

definition become_precandidate :: "'e px_local_replica \<Rightarrow> 'e px_local_replica" where
  "become_precandidate r =
     set_role_atomic RolePreCandidate (with_election_state (\<lambda>s. s\<lparr>es_role := RolePreCandidate\<rparr>) r)"

definition become_candidate :: "instant \<Rightarrow> u64 \<Rightarrow> 'e px_local_replica \<Rightarrow> 'e px_local_replica" where
  "become_candidate now new_term r =
     set_role_atomic RoleCandidate (with_election_state (\<lambda>s.
       s\<lparr>es_current_term := new_term, es_voted_for := Some (re_id r), es_role := RoleCandidate,
         es_vote_lockout_until := now + uint (re_lease_duration_ms r)\<rparr>) r)"

definition become_leader :: "instant \<Rightarrow> 'e px_local_replica \<Rightarrow> 'e px_local_replica" where
  "become_leader now r =
     reset_lease_to now (set_role_atomic RoleLeader
       (with_election_state (\<lambda>s. s\<lparr>es_role := RoleLeader, es_leader_id := Some (re_id r)\<rparr>) r))"

section \<open>Persistence\<close>

definition wal_append :: "bool \<Rightarrow> (u64 \<Rightarrow> wal_record) \<Rightarrow> 'e px_local_replica \<Rightarrow> 'e px_local_replica" where
  "wal_append ok mk r =
     (case re_wal r of
        None \<Rightarrow> r
      | Some w \<Rightarrow>
          if ok then r\<lparr>re_wal := Some (w\<lparr>wh_records := wh_records w @ [mk (wh_group_id w)]\<rparr>)\<rparr> else r)"

definition persist_current_vote :: "bool \<Rightarrow> 'e px_local_replica \<Rightarrow> 'e px_local_replica" where
  "persist_current_vote ok r =
     (let term = re_term_atomic r;
          voted_for = (case es_voted_for (re_election r) of None \<Rightarrow> re_id r | Some v \<Rightarrow> v)
      in wal_append ok (\<lambda>g. from_vote_granted g term voted_for) r)"

section \<open>Election handlers\<close>

record vote_request =
  vq_term :: u64
  vq_candidate_id :: node_id
  vq_accepted_log_tip_slot :: slot_index
  vq_accepted_log_tip_term :: u64

record vote_reply =
  vr_term :: u64
  vr_granted :: bool
  vr_contiguous_chosen :: slot_index
  vr_last_chosen_term :: u64
  vr_highest_seen_slot :: slot_index

record heartbeat_request =
  hq_term :: u64
  hq_leader_id :: node_id
  hq_committed_safe_slot :: slot_index

record heartbeat_reply =
  hr_term :: u64
  hr_success :: bool
  hr_contiguous_chosen :: slot_index
  hr_last_chosen_term :: u64
  hr_contiguous_applied :: slot_index
  hr_highest_seen_slot :: slot_index
  hr_durable_snapshot_slot :: slot_index

record step_down_request =
  dq_term :: u64
  dq_target_leader_id :: node_id

record step_down_reply =
  dr_accepted :: bool
  dr_current_term :: u64
  dr_current_leader_id :: node_id

definition replica_log_tip :: "'e px_local_replica \<Rightarrow> slot_index \<times> u64" where
  "replica_log_tip r = (case accepted_log_tip (re_acceptor r) of None \<Rightarrow> (0, 0) | Some t \<Rightarrow> t)"

definition candidate_log_up_to_date :: "vote_request \<Rightarrow> 'e px_local_replica \<Rightarrow> bool" where
  "candidate_log_up_to_date req r =
     (let (my_slot, my_term) = replica_log_tip r
      in my_term < vq_accepted_log_tip_term req \<or>
         my_term = vq_accepted_log_tip_term req \<and> my_slot \<le> vq_accepted_log_tip_slot req)"

definition frontier_triple :: "'e px_local_replica \<Rightarrow> slot_index \<times> u64 \<times> slot_index" where
  "frontier_triple r =
     (lr_contiguous_chosen (re_learner r), lr_last_chosen_term (re_learner r), acc_highest (re_acceptor r))"

definition vote_reply_of :: "u64 \<Rightarrow> bool \<Rightarrow> 'e px_local_replica \<Rightarrow> vote_reply" where
  "vote_reply_of term granted r =
     (let (chosen, chosen_term, seen) = frontier_triple r
      in \<lparr> vr_term = term, vr_granted = granted, vr_contiguous_chosen = chosen,
           vr_last_chosen_term = chosen_term, vr_highest_seen_slot = seen \<rparr>)"

definition lockout_over :: "instant \<Rightarrow> 'e px_local_replica \<Rightarrow> bool" where
  "lockout_over now r \<longleftrightarrow>
     es_vote_lockout_until (re_election r) \<le> now \<and>
     (es_role (re_election r) \<noteq> RoleLeader \<or> lease_read_until r \<le> now)"

definition handle_pre_vote :: "instant \<Rightarrow> vote_request \<Rightarrow> 'e px_local_replica \<Rightarrow> vote_reply" where
  "handle_pre_vote now req r =
     vote_reply_of (es_current_term (re_election r))
       (es_current_term (re_election r) < vq_term req \<and> candidate_log_up_to_date req r \<and> lockout_over now r) r"

definition vote_term_ok :: "vote_request \<Rightarrow> election_state \<Rightarrow> bool" where
  "vote_term_ok req s \<longleftrightarrow>
     es_current_term s < vq_term req \<or>
     vq_term req = es_current_term s \<and>
       (case es_voted_for s of None \<Rightarrow> True | Some v \<Rightarrow> v = vq_candidate_id req)"

definition grant_vote :: "instant \<Rightarrow> vote_request \<Rightarrow> election_state \<Rightarrow> election_state" where
  "grant_vote until req s0 =
     (let s = (if es_current_term s0 < vq_term req
               then s0\<lparr>es_current_term := vq_term req, es_voted_for := None,
                       es_role := RoleFollower, es_leader_id := None\<rparr> else s0)
      in s\<lparr>es_voted_for := Some (vq_candidate_id req), es_vote_lockout_until := until\<rparr>)"

definition handle_request_vote ::
    "bool \<Rightarrow> instant \<Rightarrow> vote_request \<Rightarrow> 'e px_local_replica \<Rightarrow> vote_reply \<times> 'e px_local_replica" where
  "handle_request_vote ok now req r =
     (if vote_term_ok req (re_election r) \<and> candidate_log_up_to_date req r \<and> lockout_over now r
      then let s = grant_vote (now + uint (re_lease_duration_ms r)) req (re_election r);
               r1 = set_role_atomic RoleFollower (r\<lparr>re_election := s, re_term_atomic := es_current_term s\<rparr>);
               r2 = persist_current_vote ok r1
           in (vote_reply_of (es_current_term s) True r2, r2)
      else (vote_reply_of (es_current_term (re_election r)) False r, r))"

definition advance_known_commit_slot :: "slot_index \<Rightarrow> 'e px_local_replica \<Rightarrow> 'e px_local_replica" where
  "advance_known_commit_slot slot r = r\<lparr>re_known_commit_slot := max (re_known_commit_slot r) slot\<rparr>"

definition heartbeat_adopt :: "instant \<Rightarrow> heartbeat_request \<Rightarrow> election_state \<Rightarrow> election_state" where
  "heartbeat_adopt until req s0 =
     (let s = (if es_current_term s0 < hq_term req
               then s0\<lparr>es_current_term := hq_term req, es_voted_for := None\<rparr> else s0)
      in s\<lparr>es_role := RoleFollower, es_leader_id := Some (hq_leader_id req), es_vote_lockout_until := until\<rparr>)"

definition handle_heartbeat ::
    "instant \<Rightarrow> heartbeat_request \<Rightarrow> 'e px_local_replica \<Rightarrow> heartbeat_reply \<times> 'e px_local_replica" where
  "handle_heartbeat now req r =
     (let success = (es_current_term (re_election r) \<le> hq_term req);
          s = heartbeat_adopt (now + uint (re_lease_duration_ms r)) req (re_election r);
          r1 = (if success
                then advance_known_commit_slot (hq_committed_safe_slot req)
                       (set_role_atomic RoleFollower (r\<lparr>re_election := s, re_term_atomic := es_current_term s\<rparr>))
                else r);
          (chosen, chosen_term, seen) = frontier_triple r1
      in (\<lparr> hr_term = es_current_term (re_election r1), hr_success = success,
            hr_contiguous_chosen = chosen, hr_last_chosen_term = chosen_term,
            hr_contiguous_applied = lr_contiguous_applied (re_learner r1),
            hr_highest_seen_slot = seen,
            hr_durable_snapshot_slot = (case re_wal r1 of None \<Rightarrow> 0 | Some w \<Rightarrow> wh_snapshot_slot w) \<rparr>, r1))"

definition handle_step_down ::
    "instant \<Rightarrow> step_down_request \<Rightarrow> 'e px_local_replica \<Rightarrow> step_down_reply \<times> 'e px_local_replica" where
  "handle_step_down now req r =
     (let s = re_election r;
          accepted = (es_role s = RoleLeader \<and> re_id r = dq_target_leader_id req \<and>
                      dq_term req = es_current_term s)
      in (\<lparr> dr_accepted = accepted, dr_current_term = es_current_term s,
            dr_current_leader_id = (case es_leader_id s of None \<Rightarrow> 0 | Some l \<Rightarrow> l) \<rparr>,
          if accepted then become_follower now (es_current_term s) r else r))"

section \<open>Consensus handlers\<close>

definition on_prepare ::
    "bool \<Rightarrow> instant \<Rightarrow> slot_index \<Rightarrow> px_ballot \<Rightarrow> u64 \<Rightarrow> 'e px_local_replica \<Rightarrow>
     px_prepare_reply \<times> 'e px_local_replica" where
  "on_prepare ok now slot ballot term r =
     (let local_term = re_term_atomic r in
      if term < local_term then (PrepTermStale slot local_term, r)
      else let r1 = (if local_term < term then become_follower now term r else r);
               (reply, a) = prepare slot ballot (re_acceptor r1);
               r2 = r1\<lparr>re_acceptor := a\<rparr>
           in (reply, case reply of
                        PrepPromised _ _ \<Rightarrow> wal_append ok (\<lambda>g. from_promised g term slot ballot) r2
                      | _ \<Rightarrow> r2))"

definition on_accept_inner ::
    "instant \<Rightarrow> px_log_entry \<Rightarrow> 'e px_local_replica \<Rightarrow> px_accept_reply \<times> 'e px_local_replica" where
  "on_accept_inner now e r =
     (let local_term = re_term_atomic r in
      if e_term e < local_term then (AccTermStale (e_slot e) local_term, r)
      else let r1 = (if local_term < e_term e then become_follower now (e_term e) r else r);
               (reply, a) = accept e (re_acceptor r1)
           in (reply, r1\<lparr>re_acceptor := a\<rparr>))"

definition on_accept_persist :: "bool \<Rightarrow> px_log_entry \<Rightarrow> 'e px_local_replica \<Rightarrow> 'e px_local_replica" where
  "on_accept_persist ok e r = wal_append ok (\<lambda>g. from_accepted g e) r"

definition on_accept ::
    "bool \<Rightarrow> instant \<Rightarrow> px_log_entry \<Rightarrow> 'e px_local_replica \<Rightarrow> px_accept_reply \<times> 'e px_local_replica" where
  "on_accept ok now e r =
     (let (reply, r1) = on_accept_inner now e r
      in (reply, case reply of AccAccepted _ _ \<Rightarrow> on_accept_persist ok e r1 | _ \<Rightarrow> r1))"

section \<open>Rebuild from replay\<close>

definition sat_succ :: "u64 \<Rightarrow> u64" where
  "sat_succ s = (if s = u64_max then s else s + 1)"

definition slot_range :: "slot_index \<Rightarrow> slot_index \<Rightarrow> slot_index list" where
  "slot_range a b = map of_nat [unat a..<Suc (unat b)]"

fun restore_accepted :: "wal_record list \<Rightarrow> px_acceptor \<Rightarrow> string + px_acceptor" where
  "restore_accepted [] a = Inr a"
| "restore_accepted (r # rs) a =
     (if wr_type r = RecAccepted
      then case to_log_entry r of
          None \<Rightarrow> Inl ''restore replay accepted missing log entry''
        | Some e \<Rightarrow> restore_accepted rs (snd (accept e a))
      else restore_accepted rs a)"

definition restore_promised :: "wal_record list \<Rightarrow> px_acceptor \<Rightarrow> px_acceptor" where
  "restore_promised rs a =
     fold (\<lambda>r a. if wr_type r = RecPromised then snd (prepare (wr_slot r) (wr_ballot r) a) else a) rs a"

definition restore_learner ::
    "'e kv_iface \<Rightarrow> slot_index \<Rightarrow> px_acceptor \<Rightarrow> 'e px_learner \<Rightarrow> 'e px_learner" where
  "restore_learner ki resume_from a l =
     (let (start, l1) =
        (if 0 < resume_from
         then (sat_succ resume_from,
               seed_resume_frontier resume_from
                 (case accepted_at a resume_from of None \<Rightarrow> 0 | Some e \<Rightarrow> e_term e) l)
         else (1, l))
      in fold (\<lambda>slot l. case accepted_at a slot of None \<Rightarrow> l | Some e \<Rightarrow> learn ki e [] l)
           (slot_range start (acc_highest a)) l1)"

definition restore_from_replay_with_engine ::
    "'e kv_iface \<Rightarrow> node_id \<Rightarrow> replica_role \<Rightarrow> instant \<Rightarrow> slot_index \<Rightarrow> 'e \<Rightarrow>
     wal_record list \<Rightarrow> u64 \<Rightarrow> node_id option \<Rightarrow> string + 'e px_local_replica" where
  "restore_from_replay_with_engine ki i role now resume_from engine records term voted_for =
     bind_sum (restore_accepted records acceptor_new) (\<lambda>a0.
       let a = restore_promised records a0;
           r0 = (new_with_learner i role (learner_new engine) now)\<lparr>re_acceptor := a\<rparr>;
           r1 = set_role_atomic role (with_election_state (\<lambda>s.
                  s\<lparr>es_current_term := term, es_voted_for := voted_for, es_role := role,
                    es_leader_id := (if role = RoleLeader then Some i else None)\<rparr>) r0)
       in Inr (r1\<lparr>re_learner := restore_learner ki resume_from a (re_learner r1)\<rparr>))"

end
