(* ===== verification/Replica_Vote.thy ===== *)
theory Replica_Vote
  imports Replica
begin

text \<open>
  The votes of one member over its whole life: the sequence of calls that change its election
  state, the votes they cast, and the proof that at most one candidate gets the member's vote in
  a term, in memory, in the log and across a restart.
\<close>

section \<open>Runs\<close>

datatype replica_event =
    RvRequestVote bool instant vote_request
  | RvHeartbeat instant heartbeat_request
  | RvStepDown instant step_down_request
  | RvPrepare bool instant slot_index px_ballot u64
  | RvAccept bool instant px_log_entry
  | RvFollower instant u64
  | RvPreCandidate
  | RvCandidate bool instant u64
  | RvLeader instant

fun replica_step :: "replica_event \<Rightarrow> 'e px_local_replica \<Rightarrow> 'e px_local_replica" where
  "replica_step (RvRequestVote ok now req) r = snd (handle_request_vote ok now req r)"
| "replica_step (RvHeartbeat now req) r = snd (handle_heartbeat now req r)"
| "replica_step (RvStepDown now req) r = snd (handle_step_down now req r)"
| "replica_step (RvPrepare ok now slot b t) r = snd (on_prepare ok now slot b t r)"
| "replica_step (RvAccept ok now e) r = snd (on_accept ok now e r)"
| "replica_step (RvFollower now t) r = become_follower now t r"
| "replica_step RvPreCandidate r = become_precandidate r"
| "replica_step (RvCandidate ok now t) r = persist_current_vote ok (become_candidate now t r)"
| "replica_step (RvLeader now) r = become_leader now r"

definition run_replica :: "replica_event list \<Rightarrow> 'e px_local_replica \<Rightarrow> 'e px_local_replica" where
  "run_replica evs r = fold replica_step evs r"

text \<open>The votes a call casts: term and candidate.\<close>

fun votes_cast :: "replica_event \<Rightarrow> 'e px_local_replica \<Rightarrow> (u64 \<times> node_id) set" where
  "votes_cast (RvRequestVote ok now req) r =
     (if vr_granted (fst (handle_request_vote ok now req r)) then {(vq_term req, vq_candidate_id req)} else {})"
| "votes_cast (RvCandidate ok now t) r = {(t, re_id r)}"
| "votes_cast _ r = {}"

text \<open>A candidacy opens a term above the member's own. The election driver computes the term
  before it waits for the pre-votes and does not look at it again.\<close>

fun candidacy_fresh :: "replica_event \<Rightarrow> 'e px_local_replica \<Rightarrow> bool" where
  "candidacy_fresh (RvCandidate ok now t) r \<longleftrightarrow> es_current_term (re_election r) < t"
| "candidacy_fresh _ r \<longleftrightarrow> True"

fun append_ok :: "replica_event \<Rightarrow> bool" where
  "append_ok (RvRequestVote ok _ _) = ok"
| "append_ok (RvPrepare ok _ _ _ _) = ok"
| "append_ok (RvAccept ok _ _) = ok"
| "append_ok (RvCandidate ok _ _) = ok"
| "append_ok _ = True"

fun holds_along :: "('ev \<Rightarrow> 'st \<Rightarrow> bool) \<Rightarrow> ('ev \<Rightarrow> 'st \<Rightarrow> 'st) \<Rightarrow> 'ev list \<Rightarrow> 'st \<Rightarrow> bool" where
  "holds_along P step [] st \<longleftrightarrow> True"
| "holds_along P step (ev # evs) st \<longleftrightarrow> P ev st \<and> holds_along P step evs (step ev st)"

fun union_along :: "('ev \<Rightarrow> 'st \<Rightarrow> 'a set) \<Rightarrow> ('ev \<Rightarrow> 'st \<Rightarrow> 'st) \<Rightarrow> 'ev list \<Rightarrow> 'st \<Rightarrow> 'a set" where
  "union_along f step [] st = {}"
| "union_along f step (ev # evs) st = f ev st \<union> union_along f step evs (step ev st)"

section \<open>The contract of a vote register\<close>

locale vote_register =
  fixes step :: "'ev \<Rightarrow> 'st \<Rightarrow> 'st"
    and ok :: "'ev \<Rightarrow> 'st \<Rightarrow> bool"
    and inv :: "'st \<Rightarrow> bool"
    and votes :: "'ev \<Rightarrow> 'st \<Rightarrow> ('t::linorder \<times> 'c) set"
    and epoch :: "'st \<Rightarrow> 't"
    and vote :: "'st \<Rightarrow> 'c option"
  assumes inv_step: "inv st \<Longrightarrow> inv (step ev st)"
    and epoch_step: "inv st \<Longrightarrow> ok ev st \<Longrightarrow> epoch st \<le> epoch (step ev st)"
    and vote_step: "inv st \<Longrightarrow> ok ev st \<Longrightarrow> epoch (step ev st) = epoch st \<Longrightarrow> vote st = Some c \<Longrightarrow>
      vote (step ev st) = Some c"
    and vote_cast: "inv st \<Longrightarrow> ok ev st \<Longrightarrow> (t, c) \<in> votes ev st \<Longrightarrow>
      epoch (step ev st) = t \<and> vote (step ev st) = Some c"
begin

lemma run_inv: "inv st \<Longrightarrow> inv (fold step evs st)"
  by (induction evs arbitrary: st) (auto intro: inv_step)

lemma run_epoch: "inv st \<Longrightarrow> holds_along ok step evs st \<Longrightarrow> epoch st \<le> epoch (fold step evs st)"
proof (induction evs arbitrary: st)
  case (Cons ev evs)
  then have "epoch (step ev st) \<le> epoch (fold step evs (step ev st))" using inv_step by simp
  then show ?case using Cons.prems epoch_step [of st ev] by simp
qed simp

lemma run_keeps:
  "inv st \<Longrightarrow> holds_along ok step evs st \<Longrightarrow> vote st = Some c \<Longrightarrow>
   epoch (fold step evs st) = epoch st \<Longrightarrow> vote (fold step evs st) = Some c"
proof (induction evs arbitrary: st)
  case (Cons ev evs)
  let ?st = "step ev st"
  have "epoch st \<le> epoch ?st" using Cons.prems epoch_step by simp
  moreover have "epoch ?st \<le> epoch (fold step evs ?st)"
    by (rule run_epoch) (use Cons.prems inv_step in simp_all)
  ultimately have same: "epoch ?st = epoch st" "epoch (fold step evs ?st) = epoch ?st"
    using Cons.prems(4) by simp_all
  have "vote ?st = Some c" using Cons.prems same(1) vote_step by simp
  then show ?case using Cons.IH [of ?st] Cons.prems same(2) inv_step by simp
qed simp

lemma run_cast:
  "inv st \<Longrightarrow> holds_along ok step evs st \<Longrightarrow> (t, c) \<in> union_along votes step evs st \<Longrightarrow>
   epoch st \<le> t \<and> t \<le> epoch (fold step evs st) \<and>
   (t = epoch (fold step evs st) \<longrightarrow> vote (fold step evs st) = Some c)"
proof (induction evs arbitrary: st)
  case (Cons ev evs)
  let ?st = "step ev st"
  have inv: "inv ?st" and le: "epoch st \<le> epoch ?st" and rest: "holds_along ok step evs ?st"
    using Cons.prems inv_step epoch_step by simp_all
  show ?case
  proof (cases "(t, c) \<in> votes ev st")
    case True
    then have "epoch ?st = t" "vote ?st = Some c" using Cons.prems vote_cast by simp_all
    then show ?thesis using run_keeps [OF inv rest] run_epoch [OF inv rest] le by auto
  next
    case False
    then have "(t, c) \<in> union_along votes step evs ?st" using Cons.prems by simp
    from Cons.IH [OF inv rest this] show ?thesis using le by auto
  qed
qed simp

text \<open>A vote already held in a epoch is the only one cast in it from then on.\<close>

lemma run_held:
  "inv st \<Longrightarrow> holds_along ok step evs st \<Longrightarrow> vote st = Some a \<Longrightarrow>
   (epoch st, b) \<in> union_along votes step evs st \<Longrightarrow> a = b"
proof (induction evs arbitrary: st)
  case (Cons ev evs)
  let ?st = "step ev st"
  have inv: "inv ?st" and le: "epoch st \<le> epoch ?st" and rest: "holds_along ok step evs ?st"
    using Cons.prems inv_step epoch_step by simp_all
  show ?case
  proof (cases "(epoch st, b) \<in> votes ev st")
    case True
    then have "epoch ?st = epoch st" "vote ?st = Some b" using Cons.prems vote_cast by simp_all
    then show ?thesis using Cons.prems vote_step [of st ev a] by simp
  next
    case False
    then have there: "(epoch st, b) \<in> union_along votes step evs ?st" using Cons.prems by simp
    then have "epoch ?st = epoch st" using run_cast [OF inv rest there] le by simp
    then show ?thesis using Cons.IH [OF inv rest] there vote_step Cons.prems by simp
  qed
qed simp

lemma run_unique:
  "inv st \<Longrightarrow> holds_along ok step evs st \<Longrightarrow> (t, c) \<in> union_along votes step evs st \<Longrightarrow>
   (t, c') \<in> union_along votes step evs st \<Longrightarrow> c = c'"
proof (induction evs arbitrary: st)
  case (Cons ev evs)
  let ?st = "step ev st"
  have inv: "inv ?st" and rest: "holds_along ok step evs ?st"
    using Cons.prems inv_step by simp_all
  have here: "epoch ?st = t \<and> vote ?st = Some a" if "(t, a) \<in> votes ev st" for a
    using that Cons.prems vote_cast by simp
  have mixed: "a = b" if "(t, a) \<in> votes ev st" "(t, b) \<in> union_along votes step evs ?st" for a b
    using here [OF that(1)] that(2) run_held [OF inv rest, of a b] by simp
  have both: "c = c'" if "(t, c) \<in> votes ev st" "(t, c') \<in> votes ev st"
    using here [OF that(1)] here [OF that(2)] by simp
  show ?case
    using Cons.prems(3,4) both mixed [of c c'] mixed [of c' c] Cons.IH [OF inv rest] by auto
qed simp

end

section \<open>A member is a vote register\<close>

definition mirror_ok :: "'e px_local_replica \<Rightarrow> bool" where
  "mirror_ok r \<longleftrightarrow> re_term_atomic r = es_current_term (re_election r)"

definition log_of :: "'e px_local_replica \<Rightarrow> wal_record list" where
  "log_of r = (case re_wal r of None \<Rightarrow> [] | Some w \<Rightarrow> wh_records w)"

lemma wal_append_frame [simp]:
  "re_election (wal_append ok mk r) = re_election r" "re_term_atomic (wal_append ok mk r) = re_term_atomic r"
  "re_acceptor (wal_append ok mk r) = re_acceptor r" "re_id (wal_append ok mk r) = re_id r"
  "re_wal (wal_append ok mk r) = None \<longleftrightarrow> re_wal r = None"
  by (simp_all add: wal_append_def split: option.split)

lemma wal_append_log:
  "log_of (wal_append ok mk r) =
     (case re_wal r of None \<Rightarrow> [] | Some w \<Rightarrow> if ok then log_of r @ [mk (wh_group_id w)] else log_of r)"
  by (simp add: wal_append_def log_of_def split: option.split)

lemma log_of_cong: "re_wal r = re_wal r' \<Longrightarrow> log_of r = log_of r'"
  by (simp add: log_of_def)

lemma log_of_update [simp]:
  "log_of (r\<lparr>re_election := s\<rparr>) = log_of r" "log_of (r\<lparr>re_term_atomic := t\<rparr>) = log_of r"
  "log_of (r\<lparr>re_role_atomic := b\<rparr>) = log_of r" "log_of (r\<lparr>re_acceptor := a\<rparr>) = log_of r"
  by (simp_all add: log_of_def)

lemmas transition_defs =
  become_follower_def become_precandidate_def become_candidate_def become_leader_def
  with_election_state_def set_role_atomic_def reset_lease_to_def Let_def

lemma become_follower_frame [simp]:
  "re_wal (become_follower now t r) = re_wal r" "re_acceptor (become_follower now t r) = re_acceptor r"
  "re_id (become_follower now t r) = re_id r"
  "re_term_atomic (become_follower now t r) = es_current_term (re_election (become_follower now t r))"
  "es_current_term (re_election (become_follower now t r)) = max (es_current_term (re_election r)) t"
  "es_voted_for (re_election (become_follower now t r)) =
     (if es_current_term (re_election r) < t then None else es_voted_for (re_election r))"
  by (auto simp: transition_defs max_def)

lemma become_candidate_frame [simp]:
  "re_wal (become_candidate now t r) = re_wal r" "re_acceptor (become_candidate now t r) = re_acceptor r"
  "re_term_atomic (become_candidate now t r) = t"
  "es_current_term (re_election (become_candidate now t r)) = t"
  "es_voted_for (re_election (become_candidate now t r)) = Some (re_id r)"
  by (simp_all add: transition_defs)

lemma become_other_frame [simp]:
  "re_wal (become_precandidate r) = re_wal r" "re_wal (become_leader now r) = re_wal r"
  "re_acceptor (become_precandidate r) = re_acceptor r" "re_acceptor (become_leader now r) = re_acceptor r"
  "re_term_atomic (become_precandidate r) = es_current_term (re_election r)"
  "re_term_atomic (become_leader now r) = es_current_term (re_election r)"
  "es_current_term (re_election (become_precandidate r)) = es_current_term (re_election r)"
  "es_current_term (re_election (become_leader now r)) = es_current_term (re_election r)"
  "es_voted_for (re_election (become_precandidate r)) = es_voted_for (re_election r)"
  "es_voted_for (re_election (become_leader now r)) = es_voted_for (re_election r)"
  by (simp_all add: transition_defs)

text \<open>What each call does to the term and the vote.\<close>

definition vote_granted :: "instant \<Rightarrow> vote_request \<Rightarrow> 'e px_local_replica \<Rightarrow> bool" where
  "vote_granted now req r \<longleftrightarrow>
     vote_term_ok req (re_election r) \<and> candidate_log_up_to_date req r \<and> lockout_over now r"

lemma request_vote_granted [simp]:
  "vr_granted (fst (handle_request_vote ok now req r)) \<longleftrightarrow> vote_granted now req r"
  by (simp add: handle_request_vote_def vote_granted_def vote_reply_of_def Let_def case_prod_unfold)

lemma request_vote_refused: "\<not> vote_granted now req r \<Longrightarrow> snd (handle_request_vote ok now req r) = r"
  by (auto simp: handle_request_vote_def vote_granted_def)

lemma request_vote_state:
  assumes "vote_granted now req r" and r'_def: "r' = snd (handle_request_vote ok now req r)"
  shows "es_current_term (re_election r') = vq_term req" "re_term_atomic r' = vq_term req"
    "es_voted_for (re_election r') = Some (vq_candidate_id req)"
    "es_current_term (re_election r) \<le> vq_term req"
    "es_current_term (re_election r) = vq_term req \<Longrightarrow> es_voted_for (re_election r) = Some c \<Longrightarrow>
     c = vq_candidate_id req"
    "log_of r' = (case re_wal r of None \<Rightarrow> []
       | Some w \<Rightarrow> if ok then log_of r @ [from_vote_granted (wh_group_id w) (vq_term req) (vq_candidate_id req)]
                   else log_of r)"
    "re_wal r' = None \<longleftrightarrow> re_wal r = None" "re_acceptor r' = re_acceptor r"
proof -
  have ok: "vote_term_ok req (re_election r)" using assms(1) by (simp add: vote_granted_def)
  then show le: "es_current_term (re_election r) \<le> vq_term req" by (auto simp: vote_term_ok_def)
  show "es_current_term (re_election r) = vq_term req \<Longrightarrow> es_voted_for (re_election r) = Some c \<Longrightarrow>
     c = vq_candidate_id req" using ok by (auto simp: vote_term_ok_def)
  let ?s = "grant_vote (now + uint (re_lease_duration_ms r)) req (re_election r)"
  have s: "es_current_term ?s = vq_term req" "es_voted_for ?s = Some (vq_candidate_id req)"
    using ok by (auto simp: grant_vote_def Let_def vote_term_ok_def)
  have r': "r' = persist_current_vote ok
      (set_role_atomic RoleFollower (r\<lparr>re_election := ?s, re_term_atomic := es_current_term ?s\<rparr>))"
    using assms(1) by (simp add: r'_def handle_request_vote_def vote_granted_def Let_def)
  show "es_current_term (re_election r') = vq_term req" "re_term_atomic r' = vq_term req"
    "es_voted_for (re_election r') = Some (vq_candidate_id req)"
    "re_wal r' = None \<longleftrightarrow> re_wal r = None" "re_acceptor r' = re_acceptor r"
    by (simp_all add: r' persist_current_vote_def set_role_atomic_def Let_def s)
  show "log_of r' = (case re_wal r of None \<Rightarrow> []
       | Some w \<Rightarrow> if ok then log_of r @ [from_vote_granted (wh_group_id w) (vq_term req) (vq_candidate_id req)]
                   else log_of r)"
    by (simp add: r' persist_current_vote_def set_role_atomic_def Let_def s wal_append_log split: option.split)
qed

lemma heartbeat_state:
  "es_current_term (re_election (snd (handle_heartbeat now req r))) = max (es_current_term (re_election r)) (hq_term req)"
  "es_voted_for (re_election (snd (handle_heartbeat now req r))) =
     (if es_current_term (re_election r) < hq_term req then None else es_voted_for (re_election r))"
  "re_wal (snd (handle_heartbeat now req r)) = re_wal r"
  "re_acceptor (snd (handle_heartbeat now req r)) = re_acceptor r"
  "mirror_ok r \<Longrightarrow> mirror_ok (snd (handle_heartbeat now req r))"
  by (auto simp: handle_heartbeat_def heartbeat_adopt_def advance_known_commit_slot_def set_role_atomic_def
      mirror_ok_def Let_def case_prod_unfold max_def)

lemma step_down_state:
  "es_current_term (re_election (snd (handle_step_down now req r))) = es_current_term (re_election r)"
  "es_voted_for (re_election (snd (handle_step_down now req r))) = es_voted_for (re_election r)"
  "re_wal (snd (handle_step_down now req r)) = re_wal r"
  "re_acceptor (snd (handle_step_down now req r)) = re_acceptor r"
  "mirror_ok r \<Longrightarrow> mirror_ok (snd (handle_step_down now req r))"
  by (auto simp: handle_step_down_def mirror_ok_def Let_def)

text \<open>Prepare and Accept adopt a higher term and write at most one record, never a vote.\<close>

definition fenced :: "instant \<Rightarrow> u64 \<Rightarrow> 'e px_local_replica \<Rightarrow> 'e px_local_replica" where
  "fenced now t r = (if re_term_atomic r < t then become_follower now t r else r)"

lemma fenced_state:
  assumes "mirror_ok r"
  shows "mirror_ok (fenced now t r)" "re_wal (fenced now t r) = re_wal r"
    "re_acceptor (fenced now t r) = re_acceptor r"
    "es_current_term (re_election (fenced now t r)) = max (es_current_term (re_election r)) t"
    "es_voted_for (re_election (fenced now t r)) =
       (if es_current_term (re_election r) < t then None else es_voted_for (re_election r))"
  using assms by (auto simp: fenced_def mirror_ok_def max_def)

lemma on_prepare_eq:
  "snd (on_prepare ok now slot b t r) =
     (if t < re_term_atomic r then r
      else let r1 = fenced now t r; r2 = r1\<lparr>re_acceptor := snd (prepare slot b (re_acceptor r1))\<rparr> in
        if grants (re_acceptor r1) slot b then wal_append ok (\<lambda>g. from_promised g t slot b) r2 else r2)"
  by (simp add: on_prepare_def fenced_def Let_def case_prod_unfold prepare_reply)

lemma on_accept_eq:
  "snd (on_accept ok now e r) =
     (if e_term e < re_term_atomic r then r
      else let r1 = fenced now (e_term e) r; r2 = r1\<lparr>re_acceptor := snd (accept e (re_acceptor r1))\<rparr> in
        if admits (re_acceptor r1) e then wal_append ok (\<lambda>g. from_accepted g e) r2 else r2)"
  by (simp add: on_accept_def on_accept_inner_def on_accept_persist_def fenced_def Let_def case_prod_unfold
      accept_reply)

lemma on_prepare_state:
  assumes "mirror_ok r" and "r' = snd (on_prepare ok now slot b t r)"
  shows "mirror_ok r'" "es_current_term (re_election r') = max (es_current_term (re_election r)) t"
    "es_voted_for (re_election r') =
       (if es_current_term (re_election r) < t then None else es_voted_for (re_election r))"
    "re_wal r' = None \<longleftrightarrow> re_wal r = None"
  using assms fenced_state [OF assms(1), of now t]
  by (auto simp: on_prepare_eq Let_def mirror_ok_def max_def)

lemma on_accept_state:
  assumes "mirror_ok r" and "r' = snd (on_accept ok now e r)"
  shows "mirror_ok r'" "es_current_term (re_election r') = max (es_current_term (re_election r)) (e_term e)"
    "es_voted_for (re_election r') =
       (if es_current_term (re_election r) < e_term e then None else es_voted_for (re_election r))"
    "re_wal r' = None \<longleftrightarrow> re_wal r = None"
  using assms fenced_state [OF assms(1), of now "e_term e"]
  by (auto simp: on_accept_eq Let_def mirror_ok_def max_def)

lemma candidate_state:
  "es_current_term (re_election (persist_current_vote ok (become_candidate now t r))) = t"
  "es_voted_for (re_election (persist_current_vote ok (become_candidate now t r))) = Some (re_id r)"
  "re_term_atomic (persist_current_vote ok (become_candidate now t r)) = t"
  "re_acceptor (persist_current_vote ok (become_candidate now t r)) = re_acceptor r"
  "re_wal (persist_current_vote ok (become_candidate now t r)) = None \<longleftrightarrow> re_wal r = None"
  "log_of (persist_current_vote ok (become_candidate now t r)) =
     (case re_wal r of None \<Rightarrow> []
      | Some w \<Rightarrow> if ok then log_of r @ [from_vote_granted (wh_group_id w) t (re_id r)] else log_of r)"
  using log_of_cong [of "become_candidate now t r" r]
  by (simp_all add: persist_current_vote_def wal_append_log Let_def split: option.split)

lemmas handler_state =
  heartbeat_state step_down_state on_prepare_state [OF _ refl] on_accept_state [OF _ refl] candidate_state

lemma request_vote_mirror: "mirror_ok r \<Longrightarrow> mirror_ok (snd (handle_request_vote ok now req r))"
  by (cases "vote_granted now req r")
     (simp_all add: mirror_ok_def request_vote_state(1,2) [OF _ refl] request_vote_refused)

lemma request_vote_term:
  "es_current_term (re_election r) \<le> es_current_term (re_election (snd (handle_request_vote ok now req r)))"
  by (cases "vote_granted now req r")
     (simp_all add: request_vote_state(1,4) [OF _ refl] request_vote_refused)

lemma request_vote_keeps:
  assumes "es_voted_for (re_election r) = Some c"
    and "es_current_term (re_election (snd (handle_request_vote ok now req r))) = es_current_term (re_election r)"
  shows "es_voted_for (re_election (snd (handle_request_vote ok now req r))) = Some c"
proof (cases "vote_granted now req r")
  case True
  then show ?thesis using request_vote_state(1,3) [OF True refl, of ok] request_vote_state(5) [OF True refl] assms
    by simp
qed (simp add: request_vote_refused assms(1))

lemma step_mirror:
  assumes "mirror_ok r"
  shows "mirror_ok (replica_step ev r)"
  by (cases ev) (simp_all add: handler_state request_vote_mirror assms, simp_all add: mirror_ok_def candidate_state)

lemma step_term:
  assumes "mirror_ok r" and "candidacy_fresh ev r"
  shows "es_current_term (re_election r) \<le> es_current_term (re_election (replica_step ev r))"
  using assms by (cases ev) (simp_all add: handler_state request_vote_term)

lemma step_keeps_vote:
  assumes "mirror_ok r" and "candidacy_fresh ev r" and "es_voted_for (re_election r) = Some c"
    and "es_current_term (re_election (replica_step ev r)) = es_current_term (re_election r)"
  shows "es_voted_for (re_election (replica_step ev r)) = Some c"
  using assms
  by (cases ev) (simp_all add: handler_state request_vote_keeps max_def split: if_splits)

lemma step_casts:
  assumes "(t, c) \<in> votes_cast ev r"
  shows "es_current_term (re_election (replica_step ev r)) = t \<and>
    es_voted_for (re_election (replica_step ev r)) = Some c"
proof (cases ev)
  case (RvRequestVote ok now req)
  then have "vote_granted now req r" using assms by (simp split: if_splits)
  then show ?thesis using request_vote_state(1,3) [OF _ refl, of now req r ok] assms RvRequestVote by simp
qed (use assms in \<open>simp_all add: candidate_state\<close>)

interpretation member: vote_register replica_step candidacy_fresh mirror_ok votes_cast
  "\<lambda>r. es_current_term (re_election r)" "\<lambda>r. es_voted_for (re_election r)"
  by unfold_locales (auto intro: step_mirror step_term step_keeps_vote dest: step_casts)

section \<open>Votes in the log\<close>

lemma voted_for_from [simp]: "voted_for_id (from_vote_granted g t c) = Some c"
  by (simp add: voted_for_id_def from_vote_granted_def)

definition votes_for :: "u64 \<Rightarrow> node_id \<Rightarrow> wal_record \<Rightarrow> bool" where
  "votes_for t c x \<longleftrightarrow> wr_type x = RecVoteGranted \<and> wr_term x = t \<and> voted_for_id x = Some c"

lemma votes_for_from [simp]: "votes_for t c (from_vote_granted g t c)"
  by (simp add: votes_for_def) (simp add: from_vote_granted_def)

lemma append_log_subset:
  "x \<in> set (log_of (wal_append ok mk r)) \<Longrightarrow> x \<in> set (log_of r) \<or> (\<exists>g. x = mk g)"
  by (auto simp: wal_append_log split: option.splits if_splits)

lemma append_log_keeps: "x \<in> set (log_of r) \<Longrightarrow> x \<in> set (log_of (wal_append ok mk r))"
  by (cases "re_wal r") (simp_all add: wal_append_def log_of_def)

lemma fenced_log: "log_of (fenced now t r) = log_of r"
  by (rule log_of_cong) (simp add: fenced_def)

lemma consensus_log:
  assumes "ev = RvPrepare ok now slot b t \<or> ev = RvAccept ok now e"
  shows "set (log_of r) \<subseteq> set (log_of (replica_step ev r))"
    and "x \<in> set (log_of (replica_step ev r)) \<Longrightarrow> wr_type x = RecVoteGranted \<Longrightarrow> x \<in> set (log_of r)"
  using assms
  by (auto simp: on_prepare_eq on_accept_eq Let_def fenced_log from_promised_def from_accepted_def
      intro!: append_log_keeps dest!: append_log_subset split: if_splits)

lemma step_wal: "re_wal (replica_step ev r) = None \<longleftrightarrow> re_wal r = None"
proof (cases ev)
  case (RvRequestVote ok now req)
  then show ?thesis
    by (cases "vote_granted now req r")
       (simp_all add: request_vote_state(7) [OF _ refl] request_vote_refused)
qed (simp_all add: heartbeat_state step_down_state candidate_state on_prepare_eq on_accept_eq Let_def fenced_def)

lemma step_log_quiet:
  assumes "votes_cast ev r = {}"
  shows "set (log_of r) \<subseteq> set (log_of (replica_step ev r))"
    and "x \<in> set (log_of (replica_step ev r)) \<Longrightarrow> wr_type x = RecVoteGranted \<Longrightarrow> x \<in> set (log_of r)"
proof -
  have "set (log_of r) \<subseteq> set (log_of (replica_step ev r)) \<and>
    (x \<in> set (log_of (replica_step ev r)) \<longrightarrow> wr_type x = RecVoteGranted \<longrightarrow> x \<in> set (log_of r))"
  proof (cases ev)
    case (RvRequestVote ok now req)
    then show ?thesis using assms by (simp add: request_vote_refused split: if_splits)
  next
    case (RvPrepare ok now slot b t)
    then show ?thesis using consensus_log [of ev ok now slot b t undefined] by blast
  next
    case (RvAccept ok now e)
    then show ?thesis using consensus_log [of ev ok now undefined undefined undefined e] by blast
  qed (use assms log_of_cong [of "replica_step ev r" r] in \<open>simp_all add: heartbeat_state step_down_state\<close>)
  then show "set (log_of r) \<subseteq> set (log_of (replica_step ev r))"
    and "x \<in> set (log_of (replica_step ev r)) \<Longrightarrow> wr_type x = RecVoteGranted \<Longrightarrow> x \<in> set (log_of r)"
    by blast+
qed

lemma step_log_cast:
  assumes "votes_cast ev r = {(t, c)}"
  shows "log_of (replica_step ev r) =
    (case re_wal r of None \<Rightarrow> []
     | Some w \<Rightarrow> if append_ok ev then log_of r @ [from_vote_granted (wh_group_id w) t c] else log_of r)"
proof (cases ev)
  case (RvRequestVote ok now req)
  then have "vote_granted now req r" using assms by (simp split: if_splits)
  then show ?thesis using assms RvRequestVote
    by (auto simp: request_vote_state(6) [OF _ refl] split: option.split)
qed (use assms in \<open>auto simp: candidate_state split: option.split\<close>)

lemma votes_cast_cases:
  obtains (quiet) "votes_cast ev r = {}" | (cast) t c where "votes_cast ev r = {(t, c)}"
proof (cases ev)
  case (RvRequestVote ok now req)
  then show thesis using quiet cast by (cases "vote_granted now req r") simp_all
qed (use quiet cast in simp_all)

lemma step_log_mono: "set (log_of r) \<subseteq> set (log_of (replica_step ev r))"
proof (cases rule: votes_cast_cases [of ev r])
  case quiet
  then show ?thesis by (rule step_log_quiet)
next
  case cast
  show ?thesis
    unfolding step_log_cast [OF cast] by (cases "re_wal r") (auto simp: log_of_def)
qed

lemma step_log_votes:
  assumes "x \<in> set (log_of (replica_step ev r))" and "wr_type x = RecVoteGranted" and "x \<notin> set (log_of r)"
  shows "\<exists>(t, c) \<in> votes_cast ev r. votes_for t c x"
proof (cases rule: votes_cast_cases [of ev r])
  case quiet
  then show ?thesis using step_log_quiet(2) [OF quiet] assms by blast
next
  case cast
  then show ?thesis using assms by (auto simp: step_log_cast split: option.splits if_splits)
qed

lemma run_log_mono: "set (log_of r) \<subseteq> set (log_of (fold replica_step evs r))"
proof (induction evs arbitrary: r)
  case (Cons ev evs)
  then show ?case using order_trans [OF step_log_mono Cons.IH] by simp
qed simp

lemma run_log_votes:
  "x \<in> set (log_of (fold replica_step evs r)) \<Longrightarrow> wr_type x = RecVoteGranted \<Longrightarrow> x \<notin> set (log_of r) \<Longrightarrow>
   \<exists>(t, c) \<in> union_along votes_cast replica_step evs r. votes_for t c x"
proof (induction evs arbitrary: r)
  case (Cons ev evs)
  then show ?case
    using step_log_votes [of x ev r] by (cases "x \<in> set (log_of (replica_step ev r))") auto
qed simp

lemma run_log_cast:
  assumes "re_wal r \<noteq> None" and "list_all append_ok evs" and "(t, c) \<in> union_along votes_cast replica_step evs r"
  shows "\<exists>x \<in> set (log_of (fold replica_step evs r)). votes_for t c x"
  using assms
proof (induction evs arbitrary: r)
  case (Cons ev evs)
  let ?r = "replica_step ev r"
  show ?case
  proof (cases "(t, c) \<in> votes_cast ev r")
    case True
    then have cast: "votes_cast ev r = {(t, c)}" by (cases rule: votes_cast_cases [of ev r]) auto
    obtain w where "re_wal r = Some w" using Cons.prems(1) by blast
    then have "from_vote_granted (wh_group_id w) t c \<in> set (log_of ?r)"
      using Cons.prems(2) by (simp add: step_log_cast [OF cast])
    then have "from_vote_granted (wh_group_id w) t c \<in> set (log_of (fold replica_step (ev # evs) r))"
      using run_log_mono [of ?r evs] by auto
    then show ?thesis by (rule rev_bexI) (rule votes_for_from)
  next
    case False
    then show ?thesis using Cons.IH [of ?r] Cons.prems step_wal [of ev r] by auto
  qed
qed simp

section \<open>Properties\<close>

definition member_start :: "node_id \<Rightarrow> u64 \<Rightarrow> 'e \<Rightarrow> 'e px_local_replica" where
  "member_start i gid e =
     (new_with_learner i RoleFollower (learner_new e) 0)
       \<lparr>re_wal := Some \<lparr> wh_group_id = gid, wh_records = [], wh_snapshot_slot = 0 \<rparr>\<rparr>"

lemma member_start_simps [simp]:
  "mirror_ok (member_start i gid e)" "log_of (member_start i gid e) = []"
  "re_wal (member_start i gid e) \<noteq> None" "re_acceptor (member_start i gid e) = acceptor_new"
  by (simp_all add: member_start_def mirror_ok_def log_of_def new_with_learner_def election_initial_def)

lemma run_single_votes:
  assumes "holds_along candidacy_fresh replica_step evs (member_start i gid e)"
  shows "single_votes (log_of (fold replica_step evs (member_start i gid e)))"
  unfolding single_votes_def
proof (intro ballI impI)
  fix x y
  let ?V = "union_along votes_cast replica_step evs (member_start i gid e)"
  assume "x \<in> set (log_of (fold replica_step evs (member_start i gid e)))" "wr_type x = RecVoteGranted"
    and "y \<in> set (log_of (fold replica_step evs (member_start i gid e)))" "wr_type y = RecVoteGranted"
    and same: "wr_term x = wr_term y"
  then obtain t c t' c' where x: "(t, c) \<in> ?V" "votes_for t c x" and y: "(t', c') \<in> ?V" "votes_for t' c' y"
    using run_log_votes [of x evs "member_start i gid e"] run_log_votes [of y evs "member_start i gid e"] by auto
  then have "t' = t" using same by (simp add: votes_for_def)
  then have "c = c'" using member.run_unique [OF _ assms x(1)] y(1) by simp
  then show "voted_for_id x = voted_for_id y" using x(2) y(2) by (simp add: votes_for_def)
qed

text \<open>C3 A member votes once per term. In every run of a member's handlers in which each candidacy
  opens a term above the member's own, the term never goes down, no two candidates get the vote of
  one term (its own candidacies count as votes for itself), and the vote records of its log name
  one candidate per term.\<close>

theorem one_vote_per_term:
  assumes "holds_along candidacy_fresh replica_step (evs @ evs') (member_start i gid e)"
    and "r = run_replica evs (member_start i gid e)" and "r' = run_replica evs' r"
    and "V = union_along votes_cast replica_step (evs @ evs') (member_start i gid e)"
  shows "es_current_term (re_election r) \<le> es_current_term (re_election r') \<and>
    (\<forall>t c c'. (t, c) \<in> V \<longrightarrow> (t, c') \<in> V \<longrightarrow> c = c') \<and> single_votes (log_of r')"
proof -
  have split: "holds_along P step (xs @ ys) st \<longleftrightarrow> holds_along P step xs st \<and> holds_along P step ys (fold step xs st)"
    for P :: "replica_event \<Rightarrow> 'a px_local_replica \<Rightarrow> bool" and step xs ys st
    by (induction xs arbitrary: st) simp_all
  have "mirror_ok r" using assms(2) by (simp add: run_replica_def member.run_inv)
  then have "es_current_term (re_election r) \<le> es_current_term (re_election r')"
    using member.run_epoch [of r evs'] assms(1-3) by (simp add: split run_replica_def)
  moreover have "single_votes (log_of r')"
    using run_single_votes [OF assms(1)] assms(2,3) by (simp add: run_replica_def)
  moreover have "c = c'" if "(t, c) \<in> V" "(t, c') \<in> V" for t c c'
    using member.run_unique [OF _ assms(1)] that assms(4) by simp
  ultimately show ?thesis by blast
qed

lemmas member_eval =
  member_start_def new_with_learner_def election_initial_def handle_request_vote_def vote_term_ok_def
  candidate_log_up_to_date_def replica_log_tip_def accepted_log_tip_def acceptor_new_def lockout_over_def
  lease_read_until_def anchor_ms_to_instant_def instant_to_anchor_ms_def grant_vote_def
  persist_current_vote_def wal_append_def set_role_atomic_def vote_reply_of_def frontier_triple_def
  become_candidate_def with_election_state_def learner_new_def run_replica_def log_of_def

definition demo_request :: "u64 \<Rightarrow> node_id \<Rightarrow> vote_request" where
  "demo_request t c =
     \<lparr> vq_term = t, vq_candidate_id = c, vq_accepted_log_tip_slot = 0, vq_accepted_log_tip_term = 0 \<rparr>"

lemma one_vote_per_term_witness:
  "let evs = [RvRequestVote True 10 (demo_request 1 2)];
       evs' = [RvRequestVote True 9000 (demo_request 1 3), RvCandidate True 9000 2];
       V = union_along votes_cast replica_step (evs @ evs') (member_start 1 7 ())
   in V = {(1, 2), (2, 1)} \<and> single_votes (log_of (run_replica evs' (run_replica evs (member_start 1 7 ()))))"
proof -
  let ?evs = "[RvRequestVote True 10 (demo_request 1 2)]"
  let ?evs' = "[RvRequestVote True 9000 (demo_request 1 3), RvCandidate True 9000 2]"
  have fresh: "holds_along candidacy_fresh replica_step (?evs @ ?evs') (member_start 1 7 ())"
    by (simp add: member_eval demo_request_def)
  have "union_along votes_cast replica_step (?evs @ ?evs') (member_start 1 7 ()) = {(1, 2), (2, 1)}"
    by (auto simp: member_eval demo_request_def vote_granted_def)
  then show ?thesis using one_vote_per_term [OF fresh refl refl refl] unfolding Let_def by simp
qed

text \<open>C8 A vote survives a restart. If every append of the run succeeded, then after a restart from
  the replayed log, for every vote the member ever cast, it is either past the term of that vote or
  in that term and still bound to the same candidate.\<close>

theorem restart_keeps_vote:
  assumes "holds_along candidacy_fresh replica_step evs (member_start i gid e)" and "list_all append_ok evs"
    and "(t, c) \<in> union_along votes_cast replica_step evs (member_start i gid e)"
    and "scan = replay_scan (log_of (run_replica evs (member_start i gid e)))"
    and "restore_from_replay_with_engine ki i role now resume e' (into_records scan)
           (rr_current_term scan) (rr_voted_for scan) = Inr r'"
  shows "t < es_current_term (re_election r') \<or>
    t = es_current_term (re_election r') \<and> es_voted_for (re_election r') = Some c"
proof -
  let ?log = "log_of (fold replica_step evs (member_start i gid e))"
  obtain x where x: "x \<in> set ?log" "votes_for t c x" using run_log_cast [OF _ assms(2,3)] by auto
  have scan: "scan = replay_scan ?log" using assms(4) by (simp add: run_replica_def)
  have state: "es_current_term (re_election r') = rr_current_term scan"
    "es_voted_for (re_election r') = rr_voted_for scan"
    using assms(5) by (auto simp: restore_from_replay_with_engine_def bind_sum_def with_election_state_def
        set_role_atomic_def Let_def split: sum.splits)
  have "t \<le> rr_current_term scan" using scan_term_bound [OF x(1)] x(2) scan by (simp add: votes_for_def)
  moreover have "rr_voted_for scan = Some c" if "t = rr_current_term scan"
    using scan_voted_for [OF run_single_votes [OF assms(1)] x(1)] x(2) that scan by (simp add: votes_for_def)
  ultimately show ?thesis using state by auto
qed

lemma restart_keeps_vote_witness:
  "\<exists>r'. restore_from_replay_with_engine (\<lparr> ki_apply = (\<lambda>_ _ u. (True, u)), ki_noop = (\<lambda>_ u. u) \<rparr> :: unit kv_iface)
      1 RoleFollower 0 0 () [from_vote_granted 7 1 2] 1 (Some 2) = Inr r' \<and>
    es_voted_for (re_election r') = Some 2"
proof -
  let ?evs = "[RvRequestVote True 10 (demo_request 1 2)]"
  let ?ki = "\<lparr> ki_apply = (\<lambda>_ _ u. (True, u)), ki_noop = (\<lambda>_ u. u) \<rparr> :: unit kv_iface"
  let ?scan = "replay_scan (log_of (run_replica ?evs (member_start 1 7 ())))"
  have fresh: "holds_along candidacy_fresh replica_step ?evs (member_start 1 7 ())"
    by (simp add: member_eval demo_request_def)
  have ok: "list_all append_ok ?evs" by simp
  have cast: "(1, 2) \<in> union_along votes_cast replica_step ?evs (member_start 1 7 ())"
    by (simp add: member_eval demo_request_def vote_granted_def)
  have log: "log_of (run_replica ?evs (member_start 1 7 ())) = [from_vote_granted 7 1 2]"
    by (simp add: member_eval demo_request_def)
  have scan: "into_records ?scan = [from_vote_granted 7 1 2]" "rr_current_term ?scan = 1"
    "rr_voted_for ?scan = Some 2" unfolding log by code_simp+
  obtain r' where r': "restore_from_replay_with_engine ?ki 1 RoleFollower 0 0 () (into_records ?scan)
      (rr_current_term ?scan) (rr_voted_for ?scan) = Inr r'"
    unfolding scan by (simp add: restore_from_replay_with_engine_def bind_sum_def Let_def from_vote_granted_def)
  have "es_current_term (re_election r') = 1"
    using r' unfolding scan by (auto simp: restore_from_replay_with_engine_def bind_sum_def with_election_state_def
        set_role_atomic_def Let_def from_vote_granted_def)
  then show ?thesis using restart_keeps_vote [OF fresh ok cast refl r'] r' unfolding scan by auto
qed

end
