(* ===== verification/Replica_Recovery.thy ===== *)
theory Replica_Recovery
  imports Replica_Vote
begin

text \<open>
  What a restart gives back of the consensus state (\<open>cluster/local_replica_replay.rs\<close>): the promises
  and votes of the rebuilt acceptor are those of the acceptor that wrote the log. It also
  states what a restart adds that was not there before: the learner takes every accepted entry
  for a chosen one.
\<close>

section \<open>What the log says about a slot\<close>

definition logged_accepted :: "wal_record list \<Rightarrow> slot_index \<Rightarrow> px_log_entry option" where
  "logged_accepted log s =
     Option.bind (om_get (rr_slots (replay_scan log)) (s, record_type_byte RecAccepted)) to_log_entry"

definition logged_promised :: "wal_record list \<Rightarrow> slot_index \<Rightarrow> px_ballot option" where
  "logged_promised log s =
     map_option wr_ballot (om_get (rr_slots (replay_scan log)) (s, record_type_byte RecPromised))"

text \<open>A vote above the zero ballot is a promise as well; the higher of the two counts.\<close>

definition vote_promise :: "px_log_entry option \<Rightarrow> px_ballot option" where
  "vote_promise acc =
     (case acc of None \<Rightarrow> None | Some e \<Rightarrow> if ballot_zero < e_ballot e then Some (e_ballot e) else None)"

definition join_promise :: "px_ballot option \<Rightarrow> px_ballot option \<Rightarrow> px_ballot option" where
  "join_promise p q =
     (case q of None \<Rightarrow> p | Some b \<Rightarrow> (case p of None \<Rightarrow> Some b | Some c \<Rightarrow> if c < b then Some b else Some c))"

definition log_matches :: "wal_record list \<Rightarrow> px_acceptor \<Rightarrow> bool" where
  "log_matches log a \<longleftrightarrow> acc_trim a = 0 \<and>
     (\<forall>s. accepted_at a s = logged_accepted log s \<and>
          promised_at a s = join_promise (vote_promise (logged_accepted log s)) (logged_promised log s))"

lemma record_simps [simp]:
  "wr_type (from_promised g t s b) = RecPromised" "wr_slot (from_promised g t s b) = s"
  "wr_ballot (from_promised g t s b) = b" "wr_type (from_accepted g e) = RecAccepted"
  "wr_slot (from_accepted g e) = e_slot e" "wr_ballot (from_accepted g e) = e_ballot e"
  "wr_type (from_vote_granted g t c) = RecVoteGranted" "to_log_entry (from_accepted g e) = Some e"
  by (simp_all add: from_promised_def from_accepted_def from_vote_granted_def to_log_entry_def)

lemma logged_vote [simp]:
  "logged_accepted (log @ [from_vote_granted g t c]) = logged_accepted log"
  "logged_promised (log @ [from_vote_granted g t c]) = logged_promised log"
  by (simp_all add: fun_eq_iff logged_accepted_def logged_promised_def scan_snoc push_slots)

lemma logged_promise_other [simp]: "logged_accepted (log @ [from_promised g t s b]) = logged_accepted log"
  by (simp add: fun_eq_iff logged_accepted_def scan_snoc push_slots slot_key_def)

lemma logged_accept_other [simp]: "logged_promised (log @ [from_accepted g e]) = logged_promised log"
  by (simp add: fun_eq_iff logged_promised_def scan_snoc push_slots slot_key_def)

lemma logged_promise_new:
  assumes "\<And>c. logged_promised log s = Some c \<Longrightarrow> c \<le> b"
  shows "logged_promised (log @ [from_promised g t s b]) = (logged_promised log)(s := Some b)"
  using assms
  by (auto simp: fun_eq_iff logged_promised_def scan_snoc push_slots slot_key_def split: option.splits)

lemma scan_slot_key:
  assumes "om_get (rr_slots (replay_scan log)) k = Some r"
  shows "slot_key r = k" "wr_type r \<noteq> RecVoteGranted"
  using scan_slots [of log k] assms by (simp_all add: best_of_def slot_records_def)

lemma accepted_record:
  assumes "om_get (rr_slots (replay_scan log)) (s, record_type_byte RecAccepted) = Some r"
  obtains e where "to_log_entry r = Some e" "e_ballot e = wr_ballot r" "e_slot e = s"
proof -
  have "wr_type r = RecAccepted" "wr_slot r = s"
    using scan_slot_key [OF assms] by (cases "wr_type r"; simp add: slot_key_def)+
  then show thesis using that by (simp add: to_log_entry_def)
qed

lemma logged_accept_new:
  assumes "\<And>e'. logged_accepted log (e_slot e) = Some e' \<Longrightarrow> e_ballot e' \<le> e_ballot e"
  shows "logged_accepted (log @ [from_accepted g e]) = (logged_accepted log)(e_slot e := Some e)"
proof (rule ext)
  fix s
  let ?k = "(e_slot e, record_type_byte RecAccepted)"
  have "wr_ballot r \<le> e_ballot e" if r: "om_get (rr_slots (replay_scan log)) ?k = Some r" for r
    using accepted_record [OF r] assms r by (metis bind.bind_lunit logged_accepted_def)
  then show "logged_accepted (log @ [from_accepted g e]) s = ((logged_accepted log)(e_slot e := Some e)) s"
    by (auto simp: logged_accepted_def scan_snoc push_slots slot_key_def split: option.splits)
qed

section \<open>The log follows the acceptor\<close>

lemma log_matches_floor:
  assumes "log_matches log a"
  shows "logged_promised log s = Some c \<Longrightarrow> \<exists>p. promised_at a s = Some p \<and> c \<le> p"
    and "logged_accepted log s = Some e \<Longrightarrow> e_ballot e \<le> promise_floor a s"
  using assms unfolding log_matches_def promise_floor_def
  by (auto simp: join_promise_def vote_promise_def not_less split: option.splits if_splits)

lemma match_prepare:
  assumes m: "log_matches log a" and g: "grants a s b"
  shows "log_matches (log @ [from_promised g t s b]) (snd (prepare s b a))"
proof -
  have low: "c < b" if "logged_promised log s = Some c" for c
    using log_matches_floor(1) [OF m that] g by (auto simp: grants_def)
  have new: "logged_promised (log @ [from_promised g t s b]) = (logged_promised log)(s := Some b)"
    by (rule logged_promise_new) (use low less_imp_le in blast)
  have "join_promise (vote_promise (logged_accepted log s)) (Some b) = Some b"
    using g m unfolding grants_def log_matches_def
    by (auto simp: join_promise_def vote_promise_def split: option.splits if_splits)
  then show ?thesis using m g unfolding log_matches_def by (simp add: new acc_view)
qed

lemma match_accept:
  assumes m: "log_matches log a" and adm: "admits a e"
  shows "log_matches (log @ [from_accepted g e]) (snd (accept e a))"
proof -
  let ?s = "e_slot e"
  have floor: "promise_floor a ?s \<le> e_ballot e"
    using adm by (simp add: admits_def promise_floor_def split: option.splits)
  have new: "logged_accepted (log @ [from_accepted g e]) = (logged_accepted log)(?s := Some e)"
    by (rule logged_accept_new) (use log_matches_floor(2) [OF m] floor order_trans in blast)
  have here: "promised_at (snd (accept e a)) ?s = join_promise (vote_promise (Some e)) (logged_promised log ?s)"
    using m adm unfolding admits_def log_matches_def promise_floor_def
    by (auto simp: acc_view admits_def promise_floor_def join_promise_def vote_promise_def
        split: option.splits if_splits)
  have there: "promised_at (snd (accept e a)) s = promised_at a s" if "s \<noteq> ?s" for s
    using that by (simp add: accept_promised_at)
  show ?thesis
    unfolding log_matches_def
  proof (intro conjI allI)
    show "acc_trim (snd (accept e a)) = 0" using m by (simp add: log_matches_def)
    fix s
    show "accepted_at (snd (accept e a)) s = logged_accepted (log @ [from_accepted g e]) s"
      using m adm by (simp add: new accept_accepted_at log_matches_def)
    show "promised_at (snd (accept e a)) s = join_promise
        (vote_promise (logged_accepted (log @ [from_accepted g e]) s)) (logged_promised (log @ [from_accepted g e]) s)"
      using here there [of s] m by (cases "s = ?s") (simp_all add: new log_matches_def)
  qed
qed

section \<open>The rebuilt acceptor follows the log\<close>

lemma scan_votes: "list_all (\<lambda>r. wr_type r = RecVoteGranted) (rr_votes (replay_scan log))"
  by (induction log rule: rev_induct) (simp_all add: scan_snoc replay_push_def adopt_term_def Let_def)

lemma restore_skip_votes:
  assumes "list_all (\<lambda>r. wr_type r = RecVoteGranted) vs"
  shows "restore_accepted (vs @ rs) a = restore_accepted rs a" "restore_promised (vs @ rs) a = restore_promised rs a"
  using assms by (induction vs arbitrary: a) (simp_all add: restore_promised_def)

text \<open>A map of slot records under their own keys.\<close>

definition keyed :: "(slot_index \<times> u8, wal_record) omap \<Rightarrow> bool" where
  "keyed m \<longleftrightarrow> distinct (map fst m) \<and>
     list_all (\<lambda>(k, r). slot_key r = k \<and> wr_type r \<noteq> RecVoteGranted) m"

lemma scan_keyed: "keyed (rr_slots (replay_scan log))"
proof -
  have "slot_key r = k \<and> wr_type r \<noteq> RecVoteGranted" if "(k, r) \<in> set (rr_slots (replay_scan log))" for k r
    using scan_slot_key [of log k r] that om_sorted_get_iff [OF scan_sorted, of log k r] by simp
  then show ?thesis using om_sorted_distinct [OF scan_sorted] by (auto simp: keyed_def list_all_iff)
qed

abbreviation acc_key :: "slot_index \<Rightarrow> slot_index \<times> u8" where
  "acc_key s \<equiv> (s, record_type_byte RecAccepted)"

abbreviation prom_key :: "slot_index \<Rightarrow> slot_index \<times> u8" where
  "prom_key s \<equiv> (s, record_type_byte RecPromised)"

lemma restore_accepted_view:
  assumes "keyed m" and "acc_trim a = 0" and "\<And>s. om_get m (acc_key s) \<noteq> None \<Longrightarrow> promised_at a s = None"
  shows "\<exists>a'. restore_accepted (map snd m) a = Inr a' \<and> acc_trim a' = 0 \<and>
    (\<forall>s. accepted_at a' s = (case om_get m (acc_key s) of None \<Rightarrow> accepted_at a s | Some r \<Rightarrow> to_log_entry r) \<and>
         promised_at a' s = (case om_get m (acc_key s) of None \<Rightarrow> promised_at a s
                             | Some r \<Rightarrow> vote_promise (to_log_entry r)))"
  using assms
proof (induction m arbitrary: a)
  case (Cons kr m)
  obtain k r where kr: "kr = (k, r)" by fastforce
  have keyed: "keyed m" and key: "slot_key r = k" "wr_type r \<noteq> RecVoteGranted" and fresh: "om_get m k = None"
    using Cons.prems(1) unfolding kr keyed_def by (simp_all add: map_of_eq_None_iff)
  show ?case
  proof (cases "wr_type r = RecAccepted")
    case True
    then obtain e where e: "to_log_entry r = Some e" "e_slot e = wr_slot r" by (simp add: to_log_entry_def)
    have k: "k = acc_key (e_slot e)" using key(1) True e(2) by (simp add: slot_key_def)
    have none: "promised_at a (e_slot e) = None" using Cons.prems(3) [of "e_slot e"] by (simp add: kr k)
    then have adm: "admits a e" using Cons.prems(2) by (simp add: admits_def)
    let ?a = "snd (accept e a)"
    have views: "accepted_at ?a = (accepted_at a)(e_slot e := Some e)"
      "promised_at ?a = (promised_at a)(e_slot e := vote_promise (Some e))"
      using adm none by (auto simp: acc_view promise_floor_def vote_promise_def fun_eq_iff)
    have "\<And>s. om_get m (acc_key s) \<noteq> None \<Longrightarrow> promised_at ?a s = None"
      using Cons.prems(3) fresh by (auto simp: views kr k split: if_splits)
    from Cons.IH [OF keyed _ this] Cons.prems(2)
    obtain a' where "restore_accepted (map snd m) ?a = Inr a'" "acc_trim a' = 0"
      "\<forall>s. accepted_at a' s = (case om_get m (acc_key s) of None \<Rightarrow> accepted_at ?a s | Some r \<Rightarrow> to_log_entry r) \<and>
         promised_at a' s = (case om_get m (acc_key s) of None \<Rightarrow> promised_at ?a s
                             | Some r \<Rightarrow> vote_promise (to_log_entry r))" by auto
    then show ?thesis using True e(1) fresh unfolding kr k
      by (auto simp: views split: option.split)
  next
    case False
    then have other: "om_get (kr # m) (acc_key s) = om_get m (acc_key s)" for s
      using key by (cases "wr_type r") (auto simp: kr slot_key_def)
    have "\<And>s. om_get m (acc_key s) \<noteq> None \<Longrightarrow> promised_at a s = None"
      using Cons.prems(3) unfolding other .
    from Cons.IH [OF keyed Cons.prems(2) this] show ?thesis using False unfolding other by (simp add: kr)
  qed
qed simp

lemma restore_promised_view:
  assumes "keyed m" and "acc_trim a = 0"
  shows "acc_trim (restore_promised (map snd m) a) = 0"
    "accepted_at (restore_promised (map snd m) a) = accepted_at a"
    "promised_at (restore_promised (map snd m) a) s =
       join_promise (promised_at a s) (map_option wr_ballot (om_get m (prom_key s)))"
proof -
  have "acc_trim (restore_promised (map snd m) a) = 0 \<and>
    accepted_at (restore_promised (map snd m) a) = accepted_at a \<and>
    (\<forall>s. promised_at (restore_promised (map snd m) a) s =
       join_promise (promised_at a s) (map_option wr_ballot (om_get m (prom_key s))))"
    using assms
  proof (induction m arbitrary: a)
    case Nil
    then show ?case by (simp add: restore_promised_def join_promise_def)
  next
    case (Cons kr m)
    obtain k r where kr: "kr = (k, r)" by fastforce
    have keyed: "keyed m" and key: "slot_key r = k" "wr_type r \<noteq> RecVoteGranted" and fresh: "om_get m k = None"
      using Cons.prems(1) unfolding kr keyed_def by (simp_all add: map_of_eq_None_iff)
    show ?case
    proof (cases "wr_type r = RecPromised")
      case True
      then have k: "k = prom_key (wr_slot r)" using key(1) by (simp add: slot_key_def)
      let ?a = "snd (prepare (wr_slot r) (wr_ballot r) a)"
      have "promised_at ?a = (promised_at a)(wr_slot r := join_promise (promised_at a (wr_slot r)) (Some (wr_ballot r)))"
        using Cons.prems(2) by (auto simp: acc_view grants_def join_promise_def fun_eq_iff split: option.splits)
      moreover have "accepted_at ?a = accepted_at a" by (simp add: acc_view)
      ultimately show ?thesis using Cons.IH [OF keyed, of ?a] Cons.prems(2) True fresh unfolding kr k
        by (auto simp: restore_promised_def join_promise_def)
    next
      case False
      then have "om_get (kr # m) (prom_key s) = om_get m (prom_key s)" for s
        using key by (cases "wr_type r") (auto simp: kr slot_key_def)
      then show ?thesis using Cons.IH [OF keyed Cons.prems(2)] False by (simp add: kr restore_promised_def)
    qed
  qed
  then show "acc_trim (restore_promised (map snd m) a) = 0"
    "accepted_at (restore_promised (map snd m) a) = accepted_at a"
    "promised_at (restore_promised (map snd m) a) s =
       join_promise (promised_at a s) (map_option wr_ballot (om_get m (prom_key s)))" by blast+
qed

section \<open>Runs\<close>

lemma step_matches:
  assumes "log_matches (log_of r) (re_acceptor r)" and "re_wal r \<noteq> None" and "append_ok ev"
  shows "log_matches (log_of (replica_step ev r)) (re_acceptor (replica_step ev r))"
proof (cases ev)
  case (RvRequestVote ok now req)
  show ?thesis
  proof (cases "vote_granted now req r")
    case True
    then show ?thesis using RvRequestVote assms
      by (auto simp: request_vote_state(6,8) [OF _ refl] log_matches_def)
  qed (use RvRequestVote assms in \<open>simp add: request_vote_refused\<close>)
next
  case (RvCandidate ok now t)
  then show ?thesis using assms by (auto simp: candidate_state log_matches_def)
next
  case (RvPrepare ok now slot b t)
  then show ?thesis using assms match_prepare
    by (auto simp: on_prepare_eq Let_def fenced_def wal_append_log log_of_cong [OF become_follower_frame(1)])
       (auto simp: log_matches_def acc_view)
next
  case (RvAccept ok now e)
  then show ?thesis using assms match_accept
    by (auto simp: on_accept_eq Let_def fenced_def wal_append_log log_of_cong [OF become_follower_frame(1)])
       (auto simp: log_matches_def acc_view)
qed (use assms log_of_cong [of "replica_step ev r" r] in \<open>simp_all add: heartbeat_state step_down_state\<close>)

lemma run_matches:
  assumes "log_matches (log_of r) (re_acceptor r)" and "re_wal r \<noteq> None" and "list_all append_ok evs"
  shows "log_matches (log_of (fold replica_step evs r)) (re_acceptor (fold replica_step evs r))"
  using assms
proof (induction evs arbitrary: r)
  case (Cons ev evs)
  have "log_matches (log_of (replica_step ev r)) (re_acceptor (replica_step ev r))"
    using Cons.prems by (intro step_matches) simp_all
  moreover have "re_wal (replica_step ev r) \<noteq> None" using Cons.prems(2) by (simp only: step_wal not_False_eq_True)
  ultimately show ?case using Cons.IH [of "replica_step ev r"] Cons.prems(3) by simp
qed simp

lemma match_start: "log_matches [] acceptor_new"
  by (simp add: log_matches_def logged_accepted_def logged_promised_def join_promise_def vote_promise_def
      accepted_at_def promised_at_def acceptor_new_def)

lemma restore_matches:
  assumes "log_matches log a"
  shows "\<exists>a'. restore_accepted (into_records (replay_scan log)) acceptor_new = Inr a' \<and>
    promised_at (restore_promised (into_records (replay_scan log)) a') = promised_at a \<and>
    accepted_at (restore_promised (into_records (replay_scan log)) a') = accepted_at a"
proof -
  let ?m = "rr_slots (replay_scan log)"
  have new: "acc_trim acceptor_new = 0" "promised_at acceptor_new s = None" "accepted_at acceptor_new s = None" for s
    by (simp_all add: acceptor_new_def promised_at_def accepted_at_def)
  obtain a' where a': "restore_accepted (map snd ?m) acceptor_new = Inr a'" "acc_trim a' = 0"
    and raw: "\<forall>s. accepted_at a' s = (case om_get ?m (acc_key s) of None \<Rightarrow> accepted_at acceptor_new s
        | Some r \<Rightarrow> to_log_entry r) \<and>
      promised_at a' s = (case om_get ?m (acc_key s) of None \<Rightarrow> promised_at acceptor_new s
        | Some r \<Rightarrow> vote_promise (to_log_entry r))"
    using restore_accepted_view [OF scan_keyed new(1) new(2)] by blast
  have views: "accepted_at a' s = logged_accepted log s" "promised_at a' s = vote_promise (logged_accepted log s)" for s
    using raw [THEN spec, of s] new(2,3) [of s]
    by (cases "om_get ?m (acc_key s)"; simp add: logged_accepted_def vote_promise_def)+
  have "promised_at (restore_promised (map snd ?m) a') s = promised_at a s"
    "accepted_at (restore_promised (map snd ?m) a') s = accepted_at a s" for s
    using restore_promised_view(2,3) [OF scan_keyed a'(2)] assms views
    by (simp_all add: log_matches_def logged_promised_def)
  then show ?thesis
    using a'(1) restore_skip_votes [OF scan_votes] by (auto simp: into_records_def fun_eq_iff)
qed

section \<open>Properties\<close>

text \<open>C4 A restart forgets no promise and no vote. If every append of a member's run succeeded, then
  the member rebuilt from the replayed log has, for every slot, exactly the promise and exactly the
  accepted entry that the member had before.\<close>

theorem restart_recovers_acceptor:
  assumes "list_all append_ok evs" and "r = run_replica evs (member_start i gid e)"
    and "scan = replay_scan (log_of r)"
  shows "\<exists>r'. restore_from_replay_with_engine ki i role now resume e' (into_records scan)
      (rr_current_term scan) (rr_voted_for scan) = Inr r' \<and>
    promised_at (re_acceptor r') = promised_at (re_acceptor r) \<and>
    accepted_at (re_acceptor r') = accepted_at (re_acceptor r)"
proof -
  have "log_matches (log_of r) (re_acceptor r)"
    using run_matches [of "member_start i gid e" evs] match_start assms(1,2) by (simp add: run_replica_def)
  from restore_matches [OF this] obtain a'
    where "restore_accepted (into_records scan) acceptor_new = Inr a'"
    and "promised_at (restore_promised (into_records scan) a') = promised_at (re_acceptor r)"
    and "accepted_at (restore_promised (into_records scan) a') = accepted_at (re_acceptor r)"
    unfolding assms(3) by blast
  then show ?thesis
    by (simp add: restore_from_replay_with_engine_def bind_sum_def with_election_state_def
        set_role_atomic_def Let_def)
qed

definition mem_iface :: "mem_kv kv_iface" where
  "mem_iface = \<lparr> ki_apply = (\<lambda>s ops m. (True, mem_apply s ops m)), ki_noop = (\<lambda>s m. m) \<rparr>"

definition put_entry :: "slot_index \<Rightarrow> px_ballot \<Rightarrow> u64 \<Rightarrow> u8 \<Rightarrow> px_log_entry" where
  "put_entry s b t v = \<lparr> e_slot = s, e_ballot = b, e_term = t, e_payload = encode_kv_payload [([7], Some [v])] \<rparr>"

lemma restart_recovers_acceptor_witness:
  "let evs = [RvAccept True 0 (demo_entry 4 0 5 1), RvPrepare True 0 4 (PxBallot 1 2) 1];
       r = run_replica evs (member_start 1 7 ([] :: mem_kv));
       scan = replay_scan (log_of r)
   in \<exists>r'. restore_from_replay_with_engine mem_iface 1 RoleFollower 0 0 [] (into_records scan)
      (rr_current_term scan) (rr_voted_for scan) = Inr r' \<and>
    promised_at (re_acceptor r') 4 = Some (PxBallot 1 2) \<and>
    accepted_at (re_acceptor r') 4 = Some (demo_entry 4 0 5 1)"
proof -
  let ?evs = "[RvAccept True 0 (demo_entry 4 0 5 1), RvPrepare True 0 4 (PxBallot 1 2) 1]"
  let ?r = "run_replica ?evs (member_start 1 7 ([] :: mem_kv))"
  have ok: "list_all append_ok ?evs" by simp
  have "promised_at (re_acceptor ?r) 4 = Some (PxBallot 1 2)"
    "accepted_at (re_acceptor ?r) 4 = Some (demo_entry 4 0 5 1)" by code_simp+
  with restart_recovers_acceptor [OF ok refl refl, where ki = mem_iface and i = 1 and gid = 7 and e = "[] :: mem_kv"
      and role = RoleFollower and now = 0 and resume = 0 and e' = "[]"]
  show ?thesis unfolding Let_def by (elim exE conjE) (intro exI conjI, assumption, simp_all)
qed

text \<open>C37 A restart takes accepted entries for chosen ones, and members can then differ for good. A
  member accepts a value in a slot, nobody else does, and it restarts: its learner reports the slot
  as chosen and has applied the value. When another value is chosen for that slot later and
  learned, the engine refuses it as a repetition of the slot, while a member that did not restart
  applies it.\<close>

theorem restart_learns_unchosen:
  "let r = run_replica [RvAccept True 0 (put_entry 1 (PxBallot 0 1) 1 5)] (member_start 1 7 []);
       scan = replay_scan (log_of r);
       chosen = put_entry 1 (PxBallot 1 2) 2 6
   in \<not> is_chosen 1 (re_learner r) \<and>
     (\<exists>r'. restore_from_replay_with_engine mem_iface 1 RoleFollower 0 0 [] (into_records scan)
        (rr_current_term scan) (rr_voted_for scan) = Inr r' \<and>
      is_chosen 1 (re_learner r') \<and>
      mem_get (lr_engine (learn mem_iface chosen [] (re_learner r'))) [7] = Some (1, [5]) \<and>
      mem_get (lr_engine (learn mem_iface chosen [] (re_learner r))) [7] = Some (1, [6]))"
proof -
  let ?r = "run_replica [RvAccept True 0 (put_entry 1 (PxBallot 0 1) 1 5)] (member_start 1 7 ([] :: mem_kv))"
  let ?scan = "replay_scan (log_of ?r)"
  let ?restored = "restore_from_replay_with_engine mem_iface 1 RoleFollower 0 0 [] (into_records ?scan)
        (rr_current_term ?scan) (rr_voted_for ?scan)"
  let ?chosen = "put_entry 1 (PxBallot 1 2) 2 6"
  have live: "\<not> is_chosen 1 (re_learner ?r)"
    "mem_get (lr_engine (learn mem_iface ?chosen [] (re_learner ?r))) [7] = Some (1, [6])"
    by code_simp+
  have restored: "case ?restored of Inl _ \<Rightarrow> False | Inr r' \<Rightarrow> is_chosen 1 (re_learner r') \<and>
      mem_get (lr_engine (learn mem_iface ?chosen [] (re_learner r'))) [7] = Some (1, [5])"
    by code_simp
  obtain r' where r': "?restored = Inr r'" using restored by (cases ?restored) simp_all
  show ?thesis
    unfolding Let_def using restored live r' by simp
qed

end
