(* ===== verification/Election.thy ===== *)
theory Election
  imports Replica_Recovery
begin

unbundle bit_operations_syntax

text \<open>
  The election driver of a group (\<open>cluster/group_election.rs\<close>, \<open>group_election_candidate.rs\<close>,
  \<open>group_election_leader.rs\<close>): the pre-vote and vote rounds, the promotion of a winner, the
  heartbeat round with the lease it renews, the read barrier, and the jitter of the election
  deadline. A round has the replies of its peers as a list in the order in which they arrive,
  \<open>None\<close> for a peer that could not be reached; a cancelled round is one whose list ends early.
  The rounds and the handlers of the same replica interleave: what happens between the start
  and the end of a round is up to the sequence in which the definitions are composed.
\<close>

section \<open>Pre-vote round\<close>

datatype prevote_outcome = PreWon u64 | PreHigherTerm u64 | PreLost

fun prevote_loop :: "u64 \<Rightarrow> nat \<Rightarrow> nat \<Rightarrow> vote_reply option list \<Rightarrow> prevote_outcome" where
  "prevote_loop proposed quorum votes [] = PreLost"
| "prevote_loop proposed quorum votes (None # rs) = prevote_loop proposed quorum votes rs"
| "prevote_loop proposed quorum votes (Some v # rs) =
     (if proposed < vr_term v then PreHigherTerm (vr_term v)
      else if vr_granted v
      then if quorum \<le> votes + 1 then PreWon proposed else prevote_loop proposed quorum (votes + 1) rs
      else prevote_loop proposed quorum votes rs)"

definition vote_payload :: "u64 \<Rightarrow> 'e px_local_replica \<Rightarrow> vote_request" where
  "vote_payload t r =
     \<lparr> vq_term = t, vq_candidate_id = re_id r, vq_accepted_log_tip_slot = fst (replica_log_tip r),
       vq_accepted_log_tip_term = snd (replica_log_tip r) \<rparr>"

definition proposed_term :: "'e px_local_replica \<Rightarrow> u64" where
  "proposed_term r = re_term_atomic r + 1"

text \<open>The replica is read when the round starts; the replies arrive later.\<close>

definition run_prevote_round ::
    "nat \<Rightarrow> node_id list \<Rightarrow> vote_reply option list \<Rightarrow> 'e px_local_replica \<Rightarrow> prevote_outcome" where
  "run_prevote_round quorum voting_peers replies r =
     (if voting_peers = [] \<and> re_voting r then PreWon (proposed_term r)
      else prevote_loop (proposed_term r) quorum (if re_voting r then 1 else 0) replies)"

section \<open>Vote round\<close>

datatype candidate_outcome = CandWon slot_index slot_index | CandHigherTerm u64 | CandLost

fun candidate_loop ::
    "u64 \<Rightarrow> nat \<Rightarrow> nat \<Rightarrow> slot_index \<Rightarrow> slot_index \<Rightarrow> vote_reply option list \<Rightarrow> candidate_outcome" where
  "candidate_loop t quorum votes peer_floor peer_ceiling [] = CandLost"
| "candidate_loop t quorum votes peer_floor peer_ceiling (None # rs) =
     candidate_loop t quorum votes peer_floor peer_ceiling rs"
| "candidate_loop t quorum votes peer_floor peer_ceiling (Some v # rs) =
     (if t < vr_term v then CandHigherTerm (vr_term v)
      else if vr_granted v
      then let f = max peer_floor (vr_contiguous_chosen v); c = max peer_ceiling (vr_highest_seen_slot v) in
        if quorum \<le> votes + 1 then CandWon f c else candidate_loop t quorum (votes + 1) f c rs
      else candidate_loop t quorum votes peer_floor peer_ceiling rs)"

record leader_handoff =
  lh_term :: u64
  lh_peer_floor :: slot_index
  lh_peer_ceiling :: slot_index

text \<open>The part of a group that an election changes.\<close>

record 'e election_group =
  eg_replica :: "'e px_local_replica"
  eg_next_slot :: slot_index
  eg_handoff :: "leader_handoff option"
  eg_proposing_term :: u64

definition sat_pred :: "u64 \<Rightarrow> u64" where
  "sat_pred s = (if s = 0 then 0 else s - 1)"

definition finalize_leader ::
    "instant \<Rightarrow> u64 \<Rightarrow> slot_index \<Rightarrow> slot_index \<Rightarrow> 'e election_group \<Rightarrow> 'e election_group" where
  "finalize_leader now t peer_floor peer_ceiling g =
     (let local_ceiling = acc_highest (re_acceptor (eg_replica g));
          ceiling = max (max local_ceiling (sat_pred (eg_next_slot g))) peer_ceiling
      in \<lparr> eg_replica = become_leader now (eg_replica g),
           eg_next_slot = max (eg_next_slot g) (sat_succ ceiling),
           eg_handoff = Some \<lparr> lh_term = t, lh_peer_floor = peer_floor, lh_peer_ceiling = peer_ceiling \<rparr>,
           eg_proposing_term = t \<rparr>)"

text \<open>The vote round of a candidate. Start and end of the round act on the same state: what happens to
  the candidate while it waits for the replies is not part of this call.\<close>

definition run_candidate_election ::
    "instant \<Rightarrow> nat \<Rightarrow> node_id list \<Rightarrow> vote_reply option list \<Rightarrow> 'e election_group \<Rightarrow> 'e election_group" where
  "run_candidate_election now quorum voting_peers replies g =
     (let r = eg_replica g; t = re_term_atomic r;
          f = lr_contiguous_chosen (re_learner r); c = acc_highest (re_acceptor r)
      in if voting_peers = [] \<and> re_voting r then finalize_leader now t f c g
         else case candidate_loop t quorum (if re_voting r then 1 else 0) f c replies of
                CandWon f' c' \<Rightarrow> finalize_leader now t f' c' g
              | CandHigherTerm t' \<Rightarrow> g\<lparr>eg_replica := become_follower now t' r\<rparr>
              | CandLost \<Rightarrow> g)"

text \<open>What the driver does when its pre-vote round is over. The outcome is from the replica as it
  was when the round started.\<close>

definition after_prevote :: "bool \<Rightarrow> instant \<Rightarrow> prevote_outcome \<Rightarrow> 'e px_local_replica \<Rightarrow> 'e px_local_replica" where
  "after_prevote ok now out r =
     (case out of
        PreWon t \<Rightarrow> persist_current_vote ok (become_candidate now t r)
      | PreHigherTerm t \<Rightarrow> become_follower now t r
      | PreLost \<Rightarrow> become_follower now (re_term_atomic r) r)"

section \<open>Leader tenure\<close>

datatype heartbeat_outcome = HbContinued bool | HbSteppedDown u64

fun heartbeat_loop :: "u64 \<Rightarrow> nat \<Rightarrow> nat \<Rightarrow> (bool \<times> heartbeat_reply option) list \<Rightarrow> heartbeat_outcome" where
  "heartbeat_loop t quorum acks [] = HbContinued (quorum \<le> acks)"
| "heartbeat_loop t quorum acks ((voting, None) # rs) = heartbeat_loop t quorum acks rs"
| "heartbeat_loop t quorum acks ((voting, Some hb) # rs) =
     (if t < hr_term hb then HbSteppedDown (hr_term hb)
      else if hr_success hb
      then let acks' = acks + (if voting then 1 else 0) in
        if quorum \<le> acks' then HbContinued True else heartbeat_loop t quorum acks' rs
      else heartbeat_loop t quorum acks rs)"

record election_config =
  ec_lease_duration_ms :: u64
  ec_max_clock_skew_ms :: u64
  ec_election_min_ms :: u64
  ec_election_max_ms :: u64

definition run_heartbeat_round ::
    "election_config \<Rightarrow> instant \<Rightarrow> instant \<Rightarrow> u64 \<Rightarrow> nat \<Rightarrow> (bool \<times> heartbeat_reply option) list \<Rightarrow>
     'e px_local_replica \<Rightarrow> heartbeat_outcome \<times> 'e px_local_replica" where
  "run_heartbeat_round cfg t_send now leader_term quorum replies r =
     (let out = (if quorum \<le> 1 then HbContinued True else heartbeat_loop leader_term quorum 1 replies)
      in (out, if out = HbContinued True
               then renew_lease t_send (ec_lease_duration_ms cfg) (ec_max_clock_skew_ms cfg) now r else r))"

datatype step_down_reason = SdHigherTerm u64 | SdLeaseUnrenewable | SdRecoveryIncomplete | SdAdmin

definition step_down :: "instant \<Rightarrow> u64 \<Rightarrow> step_down_reason \<Rightarrow> 'e px_local_replica \<Rightarrow> 'e px_local_replica" where
  "step_down now my_term reason r =
     become_follower now (case reason of SdHigherTerm t \<Rightarrow> max t my_term | _ \<Rightarrow> my_term) r"

text \<open>One heartbeat tick of the leader loop.\<close>

definition leader_tick ::
    "election_config \<Rightarrow> instant \<Rightarrow> instant \<Rightarrow> u64 \<Rightarrow> nat \<Rightarrow> (bool \<times> heartbeat_reply option) list \<Rightarrow>
     'e px_local_replica \<Rightarrow> 'e px_local_replica" where
  "leader_tick cfg t_send now leader_term quorum replies r =
     (case run_heartbeat_round cfg t_send now leader_term quorum replies r of
        (HbSteppedDown t, r') \<Rightarrow> step_down now leader_term (SdHigherTerm t) r'
      | (HbContinued acked, r') \<Rightarrow>
          if \<not> acked \<and> uint (ec_lease_duration_ms cfg) \<le>
               max 0 (now - anchor_ms_to_instant (re_last_quorum_heartbeat_ms r'))
          then step_down now leader_term SdLeaseUnrenewable r' else r')"

datatype read_barrier_outcome = RbReady slot_index | RbNotLeader | RbNoQuorum

definition linearizable_read_barrier ::
    "instant \<Rightarrow> bool \<Rightarrow> heartbeat_outcome \<Rightarrow> 'e px_local_replica \<Rightarrow> read_barrier_outcome" where
  "linearizable_read_barrier now leader_read_ready round r =
     (if \<not> is_leader r then RbNotLeader
      else let read_slot = lr_contiguous_chosen (re_learner r) in
        if \<not> leader_read_ready then RbNoQuorum
        else if lease_read_valid now r then RbReady read_slot
        else case round of
            HbSteppedDown _ \<Rightarrow> RbNotLeader
          | HbContinued True \<Rightarrow> RbReady read_slot
          | HbContinued False \<Rightarrow> RbNoQuorum)"

section \<open>Election deadline\<close>

definition xorshift_new :: "u64 \<Rightarrow> u64" where
  "xorshift_new seed = (if seed = 0 then 0x9E3779B97F4A7C15 else seed)"

definition xorshift_next :: "u64 \<Rightarrow> u64 \<times> u64" where
  "xorshift_next state =
     (let x1 = state XOR push_bit 13 state;
          x2 = x1 XOR drop_bit 7 x1;
          x3 = x2 XOR push_bit 17 x2
      in (x3 * 0x2545F4914F6CDD1D, x3))"

text \<open>\<open>None\<close> is the panic of the remainder by zero, when the span wraps around.\<close>

definition random_between_ms :: "u64 \<Rightarrow> u64 \<Rightarrow> u64 \<Rightarrow> (u64 \<times> u64) option" where
  "random_between_ms lo hi state =
     (if lo = hi then Some (lo, state)
      else let span = hi - lo + 1; (x, state') = xorshift_next state in
        if span = 0 then None else Some (lo + x mod span, state'))"

definition next_election_deadline :: "instant \<Rightarrow> election_config \<Rightarrow> u64 \<Rightarrow> (instant \<times> u64) option" where
  "next_election_deadline now cfg state =
     map_option (\<lambda>(jitter, state'). (now + uint jitter, state'))
       (random_between_ms (ec_election_min_ms cfg) (ec_election_max_ms cfg) state)"

definition group_quorum :: "nat \<Rightarrow> nat" where
  "group_quorum voting_count = voting_count div 2 + 1"

section \<open>Quorums intersect\<close>

locale quorum_system =
  fixes members :: "'m set" and quorum :: nat
  assumes finite_members: "finite members" and majority: "card members < 2 * quorum"
begin

lemma quorums_meet:
  assumes "A \<subseteq> members" "B \<subseteq> members" "quorum \<le> card A" "quorum \<le> card B"
  obtains m where "m \<in> A" "m \<in> B"
proof -
  have fin: "finite A" "finite B" using assms(1,2) finite_members finite_subset by blast+
  have "A \<inter> B \<noteq> {}"
  proof
    assume "A \<inter> B = {}"
    then have "card A + card B = card (A \<union> B)" using fin by (simp add: card_Un_disjoint)
    also have "\<dots> \<le> card members" using assms(1,2) finite_members by (simp add: card_mono)
    finally show False using majority assms(3,4) by simp
  qed
  then show thesis using that by blast
qed

end

interpretation group: quorum_system "set ms" "group_quorum (length ms)" for ms :: "node_id list"
proof
  have "card (set ms) \<le> length ms" by (rule card_length)
  then show "card (set ms) < 2 * group_quorum (length ms)" by (simp add: group_quorum_def)
qed simp

section \<open>A won round is a quorum of votes\<close>

definition granters :: "(node_id \<times> vote_reply option) list \<Rightarrow> node_id list" where
  "granters replies =
     map fst (filter (\<lambda>(p, v). case v of None \<Rightarrow> False | Some x \<Rightarrow> vr_granted x) replies)"

lemma candidate_loop_won:
  "candidate_loop t quorum votes f c (map snd replies) = CandWon f' c' \<Longrightarrow>
   quorum \<le> votes + length (granters replies)"
proof (induction replies arbitrary: votes f c)
  case (Cons pr replies)
  then show ?case
    by (cases pr; cases "snd pr") (auto simp: granters_def Let_def split: if_splits dest: Cons.IH)
qed (simp add: granters_def)

text \<open>The votes of a member over its run, and a candidate that won the round of a term: it votes for
  itself, every granting reply stands for a vote that the peer cast, and the round ends as won.\<close>

definition votes_of :: "(node_id \<Rightarrow> replica_event list) \<Rightarrow> u64 \<Rightarrow> 'e \<Rightarrow> node_id \<Rightarrow> (u64 \<times> node_id) set" where
  "votes_of evs gid e m = union_along votes_cast replica_step (evs m) (member_start m gid e)"

definition wins_round ::
    "node_id list \<Rightarrow> (node_id \<Rightarrow> (u64 \<times> node_id) set) \<Rightarrow> u64 \<Rightarrow> node_id \<Rightarrow>
     (node_id \<times> vote_reply option) list \<Rightarrow> bool" where
  "wins_round ms votes t c replies \<longleftrightarrow>
     c \<in> set ms \<and> (t, c) \<in> votes c \<and> distinct (c # map fst replies) \<and> set (map fst replies) \<subseteq> set ms \<and>
     list_all (\<lambda>p. (t, c) \<in> votes p) (granters replies) \<and>
     (\<exists>f ce f' ce'. candidate_loop t (group_quorum (length ms)) 1 f ce (map snd replies) = CandWon f' ce')"

lemma wins_round_quorum:
  assumes "wins_round ms votes t c replies"
  obtains A where "A \<subseteq> set ms" "group_quorum (length ms) \<le> card A" "\<forall>m \<in> A. (t, c) \<in> votes m"
proof -
  let ?A = "insert c (set (granters replies))"
  have sub: "set (granters replies) \<subseteq> set (map fst replies)" by (auto simp: granters_def)
  have "distinct (granters replies)" using assms
    by (auto simp: wins_round_def granters_def distinct_map intro: inj_on_subset)
  then have "card (set (granters replies)) = length (granters replies)" by (rule distinct_card)
  moreover have "c \<notin> set (granters replies)" using assms sub by (auto simp: wins_round_def)
  ultimately have "card ?A = 1 + length (granters replies)" by simp
  moreover have "group_quorum (length ms) \<le> 1 + length (granters replies)"
    using assms candidate_loop_won unfolding wins_round_def by blast
  ultimately have "group_quorum (length ms) \<le> card ?A" by simp
  moreover have "?A \<subseteq> set ms" using assms sub by (auto simp: wins_round_def)
  moreover have "\<forall>m \<in> ?A. (t, c) \<in> votes m" using assms by (auto simp: wins_round_def list_all_iff)
  ultimately show thesis using that by blast
qed

section \<open>Jitter\<close>

lemma uint_u64_bound: "uint (w :: u64) < 18446744073709551616"
  using uint_bounded [of w] by simp

lemma u64_max_uint: "uint (w :: u64) = 18446744073709551615 \<longleftrightarrow> w = u64_max"
proof
  assume "uint w = 18446744073709551615"
  then have "word_of_int (uint w) = (word_of_int 18446744073709551615 :: u64)" by simp
  then show "w = u64_max" by simp
qed (simp add: unsigned_minus_1_eq_mask mask_eq_exp_minus_1)

lemma uint_span:
  fixes lo hi :: u64
  assumes "lo \<le> hi" and "lo \<noteq> 0 \<or> hi \<noteq> u64_max"
  shows "uint (hi - lo + 1) = uint hi - uint lo + 1"
proof -
  have range: "0 \<le> uint lo" "uint lo \<le> uint hi" "uint hi < 18446744073709551616"
    using assms(1) uint_u64_bound by (simp_all add: word_le_def)
  have "uint lo \<noteq> 0 \<or> uint hi \<noteq> 18446744073709551615"
    using assms(2) unfolding u64_max_uint by (simp add: uint_0_iff)
  then have "uint hi - uint lo + 1 < 18446744073709551616" using range by linarith
  then have "(uint hi - uint lo + 1) mod 18446744073709551616 = uint hi - uint lo + 1"
    using range by (intro mod_pos_pos_trivial) linarith+
  then show ?thesis by (simp add: uint_word_ariths mod_simps)
qed

lemma uint_offset:
  fixes lo hi x :: u64
  assumes "lo \<le> hi" and "lo \<noteq> 0 \<or> hi \<noteq> u64_max"
  shows "uint lo \<le> uint (lo + x mod (hi - lo + 1))" "uint (lo + x mod (hi - lo + 1)) \<le> uint hi"
proof -
  let ?s = "hi - lo + 1" and ?y = "x mod (hi - lo + 1)"
  have le: "uint lo \<le> uint hi" using assms(1) by (simp add: word_le_def)
  have pos: "0 < uint ?s" using uint_span [OF assms] le by linarith
  have y: "0 \<le> uint ?y" "uint ?y < uint ?s" using pos by (simp_all add: uint_mod)
  then have "uint lo + uint ?y \<le> uint hi" using uint_span [OF assms] by linarith
  moreover from this have "uint (lo + ?y) = uint lo + uint ?y"
    using uint_u64_bound [of hi] y(1) unsigned_greater_eq [of lo]
    by (simp add: uint_word_ariths mod_pos_pos_trivial)
  ultimately show "uint lo \<le> uint (lo + ?y)" "uint (lo + ?y) \<le> uint hi" using y(1) by linarith+
qed

section \<open>Vote lockout\<close>

text \<open>The clock reading of a call, for the calls that can move the lockout.\<close>

fun reads_clock_from :: "instant \<Rightarrow> replica_event \<Rightarrow> bool" where
  "reads_clock_from t (RvRequestVote _ now _) \<longleftrightarrow> t \<le> now"
| "reads_clock_from t (RvHeartbeat now _) \<longleftrightarrow> t \<le> now"
| "reads_clock_from t (RvCandidate _ now _) \<longleftrightarrow> t \<le> now"
| "reads_clock_from t _ \<longleftrightarrow> True"

definition locked_until :: "instant \<Rightarrow> u64 \<Rightarrow> 'e px_local_replica \<Rightarrow> bool" where
  "locked_until t lease r \<longleftrightarrow> re_lease_duration_ms r = lease \<and> t \<le> es_vote_lockout_until (re_election r)"

lemma locked_wal_append [simp]: "locked_until t lease (wal_append ok mk r) \<longleftrightarrow> locked_until t lease r"
  by (simp add: locked_until_def wal_append_def split: option.split)

lemma locked_persist [simp]: "locked_until t lease (persist_current_vote ok r) \<longleftrightarrow> locked_until t lease r"
  by (simp add: persist_current_vote_def Let_def)

lemma locked_follower [simp]: "locked_until t lease (become_follower now u r) \<longleftrightarrow> locked_until t lease r"
  by (simp add: locked_until_def transition_defs)

lemma locked_acceptor [simp]: "locked_until t lease (r\<lparr>re_acceptor := a\<rparr>) \<longleftrightarrow> locked_until t lease r"
  by (simp add: locked_until_def)

lemma step_locked:
  assumes "locked_until (t + uint lease) lease r" and "reads_clock_from t ev"
  shows "locked_until (t + uint lease) lease (replica_step ev r)"
proof (cases ev)
  case (RvRequestVote ok now req)
  then show ?thesis using assms
    by (cases "vote_granted now req r")
       (auto simp: request_vote_refused handle_request_vote_def vote_granted_def Let_def set_role_atomic_def
         locked_until_def grant_vote_def persist_current_vote_def wal_append_def split: option.split)
next
  case (RvHeartbeat now req)
  then show ?thesis using assms
    by (auto simp: handle_heartbeat_def heartbeat_adopt_def advance_known_commit_slot_def set_role_atomic_def
        locked_until_def Let_def case_prod_unfold)
next
  case (RvPrepare ok now slot b u)
  then show ?thesis using assms by (simp add: on_prepare_eq fenced_def Let_def)
next
  case (RvAccept ok now e)
  then show ?thesis using assms by (simp add: on_accept_eq fenced_def Let_def)
next
  case (RvStepDown now req)
  then show ?thesis using assms by (simp add: handle_step_down_def Let_def)
qed (use assms in \<open>auto simp: locked_until_def transition_defs persist_current_vote_def wal_append_def
      split: option.split\<close>)

lemma run_locked:
  "locked_until (t + uint lease) lease r \<Longrightarrow> list_all (reads_clock_from t) evs \<Longrightarrow>
   locked_until (t + uint lease) lease (fold replica_step evs r)"
  by (induction evs arbitrary: r) (simp_all add: step_locked)

lemma heartbeat_locks:
  assumes "hr_success (fst (handle_heartbeat now req r))"
  shows "locked_until (now + uint (re_lease_duration_ms r)) (re_lease_duration_ms r) (snd (handle_heartbeat now req r))"
  using assms by (simp add: handle_heartbeat_def heartbeat_adopt_def advance_known_commit_slot_def
      set_role_atomic_def locked_until_def Let_def case_prod_unfold)

lemma locked_refuses: "locked_until t lease r \<Longrightarrow> now < t \<Longrightarrow> \<not> lockout_over now r"
  by (simp add: locked_until_def lockout_over_def)

lemma renewed_lease:
  assumes "lease_read_until r \<le> x" and "x < lease_read_until (renew_lease t_send lease skew now r)"
  shows "x < t_send + max 0 (uint lease - uint skew)"
proof -
  let ?v = "t_send + max 0 (uint lease - uint skew)"
  let ?m = "min (max 0 ?v) 18446744073709551615"
  have "uint (word_of_int ?m :: u64) = ?m" by (simp add: uint_word_of_int)
  then have "lease_read_until (renew_lease t_send lease skew now r) = max (lease_read_until r) ?m"
    by (simp add: renew_lease_def extend_lease_read_until_def record_quorum_heartbeat_def lease_read_until_def
        anchor_ms_to_instant_def instant_to_anchor_ms_def max_def word_le_def)
  then have "x < max 0 ?v" using assms by linarith
  moreover have "0 \<le> x" using assms(1) by (simp add: lease_read_until_def anchor_ms_to_instant_def) (meson order_trans unsigned_greater_eq)
  ultimately show ?thesis by linarith
qed

section \<open>Properties\<close>

text \<open>C2 There is at most one leader per term. In a group of members that run their handlers, each
  candidacy opening a term above the member's own, two candidates that both win the vote round of
  one term are the same.\<close>

theorem one_leader_per_term:
  assumes "\<forall>m \<in> set ms. holds_along candidacy_fresh replica_step (evs m) (member_start m gid e)"
    and "wins_round ms (votes_of evs gid e) t c replies" and "wins_round ms (votes_of evs gid e) t c' replies'"
  shows "c = c'"
proof -
  obtain A where A: "A \<subseteq> set ms" "group_quorum (length ms) \<le> card A" "\<forall>m \<in> A. (t, c) \<in> votes_of evs gid e m"
    by (rule wins_round_quorum [OF assms(2)])
  obtain B where B: "B \<subseteq> set ms" "group_quorum (length ms) \<le> card B" "\<forall>m \<in> B. (t, c') \<in> votes_of evs gid e m"
    by (rule wins_round_quorum [OF assms(3)])
  obtain m where m: "m \<in> A" "m \<in> B" by (rule group.quorums_meet [OF A(1) B(1) A(2) B(2)])
  then have fresh: "holds_along candidacy_fresh replica_step (evs m) (member_start m gid e)"
    using assms(1) A(1) by blast
  show ?thesis
    using member.run_unique [OF _ fresh] A(3) [THEN bspec, OF m(1)] B(3) [THEN bspec, OF m(2)]
    unfolding votes_of_def by simp
qed

definition demo_grant :: vote_reply where
  "demo_grant = \<lparr> vr_term = 1, vr_granted = True, vr_contiguous_chosen = 0, vr_last_chosen_term = 0,
     vr_highest_seen_slot = 0 \<rparr>"

definition demo_evs :: "node_id \<Rightarrow> replica_event list" where
  "demo_evs m = (if m = 1 then [RvCandidate True 0 1] else if m = 2 then [RvRequestVote True 5 (demo_request 1 1)] else [])"

lemma one_leader_per_term_witness:
  "wins_round [1, 2, 3] (votes_of demo_evs 7 ()) 1 1 [(2, Some demo_grant), (3, None)] \<and>
   \<not> wins_round [1, 2, 3] (votes_of demo_evs 7 ()) 1 2 [(1, Some demo_grant), (3, Some demo_grant)]"
proof -
  let ?V = "votes_of demo_evs 7 ()"
  have "(1, 1) \<in> ?V 1" "(1, 1) \<in> ?V 2" by code_simp+
  moreover have "candidate_loop 1 (group_quorum (length [1, 2, 3 :: node_id])) 1 0 0
      (map snd [(2 :: node_id, Some demo_grant), (3, None)]) = CandWon 0 0" by code_simp
  ultimately have wins: "wins_round [1, 2, 3] ?V 1 1 [(2, Some demo_grant), (3, None)]"
    by (auto simp: wins_round_def granters_def demo_grant_def group_quorum_def)
  have fresh: "\<forall>m \<in> set [1, 2, 3]. holds_along candidacy_fresh replica_step (demo_evs m) (member_start m 7 ())"
    by code_simp
  show ?thesis using wins one_leader_per_term [OF fresh wins] by fastforce
qed

text \<open>C38 Two leaders can hold one term. Member 1 asks for pre-votes for term 1. While it waits, it
  grants member 2 its vote for that very term, and member 2 becomes leader with it. Then the
  pre-vote of member 3 arrives: member 1 becomes a candidate of the same term, which replaces its
  vote, and the vote of member 3 makes it the second leader of the term.\<close>

theorem two_leaders_in_one_term:
  "let start = (\<lambda>m. member_start m 7 ());
       group = (\<lambda>r. \<lparr> eg_replica = r, eg_next_slot = 1, eg_handoff = None, eg_proposing_term = 0 \<rparr>);
       r1 = become_precandidate (start 1);
       prevote = handle_pre_vote 0 (vote_payload (proposed_term r1) r1) (start 3);
       out = run_prevote_round 2 [2, 3] [Some prevote] r1;
       r2 = replica_step (RvCandidate True 0 1) (start 2);
       (vote1, r1') = handle_request_vote True 0 (vote_payload 1 r2) r1;
       g2 = run_candidate_election 0 2 [1, 3] [Some vote1] (group r2);
       r1'' = after_prevote True 0 out r1';
       (vote3, r3) = handle_request_vote True 0 (vote_payload 1 r1'') (start 3);
       g1 = run_candidate_election 0 2 [2, 3] [Some vote3] (group r1'')
   in out = PreWon 1 \<and> is_leader (eg_replica g1) \<and> is_leader (eg_replica g2) \<and>
      es_current_term (re_election (eg_replica g1)) = 1 \<and> es_current_term (re_election (eg_replica g2)) = 1 \<and>
      eg_proposing_term g1 = 1 \<and> eg_proposing_term g2 = 1"
  by (simp add: member_eval transition_defs handle_pre_vote_def vote_payload_def proposed_term_def
      run_prevote_round_def run_candidate_election_def after_prevote_def finalize_leader_def is_leader_def
      replica_role_of_def role_from_u8_def)

text \<open>The jitter of the election deadline stays within its configured bounds, and computing it
  does not panic unless the bounds are the whole range of the type.\<close>

theorem election_deadline_bounds:
  assumes "ec_election_min_ms cfg \<le> ec_election_max_ms cfg"
    and "ec_election_min_ms cfg \<noteq> 0 \<or> ec_election_max_ms cfg \<noteq> u64_max"
  shows "\<exists>d state'. next_election_deadline now cfg state = Some (d, state') \<and>
    now + uint (ec_election_min_ms cfg) \<le> d \<and> d \<le> now + uint (ec_election_max_ms cfg)"
proof (cases "ec_election_min_ms cfg = ec_election_max_ms cfg")
  case True
  then show ?thesis by (simp add: next_election_deadline_def random_between_ms_def)
next
  case False
  let ?lo = "ec_election_min_ms cfg" and ?hi = "ec_election_max_ms cfg"
  have "0 < uint (?hi - ?lo + 1)" using uint_span [OF assms] assms(1) by (simp add: word_le_def)
  then have "?hi - ?lo + 1 \<noteq> 0" by auto
  then show ?thesis using False uint_offset [OF assms]
    by (simp add: next_election_deadline_def random_between_ms_def Let_def case_prod_unfold)
qed

definition demo_config :: election_config where
  "demo_config = \<lparr> ec_lease_duration_ms = 3000, ec_max_clock_skew_ms = 500, ec_election_min_ms = 1000,
     ec_election_max_ms = 2000 \<rparr>"

lemma election_deadline_bounds_witness:
  "\<exists>d state'. next_election_deadline 50 demo_config 9 = Some (d, state') \<and> 1050 \<le> d \<and> d \<le> 2050"
  using election_deadline_bounds [of demo_config 50 9] by (simp add: demo_config_def)

text \<open>C7 The read lease excludes other leaders. A leader renews its lease with a heartbeat round it
  sent at one instant, and a follower acknowledged a heartbeat of that round. As long as the leader
  may serve reads under the renewed lease, the follower grants neither a vote nor a pre-vote,
  whatever calls it served since, if it did not restart, if both use the same lease duration, and
  if the follower's clock has advanced by at most the configured skew more than the leader's.\<close>

theorem lease_excludes_votes:
  assumes "lease_read_until rl \<le> x"
    and "lease_read_valid x (snd (run_heartbeat_round cfg t_send now leader_term quorum replies rl))"
    and "hr_success (fst (handle_heartbeat nowf req rf))" and "list_all (reads_clock_from nowf) evs"
    and "re_lease_duration_ms rf = ec_lease_duration_ms cfg"
    and "ec_max_clock_skew_ms cfg \<le> ec_lease_duration_ms cfg"
    and "y - nowf \<le> (x - t_send) + uint (ec_max_clock_skew_ms cfg)"
    and "rf' = run_replica evs (snd (handle_heartbeat nowf req rf))"
  shows "\<not> vr_granted (fst (handle_request_vote ok y vreq rf')) \<and> \<not> vr_granted (handle_pre_vote y vreq rf')"
proof -
  let ?lease = "ec_lease_duration_ms cfg" and ?skew = "ec_max_clock_skew_ms cfg"
  have "x < lease_read_until (renew_lease t_send ?lease ?skew now rl)"
    using assms(1,2) by (auto simp: run_heartbeat_round_def lease_read_valid_def Let_def split: if_splits)
  from renewed_lease [OF assms(1) this] have "x < t_send + (uint ?lease - uint ?skew)"
    using assms(6) by (simp add: word_le_def)
  then have "y < nowf + uint ?lease" using assms(7) by linarith
  moreover have "locked_until (nowf + uint ?lease) ?lease rf'"
    using run_locked [OF _ assms(4), of ?lease] heartbeat_locks [OF assms(3)] assms(5,8)
    by (simp add: run_replica_def)
  ultimately have "\<not> lockout_over y rf'" by (intro locked_refuses)
  then show ?thesis by (simp add: vote_granted_def handle_pre_vote_def vote_reply_of_def Let_def case_prod_unfold)
qed

definition demo_heartbeat :: heartbeat_request where
  "demo_heartbeat = \<lparr> hq_term = 1, hq_leader_id = 1, hq_committed_safe_slot = 0 \<rparr>"

definition demo_leader :: "unit px_local_replica" where
  "demo_leader = become_leader 0 (replica_step (RvCandidate True 0 1) (member_start 1 7 ()))"

lemma lease_excludes_votes_witness:
  "let hb = handle_heartbeat 5 demo_heartbeat (member_start 2 7 ());
       rl = snd (run_heartbeat_round demo_config 0 9 1 2 [(True, Some (fst hb))] demo_leader)
   in lease_read_valid 2400 rl \<and> \<not> vr_granted (handle_pre_vote 2900 (demo_request 2 3) (snd hb))"
proof -
  let ?hb = "handle_heartbeat 5 demo_heartbeat (member_start 2 7 ())"
  have over: "lease_read_until demo_leader \<le> 2400" by code_simp
  have valid: "lease_read_valid 2400 (snd (run_heartbeat_round demo_config 0 9 1 2 [(True, Some (fst ?hb))] demo_leader))"
    by code_simp
  have ack: "hr_success (fst ?hb)" by code_simp
  have none: "list_all (reads_clock_from 5) []" by simp
  have same: "re_lease_duration_ms (member_start 2 7 ()) = ec_lease_duration_ms demo_config"
    and skew: "ec_max_clock_skew_ms demo_config \<le> ec_lease_duration_ms demo_config"
    and drift: "(2900 :: int) - 5 \<le> (2400 - 0) + uint (ec_max_clock_skew_ms demo_config)"
    by (simp_all add: demo_config_def member_start_def new_with_learner_def)
  show ?thesis
    using valid lease_excludes_votes [OF over valid ack none same skew drift refl, of True "demo_request 2 3"]
    by (simp add: run_replica_def)
qed

text \<open>C39 A restart forgets the lockout. A follower that has just acknowledged a heartbeat refuses a
  vote, but after a restart from its log it grants the same vote at the same instant, while the
  leader may still serve reads under the lease that the acknowledgement renewed.\<close>

theorem restart_forgets_lockout:
  "let hb = handle_heartbeat 5 demo_heartbeat (member_start 2 7 ());
       rl = snd (run_heartbeat_round demo_config 0 9 1 2 [(True, Some (fst hb))] demo_leader);
       scan = replay_scan (log_of (snd hb))
   in lease_read_valid 100 rl \<and> \<not> vr_granted (fst (handle_request_vote True 100 (demo_request 2 3) (snd hb))) \<and>
      (\<exists>r'. restore_from_replay_with_engine \<lparr> ki_apply = (\<lambda>_ _ u. (True, u)), ki_noop = (\<lambda>_ u. u) \<rparr>
           2 RoleFollower 50 0 () (into_records scan) (rr_current_term scan) (rr_voted_for scan) = Inr r' \<and>
         vr_granted (fst (handle_request_vote True 100 (demo_request 2 3) r')))"
proof -
  let ?hb = "handle_heartbeat 5 demo_heartbeat (member_start 2 7 ())"
  let ?scan = "replay_scan (log_of (snd ?hb))"
  let ?restored = "restore_from_replay_with_engine \<lparr> ki_apply = (\<lambda>_ _ u. (True, u)), ki_noop = (\<lambda>_ u. u) \<rparr>
           2 RoleFollower 50 0 () (into_records ?scan) (rr_current_term ?scan) (rr_voted_for ?scan)"
  have "lease_read_valid 100 (snd (run_heartbeat_round demo_config 0 9 1 2 [(True, Some (fst ?hb))] demo_leader))"
    "\<not> vr_granted (fst (handle_request_vote True 100 (demo_request 2 3) (snd ?hb)))"
    by code_simp+
  moreover have granted: "case ?restored of Inl _ \<Rightarrow> False
      | Inr r' \<Rightarrow> vr_granted (fst (handle_request_vote True 100 (demo_request 2 3) r'))"
    by code_simp
  moreover obtain r' where "?restored = Inr r'" using granted by (cases ?restored) simp_all
  ultimately show ?thesis unfolding Let_def by simp
qed

end
