(* ===== verification/Replica_Apply.thy ===== *)
theory Replica_Apply
  imports Replica_Recovery
begin

text \<open>
  How a member catches up (\<open>cluster/local_replica_apply.rs\<close>, \<open>cluster/group_fetchgap.rs\<close>, and
  the notification handlers of \<open>rpc/px_rpc_service/notifications.rs\<close>): the background apply
  loop over the committed range, the notices of chosen slots, and the fetching of the slots a
  member has no value for.

  The loop is a partial function whose value is the state in which it next waits for a wake-up,
  and \<open>None\<close> when it never waits. The addition \<open>next += 1\<close> wraps. Nothing else changes the
  replica while the loop runs to its next wait, and it is not cancelled.
\<close>

section \<open>Learning and notices\<close>

definition on_learner :: "('e px_learner \<Rightarrow> 'e px_learner) \<Rightarrow> 'e px_local_replica \<Rightarrow> 'e px_local_replica" where
  "on_learner f r = r\<lparr>re_learner := f (re_learner r)\<rparr>"

definition learn_chosen ::
    "'e kv_iface \<Rightarrow> px_log_entry \<Rightarrow> request_identity list \<Rightarrow> 'e px_local_replica \<Rightarrow> 'e px_local_replica" where
  "learn_chosen ki e ids r = on_learner (learn ki e ids) r"

text \<open>The part of \<open>spawn_learn_chosen\<close> before the spawn, and the spawned task.\<close>

definition spawn_learn_chosen ::
    "px_log_entry \<Rightarrow> request_identity list \<Rightarrow> 'e px_local_replica \<Rightarrow> 'e px_local_replica" where
  "spawn_learn_chosen e ids r =
     on_learner (record_request_results ids (e_slot e) \<circ> update_chosen_frontier (e_slot e) (e_term e)) r"

definition apply_and_advance :: "'e kv_iface \<Rightarrow> px_log_entry \<Rightarrow> 'e px_learner \<Rightarrow> 'e px_learner" where
  "apply_and_advance ki e l =
     (let (ok, l') = apply_entry ki (e_slot e) (e_payload e) l
      in if ok then advance_applied_frontier (e_slot e) l' else l')"

definition record_gap :: "slot_index \<Rightarrow> 'e px_local_replica \<Rightarrow> 'e px_local_replica" where
  "record_gap slot r = r\<lparr>re_gap_slots := om_put slot () (re_gap_slots r)\<rparr>"

definition note_notice :: "slot_index \<Rightarrow> u64 \<Rightarrow> px_ballot \<Rightarrow> 'e px_local_replica \<Rightarrow> 'e px_local_replica" where
  "note_notice slot term chosen_ballot r =
     (if (case accepted_at (re_acceptor r) slot of None \<Rightarrow> False | Some e \<Rightarrow> e_ballot e = chosen_ballot)
      then on_learner (update_chosen_frontier slot term) r
      else record_gap slot (on_learner (snd \<circ> note_chosen slot term) r))"

definition handle_chosen_notice ::
    "slot_index \<Rightarrow> u64 \<Rightarrow> node_id \<Rightarrow> u64 \<Rightarrow> 'e px_local_replica \<Rightarrow> 'e px_local_replica" where
  "handle_chosen_notice slot term leader_id ballot_round r =
     note_notice slot term (PxBallot ballot_round leader_id) r"

definition handle_batch_chosen ::
    "slot_index \<Rightarrow> slot_index \<Rightarrow> u64 \<Rightarrow> node_id \<Rightarrow> u64 \<Rightarrow> 'e px_local_replica \<Rightarrow> 'e px_local_replica" where
  "handle_batch_chosen start_slot end_slot term leader_id ballot_round r =
     fold (\<lambda>slot. note_notice slot term (PxBallot ballot_round leader_id)) (slot_range start_slot end_slot) r"

section \<open>The apply loop\<close>

definition sat_add :: "u64 \<Rightarrow> u64 \<Rightarrow> u64" where
  "sat_add a b = (if a + b < a then u64_max else a + b)"

definition sat_sub :: "u64 \<Rightarrow> u64 \<Rightarrow> u64" where
  "sat_sub a b = (if a < b then 0 else a - b)"

definition max_apply_per_batch :: u64 where
  "max_apply_per_batch = 64"

definition apply_slot :: "'e kv_iface \<Rightarrow> slot_index \<Rightarrow> 'e px_local_replica \<Rightarrow> 'e px_local_replica" where
  "apply_slot ki slot r =
     (if slot \<le> re_known_commit_slot r \<or> is_chosen slot (re_learner r)
      then case accepted_at (re_acceptor r) slot of
          Some e \<Rightarrow> on_learner (apply_and_advance ki e) r
        | None \<Rightarrow> record_gap slot r
      else r)"

partial_function (option) apply_range ::
    "'e kv_iface \<Rightarrow> slot_index \<Rightarrow> slot_index \<Rightarrow> 'e px_local_replica \<Rightarrow> 'e px_local_replica option" where
  "apply_range ki slot last_slot r =
     (if slot \<le> last_slot then apply_range ki (slot + 1) last_slot (apply_slot ki slot r) else Some r)"

definition apply_target :: "'e px_local_replica \<Rightarrow> slot_index" where
  "apply_target r = max (re_known_commit_slot r) (lr_last_chosen_slot (re_learner r))"

definition apply_batch_end :: "slot_index \<Rightarrow> slot_index \<Rightarrow> slot_index" where
  "apply_batch_end target slot = min target (sat_sub (sat_add slot max_apply_per_batch) 1)"

partial_function (option) apply_loop_task ::
    "'e kv_iface \<Rightarrow> 'e px_local_replica \<Rightarrow> 'e px_local_replica option" where
  "apply_loop_task ki r =
     (if apply_target r \<le> lr_contiguous_applied (re_learner r) then Some r
      else Option.bind
        (apply_range ki (sat_succ (lr_contiguous_applied (re_learner r)))
           (apply_batch_end (apply_target r) (sat_succ (lr_contiguous_applied (re_learner r)))) r)
        (\<lambda>r'. if lr_contiguous_applied (re_learner r') = lr_contiguous_applied (re_learner r)
              then Some r' else apply_loop_task ki r'))"

section \<open>Fetching gaps\<close>

definition max_inflight_fetchgap :: u64 where
  "max_inflight_fetchgap = 16"

fun drain_first :: "nat \<Rightarrow> (slot_index, unit) omap \<Rightarrow> slot_index list \<times> (slot_index, unit) omap" where
  "drain_first (Suc n) ((slot, u) # gaps) = (let (ss, rest) = drain_first n gaps in (slot # ss, rest))"
| "drain_first _ gaps = ([], gaps)"

definition drain_gaps_for_fetchgap :: "'e px_local_replica \<Rightarrow> slot_index list \<times> 'e px_local_replica" where
  "drain_gaps_for_fetchgap r =
     (let mx = sat_sub max_inflight_fetchgap (re_fetchgap_inflight r) in
      if mx = 0 then ([], r)
      else let (result, gaps) = drain_first (unat mx) (re_gap_slots r); r1 = r\<lparr>re_gap_slots := gaps\<rparr>
           in (result,
               if result = [] then r1
               else r1\<lparr>re_fetchgap_inflight := re_fetchgap_inflight r1 + of_nat (length result)\<rparr>))"

text \<open>One round of the driver on a replica: the slots it sends requests for. \<open>has_remote\<close> says
  whether a connection to a member is configured.\<close>

definition fetchgap_round ::
    "(node_id \<Rightarrow> bool) \<Rightarrow> 'e px_local_replica \<Rightarrow> slot_index list \<times> 'e px_local_replica" where
  "fetchgap_round has_remote r =
     (let leader_id = (case es_leader_id (re_election r) of None \<Rightarrow> 0 | Some l \<Rightarrow> l) in
      if is_leader r \<or> leader_id = 0 \<or> \<not> has_remote leader_id then ([], r)
      else drain_gaps_for_fetchgap r)"

datatype fetchgap_outcome = FgNoTransport | FgFailed | FgReply px_log_entry

text \<open>The end of one request: its guard gives back the slot of the in-flight budget in every case.\<close>

definition fetchgap_done ::
    "bool \<Rightarrow> slot_index \<Rightarrow> fetchgap_outcome \<Rightarrow> 'e px_local_replica \<Rightarrow> 'e px_local_replica" where
  "fetchgap_done ok slot out r0 =
     (let r = r0\<lparr>re_fetchgap_inflight := re_fetchgap_inflight r0 - 1\<rparr> in
      case out of
        FgNoTransport \<Rightarrow> r
      | FgFailed \<Rightarrow> record_gap slot r
      | FgReply e \<Rightarrow>
          let r1 = wal_append ok (\<lambda>g. from_accepted g e) r in
          if re_wal r \<noteq> None \<and> \<not> ok then record_gap slot r1
          else let (installed, a) = install_chosen e (re_acceptor r1); r2 = r1\<lparr>re_acceptor := a\<rparr> in
            if installed then on_learner (update_chosen_frontier (e_slot e) (e_term e)) r2
            else record_gap slot r2)"

text \<open>The leader's answer; \<open>read_ready\<close> is the flag set when its handoff is complete.\<close>

definition handle_fetch_gap :: "bool \<Rightarrow> slot_index \<Rightarrow> 'e px_local_replica \<Rightarrow> px_log_entry option" where
  "handle_fetch_gap read_ready slot r =
     (if \<not> is_leader r \<or> \<not> read_ready \<or> lr_contiguous_chosen (re_learner r) < slot then None
      else accepted_at (re_acceptor r) slot)"

section \<open>The loop comes to rest\<close>

abbreviation applied_to :: "'e px_local_replica \<Rightarrow> slot_index" where
  "applied_to r \<equiv> lr_contiguous_applied (re_learner r)"

lemma slot_range_Nil: "\<not> slot \<le> last_slot \<Longrightarrow> slot_range slot last_slot = []"
  by (simp add: slot_range_def word_le_nat_alt)

lemma below_u64_max: "slot \<le> last_slot \<Longrightarrow> last_slot \<noteq> u64_max \<Longrightarrow> slot < u64_max"
  using word_order.not_eq_extremum [of last_slot] by (simp add: order_le_less_trans)

lemma slot_range_Cons:
  assumes "slot \<le> last_slot" and "last_slot \<noteq> u64_max"
  shows "slot_range slot last_slot = slot # slot_range (slot + 1) last_slot"
proof -
  have "unat (slot + 1) = Suc (unat slot)" by (rule unat_succ [OF below_u64_max [OF assms]])
  moreover have "[unat slot..<Suc (unat last_slot)] = unat slot # [Suc (unat slot)..<Suc (unat last_slot)]"
    using assms(1) by (intro upt_conv_Cons) (simp add: word_le_nat_alt less_Suc_eq_le)
  ultimately show ?thesis by (simp add: slot_range_def del: upt_Suc)
qed

lemma apply_range_fold:
  "last_slot \<noteq> u64_max \<Longrightarrow>
   apply_range ki slot last_slot r = Some (fold (apply_slot ki) (slot_range slot last_slot) r)"
proof (induction "Suc (unat last_slot) - unat slot" arbitrary: slot r rule: less_induct)
  case less
  show ?case
  proof (cases "slot \<le> last_slot")
    case True
    have "Suc (unat last_slot) - unat (slot + 1) < Suc (unat last_slot) - unat slot"
      using True unat_succ [OF below_u64_max [OF True less.prems]] by (simp add: word_le_nat_alt)
    from less.hyps [OF this less.prems] show ?thesis
      using True by (simp add: apply_range.simps [of ki slot] slot_range_Cons [OF True less.prems])
  qed (simp add: apply_range.simps [of ki slot] slot_range_Nil)
qed

lemma batch_end_not_max: "apply_batch_end target slot \<noteq> u64_max"
proof -
  let ?w = "sat_add slot max_apply_per_batch"
  have "sat_sub ?w 1 \<noteq> u64_max"
  proof (cases "?w < 1")
    case False
    then have "?w \<noteq> 0" by auto
    then show ?thesis using False by (simp add: sat_sub_def)
  qed (simp add: sat_sub_def)
  then show ?thesis by (auto simp: apply_batch_end_def min_def dest: word_order.extremum_uniqueI)
qed

lemma apply_and_advance_step:
  "apply_and_advance ki e = learner_step ki (EvApply (e_slot e) (e_payload e))"
  by (simp add: apply_and_advance_def fun_eq_iff)

lemma applied_grows:
  assumes "applied_inv l"
  shows "lr_contiguous_applied l \<le> lr_contiguous_applied (learner_step ki ev l)"
    and "s \<in> applied_by ki ev l \<Longrightarrow> s = lr_contiguous_applied l + 1 \<Longrightarrow> s \<noteq> 0 \<Longrightarrow>
         s \<le> lr_contiguous_applied (learner_step ki ev l)"
proof -
  note inv = applied.step_inv [OF assms, of ki ev]
  note known = applied.step_known [OF assms, of ki ev]
  show "lr_contiguous_applied l \<le> lr_contiguous_applied (learner_step ki ev l)"
    unfolding applied.frontier_iff [OF inv] known by blast
  assume s: "s \<in> applied_by ki ev l" "s = lr_contiguous_applied l + 1" "s \<noteq> 0"
  have "{0<..s} \<subseteq> {0<..lr_contiguous_applied l} \<union> {s}"
    using s(2) word_between_succ by (metis (no_types) UnCI greaterThanAtMost_iff insertCI leI subsetI)
  moreover have "{s} \<subseteq> applied_by ki ev l - {0}" using s(1,3) by simp
  ultimately show "s \<le> lr_contiguous_applied (learner_step ki ev l)"
    unfolding applied.frontier_iff [OF inv] known by blast
qed

lemma on_learner_sel [simp]:
  "re_learner (on_learner f r) = f (re_learner r)" "re_acceptor (on_learner f r) = re_acceptor r"
  "re_known_commit_slot (on_learner f r) = re_known_commit_slot r"
  "re_gap_slots (on_learner f r) = re_gap_slots r" "re_wal (on_learner f r) = re_wal r"
  "re_fetchgap_inflight (on_learner f r) = re_fetchgap_inflight r"
  by (simp_all add: on_learner_def)

lemma record_gap_sel [simp]:
  "re_learner (record_gap s r) = re_learner r" "re_acceptor (record_gap s r) = re_acceptor r"
  "re_known_commit_slot (record_gap s r) = re_known_commit_slot r"
  "re_gap_slots (record_gap s r) = om_put s () (re_gap_slots r)" "re_wal (record_gap s r) = re_wal r"
  "re_fetchgap_inflight (record_gap s r) = re_fetchgap_inflight r"
  by (simp_all add: record_gap_def)

lemma last_chosen_frame [simp]:
  "lr_last_chosen_slot (apply_and_advance ki e l) = lr_last_chosen_slot l"
  by (auto simp: apply_and_advance_def apply_entry_def frontier_defs split: prod.split)

lemma apply_and_advance_inv: "applied_inv l \<Longrightarrow> applied_inv (apply_and_advance ki e l)"
  unfolding apply_and_advance_step by (rule applied.step_inv)

lemma apply_and_advance_grows:
  "applied_inv l \<Longrightarrow> lr_contiguous_applied l \<le> lr_contiguous_applied (apply_and_advance ki e l)"
  unfolding apply_and_advance_step by (rule applied_grows)

text \<open>What the slots of a batch leave alone, and what they only let grow.\<close>

definition batch_rel :: "'e px_local_replica \<Rightarrow> 'e px_local_replica \<Rightarrow> bool" where
  "batch_rel r r' \<longleftrightarrow>
     re_acceptor r' = re_acceptor r \<and> re_known_commit_slot r' = re_known_commit_slot r \<and>
     lr_last_chosen_slot (re_learner r') = lr_last_chosen_slot (re_learner r) \<and>
     applied_inv (re_learner r') \<and> applied_to r \<le> applied_to r' \<and>
     fst ` set (re_gap_slots r) \<subseteq> fst ` set (re_gap_slots r')"

lemma batch_rel_trans: "batch_rel r r' \<Longrightarrow> batch_rel r' r'' \<Longrightarrow> batch_rel r r''"
  by (auto simp: batch_rel_def)

lemma batch_rel_slot: "applied_inv (re_learner r) \<Longrightarrow> batch_rel r (apply_slot ki slot r)"
  by (auto simp: batch_rel_def apply_slot_def apply_and_advance_inv apply_and_advance_grows split: option.split)

lemma batch_rel_inv: "batch_rel r r' \<Longrightarrow> applied_inv (re_learner r')"
  by (simp add: batch_rel_def)

lemma batch_rel_refl: "applied_inv (re_learner r) \<Longrightarrow> batch_rel r r"
  by (simp add: batch_rel_def)

lemma batch_rel_fold: "applied_inv (re_learner r) \<Longrightarrow> batch_rel r (fold (apply_slot ki) ss r)"
proof (induction ss arbitrary: r)
  case (Cons s ss)
  note rel = batch_rel_slot [OF Cons.prems, of ki s]
  show ?case using batch_rel_trans [OF rel Cons.IH [OF batch_rel_inv [OF rel]]] by simp
qed (simp add: batch_rel_refl)

definition batch_of :: "'e kv_iface \<Rightarrow> 'e px_local_replica \<Rightarrow> 'e px_local_replica" where
  "batch_of ki r =
     (let slot = sat_succ (applied_to r)
      in fold (apply_slot ki) (slot_range slot (apply_batch_end (apply_target r) slot)) r)"

lemma apply_loop_unfold:
  "apply_loop_task ki r =
     (if apply_target r \<le> applied_to r then Some r
      else if applied_to (batch_of ki r) = applied_to r then Some (batch_of ki r)
      else apply_loop_task ki (batch_of ki r))"
  by (subst apply_loop_task.simps) (simp add: apply_range_fold [OF batch_end_not_max] batch_of_def Let_def)

lemma batch_rel_batch: "applied_inv (re_learner r) \<Longrightarrow> batch_rel r (batch_of ki r)"
  unfolding batch_of_def Let_def by (rule batch_rel_fold)

lemma apply_loop_rest:
  "applied_inv (re_learner r) \<Longrightarrow>
   \<exists>r0 r'. apply_loop_task ki r = Some r' \<and> batch_rel r r0 \<and> batch_rel r r' \<and>
     (apply_target r' \<le> applied_to r' \<or>
      applied_to r0 < apply_target r0 \<and> r' = batch_of ki r0 \<and> applied_to r' = applied_to r0)"
proof (induction "unat u64_max - unat (applied_to r)" arbitrary: r rule: less_induct)
  case less
  let ?b = "batch_of ki r"
  note rel = batch_rel_batch [OF less.prems, of ki]
  consider "apply_target r \<le> applied_to r" | "applied_to r < apply_target r" "applied_to ?b = applied_to r"
    | "applied_to r < apply_target r" "applied_to ?b \<noteq> applied_to r" by fastforce
  then show ?case
  proof cases
    case 1
    then show ?thesis using batch_rel_refl [OF less.prems] by (subst apply_loop_unfold) auto
  next
    case 2
    then show ?thesis using batch_rel_refl [OF less.prems] rel by (subst apply_loop_unfold) auto
  next
    case 3
    then have "applied_to r < applied_to ?b" using rel by (simp add: batch_rel_def less_le)
    moreover have "unat (applied_to ?b) \<le> unat u64_max" unfolding word_le_nat_alt [symmetric] by simp
    ultimately have "unat u64_max - unat (applied_to ?b) < unat u64_max - unat (applied_to r)"
      unfolding word_less_nat_alt by linarith
    from less.hyps [OF this batch_rel_inv [OF rel]] obtain r0 r' where
      "apply_loop_task ki ?b = Some r'" "batch_rel ?b r0" "batch_rel ?b r'"
      "apply_target r' \<le> applied_to r' \<or>
       applied_to r0 < apply_target r0 \<and> r' = batch_of ki r0 \<and> applied_to r' = applied_to r0" by blast
    then show ?thesis using 3 batch_rel_trans [OF rel] by (subst apply_loop_unfold) auto
  qed
qed

text \<open>The first slot past the frontier is in the batch, and after it the frontier has moved or
  the slot is a recorded gap.\<close>

lemma batch_end_ge:
  assumes "slot \<le> target" and "slot \<noteq> u64_max"
  shows "slot \<le> apply_batch_end target slot"
proof -
  have "slot \<le> sat_sub (sat_add slot max_apply_per_batch) 1"
  proof (cases "slot + 64 < slot")
    case True
    then have "sat_sub (sat_add slot max_apply_per_batch) 1 = u64_max - 1"
      by (simp add: sat_sub_def sat_add_def max_apply_per_batch_def)
    moreover have "slot < u64_max" by (rule below_u64_max [OF order_refl assms(2)])
    then have "slot \<le> u64_max - 1"
      by (simp add: word_less_nat_alt word_le_nat_alt unsigned_minus_1_eq_mask mask_eq_exp_minus_1)
    ultimately show ?thesis by simp
  next
    case False
    then show ?thesis
      by (simp add: sat_sub_def sat_add_def max_apply_per_batch_def) (unat_arith, simp)
  qed
  then show ?thesis using assms(1) by (simp add: apply_batch_end_def)
qed

definition engine_ok :: "'e kv_iface \<Rightarrow> bool" where
  "engine_ok ki \<longleftrightarrow> (\<forall>s ops e. fst (ki_apply ki s ops e))"

lemma apply_entry_ok: "engine_ok ki \<Longrightarrow> fst (apply_entry ki s p l)"
  by (simp add: engine_ok_def apply_entry_def Let_def split: prod.split) (metis fst_conv)

lemma sat_succ_below: "c < n \<Longrightarrow> sat_succ c = c + 1"
  using word_order.extremum_strict by (auto simp: sat_succ_def)

lemma stalled_at_gap:
  assumes inv: "applied_inv (re_learner r)" "acceptor_inv (re_acceptor r)" and ok: "engine_ok ki"
    and stalled: "applied_to (batch_of ki r) = applied_to r"
    and committed: "applied_to r + 1 \<le> re_known_commit_slot r" "applied_to r < u64_max - 1"
  shows "accepted_at (re_acceptor r) (applied_to r + 1) = None"
    and "applied_to r + 1 \<in> fst ` set (re_gap_slots (batch_of ki r))"
proof -
  let ?n = "applied_to r + 1"
  have n: "?n \<noteq> u64_max" "?n \<noteq> 0"
    using committed(2) word_succ_pos [OF committed(2)] by (metis add_diff_cancel_right' order_less_irrefl, simp)
  have target: "?n \<le> apply_target r" using committed(1) by (simp add: apply_target_def le_max_iff_disj)
  have first: "batch_of ki r =
      fold (apply_slot ki) (slot_range (?n + 1) (apply_batch_end (apply_target r) ?n)) (apply_slot ki ?n r)"
    using slot_range_Cons [OF batch_end_ge [OF target n(1)] batch_end_not_max]
    by (simp add: batch_of_def Let_def sat_succ_below [OF committed(2)])
  note step = batch_rel_slot [OF inv(1), of ki ?n]
  have rest: "batch_rel (apply_slot ki ?n r) (batch_of ki r)"
    unfolding first by (rule batch_rel_fold [OF batch_rel_inv [OF step]])
  show none: "accepted_at (re_acceptor r) ?n = None"
  proof (rule ccontr)
    assume "accepted_at (re_acceptor r) ?n \<noteq> None"
    then obtain e where e: "accepted_at (re_acceptor r) ?n = Some e" by blast
    then have slot: "e_slot e = ?n" by (rule inv_accepted_slot [OF inv(2)])
    have "?n \<in> applied_by ki (EvApply (e_slot e) (e_payload e)) (re_learner r)"
      using apply_entry_ok [OF ok] slot by simp
    then have "?n \<le> applied_to (apply_slot ki ?n r)"
      using applied_grows(2) [OF inv(1) _ refl n(2), of ki "EvApply (e_slot e) (e_payload e)"] e committed(1)
      by (simp add: apply_slot_def apply_and_advance_step del: learner_step.simps applied_by.simps)
    also have "\<dots> \<le> applied_to r" using rest stalled by (simp add: batch_rel_def)
    finally show False using word_less_succ [OF committed(2)] by simp
  qed
  then have "?n \<in> fst ` set (re_gap_slots (apply_slot ki ?n r))"
    using committed(1) by (simp add: apply_slot_def)
  then show "?n \<in> fst ` set (re_gap_slots (batch_of ki r))" using rest by (auto simp: batch_rel_def)
qed

text \<open>C40 The apply loop always comes to a wait: from any state whose applied frontier is
  well-formed, whatever the engine does, no batch runs past the end of the slot type, and every
  round that does not wait moves the frontier.\<close>

theorem apply_loop_terminates:
  assumes "applied_inv (re_learner r)"
  shows "\<exists>r'. apply_loop_task ki r = Some r' \<and> applied_inv (re_learner r') \<and>
    lr_contiguous_applied (re_learner r) \<le> lr_contiguous_applied (re_learner r')"
  using apply_loop_rest [OF assms, of ki] by (auto simp: batch_rel_def)

text \<open>A member that has accepted one entry of slot 1 and hears that slots 1 and 2 are committed.\<close>

definition demo_heartbeat :: "u64 \<Rightarrow> node_id \<Rightarrow> slot_index \<Rightarrow> heartbeat_request" where
  "demo_heartbeat t l s = \<lparr> hq_term = t, hq_leader_id = l, hq_committed_safe_slot = s \<rparr>"

definition lagging_member :: "mem_kv px_local_replica" where
  "lagging_member =
     snd (handle_heartbeat 0 (demo_heartbeat 1 2 2)
       (snd (on_accept True 0 (put_entry 1 (PxBallot 0 2) 1 5) (member_start 1 7 []))))"

lemma lagging_learner: "re_learner lagging_member = learner_new []"
  by code_simp

lemma lagging_acceptor: "re_acceptor lagging_member = snd (accept (put_entry 1 (PxBallot 0 2) 1 5) acceptor_new)"
  by code_simp

lemma lagging_known: "re_known_commit_slot lagging_member = 2"
  by code_simp

lemma lagging_missing: "accepted_at (re_acceptor lagging_member) 1 \<noteq> None" "accepted_at (re_acceptor lagging_member) 2 = None"
  by code_simp+

lemma apply_loop_terminates_witness:
  "\<exists>r'. apply_loop_task mem_iface lagging_member = Some r' \<and> applied_inv (re_learner r')"
  using apply_loop_terminates [of lagging_member mem_iface] by (auto simp: lagging_learner)

text \<open>C12 When the engine takes every write, the loop catches up with the committed range (short of
  the last slot number, which a batch never includes) or waits at a slot for which the
  acceptor has no value, and then that slot is recorded as a gap to fetch.\<close>

theorem apply_loop_catches_up:
  assumes "applied_inv (re_learner r)" and "acceptor_inv (re_acceptor r)" and "engine_ok ki"
  shows "\<exists>r'. apply_loop_task ki r = Some r' \<and>
    (min (re_known_commit_slot r) (u64_max - 1) \<le> lr_contiguous_applied (re_learner r') \<or>
     accepted_at (re_acceptor r) (lr_contiguous_applied (re_learner r') + 1) = None \<and>
     om_get (re_gap_slots r') (lr_contiguous_applied (re_learner r') + 1) \<noteq> None)"
proof -
  obtain r0 r' where run: "apply_loop_task ki r = Some r'" "batch_rel r r0" "batch_rel r r'"
    and rest: "apply_target r' \<le> applied_to r' \<or>
      applied_to r0 < apply_target r0 \<and> r' = batch_of ki r0 \<and> applied_to r' = applied_to r0"
    using apply_loop_rest [OF assms(1), of ki] by blast
  show ?thesis
  proof (cases "min (re_known_commit_slot r) (u64_max - 1) \<le> applied_to r'")
    case False
    then have less: "applied_to r' < re_known_commit_slot r" "applied_to r' < u64_max - 1"
      by (simp_all add: min_le_iff_disj not_le)
    then have r': "r' = batch_of ki r0" "applied_to r' = applied_to r0"
      using rest run(3) by (auto simp: batch_rel_def apply_target_def)
    have "applied_to r0 + 1 \<le> re_known_commit_slot r0" "applied_to r0 < u64_max - 1"
      using less r'(2) run(2) word_succ_le [OF less(1)] by (simp_all add: batch_rel_def)
    note stalled_at_gap [OF _ _ assms(3) _ this]
    then have "accepted_at (re_acceptor r) (applied_to r' + 1) = None"
      "applied_to r' + 1 \<in> fst ` set (re_gap_slots r')"
      using r' run(2) assms(2) by (simp_all add: batch_rel_def)
    then show ?thesis using run(1) by (auto simp: map_of_eq_None_iff)
  qed (use run(1) in blast)
qed

lemma apply_loop_catches_up_witness:
  "\<exists>r'. apply_loop_task mem_iface lagging_member = Some r' \<and>
    (2 \<le> lr_contiguous_applied (re_learner r') \<or>
     accepted_at (re_acceptor lagging_member) (lr_contiguous_applied (re_learner r') + 1) = None \<and>
     om_get (re_gap_slots r') (lr_contiguous_applied (re_learner r') + 1) \<noteq> None)"
proof -
  have "engine_ok mem_iface" by (simp add: engine_ok_def mem_iface_def)
  from apply_loop_catches_up [OF _ _ this, of lagging_member] show ?thesis
    by (auto simp: lagging_learner lagging_acceptor lagging_known)
qed

text \<open>C16 The loop applies a value that was not chosen. Member 3 alone accepts the value 5 in slot 1
  from a leader of term 1. In term 2 members 1 and 2, a quorum, accept the value 6 there, and their
  leader 2 learns it. Its heartbeat tells member 3 that slot 1 is committed; member 3 takes the
  entry its own acceptor holds for the chosen one and applies the value 5, while the leader has
  applied the value 6.\<close>

theorem follower_applies_unchosen:
  "let lost = put_entry 1 (PxBallot 0 3) 1 5; chosen = put_entry 1 (PxBallot 0 2) 2 6;
       m1 = on_accept True 0 chosen (member_start 1 7 ([] :: mem_kv));
       m2 = on_accept True 0 chosen (member_start 2 7 []);
       m3 = on_accept True 0 lost (member_start 3 7 []);
       leader = learn_chosen mem_iface chosen [] (snd m2);
       heartbeat = demo_heartbeat 2 2 (lr_contiguous_chosen (re_learner leader));
       follower = snd (handle_heartbeat 0 heartbeat (snd m3))
   in fst m1 = AccAccepted 1 (PxBallot 0 2) \<and> fst m2 = AccAccepted 1 (PxBallot 0 2) \<and>
     (\<exists>r. apply_loop_task mem_iface follower = Some r \<and>
        mem_get (lr_engine (re_learner r)) [7] = Some (1, [5])) \<and>
     mem_get (lr_engine (re_learner leader)) [7] = Some (1, [6])"
proof -
  let ?lost = "put_entry 1 (PxBallot 0 3) 1 5" and ?chosen = "put_entry 1 (PxBallot 0 2) 2 6"
  let ?m2 = "on_accept True 0 ?chosen (member_start 2 7 ([] :: mem_kv))"
  let ?m3 = "on_accept True 0 ?lost (member_start 3 7 ([] :: mem_kv))"
  let ?leader = "learn_chosen mem_iface ?chosen [] (snd ?m2)"
  let ?heartbeat = "demo_heartbeat 2 2 (lr_contiguous_chosen (re_learner ?leader))"
  let ?follower = "snd (handle_heartbeat 0 ?heartbeat (snd ?m3))"
  have replies: "fst (on_accept True 0 ?chosen (member_start 1 7 ([] :: mem_kv))) = AccAccepted 1 (PxBallot 0 2)"
    "fst ?m2 = AccAccepted 1 (PxBallot 0 2)" by code_simp+
  have lead: "mem_get (lr_engine (re_learner ?leader)) [7] = Some (1, [6])" by code_simp
  have start: "apply_target ?follower = 1" "applied_to ?follower = 0" by code_simp+
  have batch: "apply_target (batch_of mem_iface ?follower) = 1" "applied_to (batch_of mem_iface ?follower) = 1"
    "mem_get (lr_engine (re_learner (batch_of mem_iface ?follower))) [7] = Some (1, [5])" by code_simp+
  have "apply_loop_task mem_iface ?follower = Some (batch_of mem_iface ?follower)"
    by (simp add: apply_loop_unfold [of mem_iface ?follower] apply_loop_unfold [of _ "batch_of _ _"] start batch)
  then show ?thesis unfolding Let_def using replies lead batch(3) by blast
qed

section \<open>Where gaps go\<close>

text \<open>What happens to the gaps of a member: a slot is recorded, a round of the driver drains some
  slots into requests, a request ends. The pending requests are a list.\<close>

datatype gap_event =
    GeRecord slot_index
  | GeRound "node_id \<Rightarrow> bool"
  | GeDone bool slot_index fetchgap_outcome

fun gap_step ::
    "gap_event \<Rightarrow> slot_index list \<times> 'e px_local_replica \<Rightarrow> slot_index list \<times> 'e px_local_replica" where
  "gap_step (GeRecord s) (pending, r) = (pending, record_gap s r)"
| "gap_step (GeRound has_remote) (pending, r) =
     (let (ss, r') = fetchgap_round has_remote r in (pending @ ss, r'))"
| "gap_step (GeDone ok s out) (pending, r) =
     (if s \<in> set pending then (remove1 s pending, fetchgap_done ok s out r) else (pending, r))"

text \<open>An answer is about the slot that was asked for.\<close>

fun answers_request :: "gap_event \<Rightarrow> bool" where
  "answers_request (GeDone ok s (FgReply e)) \<longleftrightarrow> e_slot e = s"
| "answers_request _ \<longleftrightarrow> True"

text \<open>The slots that are still to be fetched: recorded as a gap, or asked for.\<close>

definition gap_open :: "slot_index list \<times> 'e px_local_replica \<Rightarrow> slot_index set" where
  "gap_open st = set (fst st) \<union> fst ` set (re_gap_slots (snd st))"

text \<open>The answer \<open>e\<close> fills the slot: it is in the log, when the member has one, the acceptor holds its
  value in no lower ballot, and the learner knows the slot as chosen.\<close>

definition gap_filled :: "slot_index \<Rightarrow> px_log_entry \<Rightarrow> 'e px_local_replica \<Rightarrow> bool" where
  "gap_filled s e r \<longleftrightarrow>
     (re_wal r = None \<or> (\<exists>g. from_accepted g e \<in> set (log_of r))) \<and>
     (\<exists>v. accepted_at (re_acceptor r) s = Some v \<and> e_payload v = e_payload e \<and> e_ballot e \<le> e_ballot v) \<and>
     is_chosen s (re_learner r)"

text \<open>The two ways in which a request takes its slot out of the open ones: its answer fills the slot,
  or it found no transport.\<close>

definition gap_closed ::
    "bool \<Rightarrow> slot_index \<Rightarrow> fetchgap_outcome \<Rightarrow> slot_index list \<times> 'e px_local_replica \<Rightarrow> bool" where
  "gap_closed ok s out st \<longleftrightarrow> s \<in> set (fst st) \<and>
     (out = FgNoTransport \<or> (\<exists>e. out = FgReply e \<and> gap_filled s e (fetchgap_done ok s out (snd st))))"

definition gap_inv :: "slot_index list \<times> 'e px_local_replica \<Rightarrow> bool" where
  "gap_inv st \<longleftrightarrow> length (fst st) \<le> 16 \<and> unat (re_fetchgap_inflight (snd st)) = length (fst st) \<and>
     chosen_inv (re_learner (snd st))"

lemma drain_first_eq: "drain_first n gaps = (map fst (take n gaps), drop n gaps)"
  by (induction n gaps rule: drain_first.induct) (simp_all add: take_Cons' drop_Cons' split: prod.split)

lemma wal_append_sel [simp]:
  "re_gap_slots (wal_append ok mk r) = re_gap_slots r" "re_acceptor (wal_append ok mk r) = re_acceptor r"
  "re_fetchgap_inflight (wal_append ok mk r) = re_fetchgap_inflight r"
  "re_learner (wal_append ok mk r) = re_learner r"
  by (simp_all add: wal_append_def split: option.split)

lemma drain_gaps_result:
  assumes "unat (re_fetchgap_inflight r) = k" and "k \<le> 16"
  shows "drain_gaps_for_fetchgap r =
    (map fst (take (16 - k) (re_gap_slots r)),
     r\<lparr>re_gap_slots := drop (16 - k) (re_gap_slots r),
       re_fetchgap_inflight := of_nat (k + length (take (16 - k) (re_gap_slots r)))\<rparr>)"
proof -
  have inflight: "re_fetchgap_inflight r = of_nat k" by (simp flip: assms(1))
  have "unat (sat_sub max_inflight_fetchgap (re_fetchgap_inflight r)) = 16 - k"
    using assms by (simp add: sat_sub_def max_inflight_fetchgap_def word_less_nat_alt unat_sub_if_size word_size)
  then show ?thesis
    by (cases "k = 16") (auto simp: drain_gaps_for_fetchgap_def drain_first_eq Let_def inflight unat_eq_zero [symmetric]
        simp del: unat_eq_zero)
qed

lemma learner_step_chosen:
  assumes "chosen_inv l" and "s \<in> chosen_by ev l"
  shows "is_chosen s (learner_step ki ev l)"
  using chosen.step_known [OF assms(1), of ki ev] assms(2)
  by (cases "s = 0") (auto simp: is_chosen_def keys_get simp del: learner_step.simps)

lemma learner_chosen:
  assumes "chosen_inv l"
  shows "chosen_inv (update_chosen_frontier s t l)" "is_chosen s (update_chosen_frontier s t l)"
  using chosen.step_inv [OF assms, of undefined "EvChosen s t"] learner_step_chosen [OF assms, of s "EvChosen s t" undefined]
  by simp_all

lemma install_chosen_fills:
  assumes "fst (install_chosen e a)"
  shows "\<exists>v. accepted_at (snd (install_chosen e a)) (e_slot e) = Some v \<and> e_payload v = e_payload e \<and> e_ballot e \<le> e_ballot v"
  using assms by (auto simp: install_chosen_result install_chosen_accepted_at)

lemma fetchgap_done_frame:
  "re_fetchgap_inflight (fetchgap_done ok s out r) = re_fetchgap_inflight r - 1"
  "fst ` set (re_gap_slots r) \<subseteq> fst ` set (re_gap_slots (fetchgap_done ok s out r))"
  by (auto simp: fetchgap_done_def Let_def case_prod_beta split: fetchgap_outcome.split)

lemma fetchgap_done_chosen_inv:
  "chosen_inv (re_learner r) \<Longrightarrow> chosen_inv (re_learner (fetchgap_done ok s out r))"
  by (auto simp: fetchgap_done_def Let_def case_prod_beta on_learner_def learner_chosen split: fetchgap_outcome.split)

lemma fetchgap_done_reply:
  assumes "r1 = wal_append ok (\<lambda>g. from_accepted g e) (r\<lparr>re_fetchgap_inflight := re_fetchgap_inflight r - 1\<rparr>)"
    and "r2 = r1\<lparr>re_acceptor := snd (install_chosen e (re_acceptor r))\<rparr>"
  shows "fetchgap_done ok s (FgReply e) r =
    (if re_wal r \<noteq> None \<and> \<not> ok then record_gap s r1
     else if fst (install_chosen e (re_acceptor r)) then on_learner (update_chosen_frontier (e_slot e) (e_term e)) r2
     else record_gap s r2)"
  unfolding assms by (simp add: fetchgap_done_def Let_def case_prod_beta)

lemma fetchgap_done_closes:
  assumes "answers_request (GeDone ok s out)" and "chosen_inv (re_learner r)" and "s \<in> set pending"
    and "s \<notin> fst ` set (re_gap_slots (fetchgap_done ok s out r))"
  shows "gap_closed ok s out (pending, r)"
proof (cases out)
  case (FgReply e)
  let ?r = "r\<lparr>re_fetchgap_inflight := re_fetchgap_inflight r - 1\<rparr>"
  let ?r1 = "wal_append ok (\<lambda>g. from_accepted g e) ?r" and ?i = "install_chosen e (re_acceptor r)"
  have slot: "e_slot e = s" using assms(1) FgReply by simp
  note reply = fetchgap_done_reply [OF refl refl, of ok s e r, folded FgReply]
  have log: "re_wal r = None \<or> ok"
    by (rule ccontr) (use assms(4) reply in simp)
  moreover have inst: "fst ?i"
    by (rule ccontr) (use assms(4) reply log in auto)
  ultimately have r': "fetchgap_done ok s out r =
      on_learner (update_chosen_frontier s (e_term e)) (?r1\<lparr>re_acceptor := snd ?i\<rparr>)"
    using reply by (auto simp: slot)
  have "re_wal (fetchgap_done ok s out r) = None \<or>
      (\<exists>g. from_accepted g e \<in> set (log_of (fetchgap_done ok s out r)))"
    unfolding r' using log by (auto simp: wal_append_def log_of_def on_learner_def split: option.split)
  moreover have "accepted_at (re_acceptor (fetchgap_done ok s out r)) = accepted_at (snd ?i)"
    unfolding r' by (simp add: on_learner_def)
  moreover have "is_chosen s (re_learner (fetchgap_done ok s out r))"
    unfolding r' using learner_chosen(2) [OF assms(2)] by (simp add: on_learner_def)
  ultimately have "gap_filled s e (fetchgap_done ok s out r)"
    using install_chosen_fills [OF inst] by (simp add: gap_filled_def slot)
  then show ?thesis using assms(3) FgReply by (simp add: gap_closed_def)
qed (use assms in \<open>auto simp: gap_closed_def fetchgap_done_def Let_def\<close>)

lemma gap_step_record:
  "gap_inv st \<Longrightarrow> gap_inv (gap_step (GeRecord s) st)" "gap_open (gap_step (GeRecord s) st) = insert s (gap_open st)"
  by (cases st; auto simp: gap_inv_def gap_open_def)+

lemma gap_step_round:
  assumes "gap_inv (pending, r)"
  shows "gap_inv (gap_step (GeRound has_remote) (pending, r))"
    "gap_open (gap_step (GeRound has_remote) (pending, r)) = gap_open (pending, r)"
proof -
  let ?k = "length pending"
  have k: "unat (re_fetchgap_inflight r) = ?k" "?k \<le> 16" using assms by (simp_all add: gap_inv_def)
  have split: "fst ` set gaps = set (map fst (take n gaps)) \<union> fst ` set (drop n gaps)"
    for n and gaps :: "(slot_index, unit) omap"
    by (metis append_take_drop_id image_Un set_append set_map)
  have "unat (of_nat (?k + length (take (16 - ?k) (re_gap_slots r))) :: u64) =
      ?k + length (take (16 - ?k) (re_gap_slots r))"
    using k(2) unfolding unsigned_of_nat of_nat_id by (intro take_bit_nat_eq_self) simp
  then show "gap_inv (gap_step (GeRound has_remote) (pending, r))"
    using k assms by (auto simp: gap_inv_def fetchgap_round_def drain_gaps_result [OF k] Let_def)
  show "gap_open (gap_step (GeRound has_remote) (pending, r)) = gap_open (pending, r)"
    using split [of "re_gap_slots r" "16 - ?k"]
    by (auto simp: gap_open_def fetchgap_round_def drain_gaps_result [OF k] Let_def)
qed

lemma gap_step_done:
  assumes "gap_inv (pending, r)" and "answers_request (GeDone ok s out)" and "s \<in> set pending"
  shows "gap_inv (gap_step (GeDone ok s out) (pending, r))"
    "x \<in> gap_open (pending, r) \<Longrightarrow> x \<notin> gap_open (gap_step (GeDone ok s out) (pending, r)) \<Longrightarrow>
     x = s \<and> gap_closed ok s out (pending, r)"
proof -
  have "Suc 0 \<le> length pending" using assms(3) by (cases pending) simp_all
  then have "unat (re_fetchgap_inflight r - 1) = length pending - 1"
    using assms(1) by (simp add: gap_inv_def unat_sub_if_size word_size)
  then show "gap_inv (gap_step (GeDone ok s out) (pending, r))"
    using assms(1,3) by (auto simp: gap_inv_def fetchgap_done_frame fetchgap_done_chosen_inv length_remove1)
  assume x: "x \<in> gap_open (pending, r)" "x \<notin> gap_open (gap_step (GeDone ok s out) (pending, r))"
  have "x = s"
    by (rule ccontr) (use x assms(3) fetchgap_done_frame(2) [of r ok s out] in \<open>auto simp: gap_open_def\<close>)
  moreover from this x(2) assms(3) have "s \<notin> fst ` set (re_gap_slots (fetchgap_done ok s out r))"
    by (simp add: gap_open_def)
  ultimately show "x = s \<and> gap_closed ok s out (pending, r)"
    using fetchgap_done_closes [OF assms(2) _ assms(3), of r] assms(1) by (simp add: gap_inv_def)
qed

lemma gap_step_accounts:
  assumes "gap_inv st" and "answers_request ev"
  shows "gap_inv (gap_step ev st) \<and>
    (\<forall>s \<in> gap_open st. s \<in> gap_open (gap_step ev st) \<or> (\<exists>ok out. ev = GeDone ok s out \<and> gap_closed ok s out st))"
proof (cases ev)
  case (GeRecord s)
  then show ?thesis using gap_step_record(1) [OF assms(1)] gap_step_record(2) by blast
next
  case (GeRound has_remote)
  then show ?thesis using gap_step_round [of "fst st" "snd st"] assms(1) by simp
next
  case (GeDone ok s out)
  obtain pending r where st: "st = (pending, r)" by (cases st)
  show ?thesis
  proof (cases "s \<in> set pending")
    case True
    then show ?thesis using gap_step_done [of pending r ok s out] assms GeDone unfolding st by blast
  qed (use assms(1) GeDone st in simp)
qed

lemma gap_run_accounts:
  "gap_inv st \<Longrightarrow> list_all answers_request evs \<Longrightarrow>
   gap_inv (fold gap_step evs st) \<and>
   (\<forall>s \<in> gap_open st. s \<in> gap_open (fold gap_step evs st) \<or>
      (\<exists>mid ok out rest. evs = mid @ GeDone ok s out # rest \<and> gap_closed ok s out (fold gap_step mid st)))"
proof (induction evs arbitrary: st)
  case (Cons ev evs)
  then have ev: "answers_request ev" and inv: "gap_inv (gap_step ev st)"
    using gap_step_accounts [of st ev] by simp_all
  note IH = Cons.IH [OF inv]
  have "s \<in> gap_open (fold gap_step (ev # evs) st) \<or>
      (\<exists>mid ok out rest. ev # evs = mid @ GeDone ok s out # rest \<and> gap_closed ok s out (fold gap_step mid st))"
    if s: "s \<in> gap_open st" for s
  proof (cases "s \<in> gap_open (gap_step ev st)")
    case True
    with IH Cons.prems(2) consider "s \<in> gap_open (fold gap_step evs (gap_step ev st))"
      | mid ok out rest where "evs = mid @ GeDone ok s out # rest" "gap_closed ok s out (fold gap_step mid (gap_step ev st))"
      by auto
    then show ?thesis
    proof cases
      case (2 mid ok out rest)
      then show ?thesis by (intro disjI2 exI [of _ "ev # mid"] exI [of _ ok] exI [of _ out] exI [of _ rest]) simp
    qed simp
  next
    case False
    then obtain ok out where "ev = GeDone ok s out" "gap_closed ok s out st"
      using gap_step_accounts [OF Cons.prems(1) ev] s by blast
    then show ?thesis by (intro disjI2 exI [of _ "[]"] exI [of _ ok] exI [of _ out] exI [of _ evs]) simp
  qed
  then show ?case using IH Cons.prems(2) by simp
qed simp

text \<open>A request without a transport does drop its slot.\<close>

lemma no_transport_drops_gap:
  assumes "distinct pending" and "s \<in> set pending" and "om_get (re_gap_slots r) s = None"
  shows "s \<notin> gap_open (gap_step (GeDone ok s FgNoTransport) (pending, r))"
  using assms by (simp add: gap_open_def fetchgap_done_def Let_def map_of_eq_None_iff)

text \<open>C13 The fetching of gaps is bounded, and what becomes of every gap is accounted for. In every run
  of recording, driver rounds and ends of requests, in which an answer is about the slot that was
  asked for, at most 16 requests are pending and the in-flight counter says how many. Take any
  point of the run: a slot that is then recorded as a gap, or asked for, still is at the end of
  the run, unless a request for it has ended in between in one of two ways. Either its answer
  filled the slot: the value is in the log, if there is one, and in the acceptor, and the learner
  knows the slot as chosen. Or the request found no transport; that exit alone forgets the slot.
  A slot for which the acceptor holds a stale value stays open like any other.\<close>

theorem fetchgap_accounts_for_gaps:
  assumes "list_all answers_request (before @ after)" and "re_fetchgap_inflight r = 0" and "chosen_inv (re_learner r)"
    and "st1 = fold gap_step before ([], r)" and "st2 = fold gap_step after st1"
  shows "length (fst st2) \<le> 16 \<and> unat (re_fetchgap_inflight (snd st2)) = length (fst st2) \<and>
    (\<forall>s \<in> gap_open st1. s \<in> gap_open st2 \<or>
       (\<exists>mid ok out rest. after = mid @ GeDone ok s out # rest \<and> gap_closed ok s out (fold gap_step mid st1))) \<and>
    gap_open (gap_step (GeRecord slot) st2) = insert slot (gap_open st2)"
proof -
  have "gap_inv ([], r)" using assms(2,3) by (simp add: gap_inv_def)
  then have "gap_inv st1" using gap_run_accounts [of "([], r)" before] assms(1,4) by simp
  from gap_run_accounts [OF this, of after] assms(1,5) show ?thesis
    unfolding gap_step_record(2) by (simp add: gap_inv_def)
qed

text \<open>A member that holds a stale value in slot 2 and has gaps 1 and 2; the fetch of slot 1 succeeds, the
  one of slot 2 fails.\<close>

definition gap_member :: "mem_kv px_local_replica" where
  "gap_member =
     snd (on_accept True 0 (put_entry 2 (PxBallot 0 1) 1 4)
       (snd (handle_heartbeat 0 (demo_heartbeat 1 2 0) (member_start 1 7 ([] :: mem_kv)))))"

lemma fetchgap_accounts_for_gaps_witness:
  "let st1 = fold gap_step [GeRecord 1, GeRecord 2] ([], gap_member);
       after = [GeRound (\<lambda>i. i = 2), GeDone True 1 (FgReply (put_entry 1 (PxBallot 0 2) 1 5)), GeDone True 2 FgFailed];
       st2 = fold gap_step after st1
   in accepted_at (re_acceptor (snd st1)) 2 \<noteq> None \<and> gap_open st1 = {1, 2} \<and> gap_open st2 = {2} \<and>
     (\<exists>mid ok out rest. after = mid @ GeDone ok 1 out # rest \<and> gap_closed ok 1 out (fold gap_step mid st1))"
proof -
  let ?before = "[GeRecord 1, GeRecord 2]"
  let ?after = "[GeRound (\<lambda>i. i = 2), GeDone True 1 (FgReply (put_entry 1 (PxBallot 0 2) 1 5)), GeDone True 2 FgFailed]"
  let ?st1 = "fold gap_step ?before ([], gap_member)"
  have pre: "list_all answers_request (?before @ ?after)" "re_fetchgap_inflight gap_member = 0" by code_simp+
  have "re_learner gap_member = learner_new []" by code_simp
  then have inv: "chosen_inv (re_learner gap_member)" by simp
  have "accepted_at (re_acceptor (snd ?st1)) 2 \<noteq> None" by code_simp
  moreover have st1: "gap_open ?st1 = {1, 2}" by code_simp
  moreover have st2: "gap_open (fold gap_step ?after ?st1) = {2}" by code_simp
  moreover have "1 \<in> gap_open ?st1 \<and> 1 \<notin> gap_open (fold gap_step ?after ?st1)" unfolding st1 st2 by simp
  with fetchgap_accounts_for_gaps [OF pre inv refl refl]
  have "\<exists>mid ok out rest. ?after = mid @ GeDone ok 1 out # rest \<and> gap_closed ok 1 out (fold gap_step mid ?st1)" by blast
  ultimately show ?thesis unfolding Let_def by blast
qed

end
