(* ===== verification/Proposer.thy ===== *)
theory Proposer
  imports Election Replica_Apply
begin

text \<open>
  The proposer of a group (\<open>cluster/group_inflight.rs\<close>, \<open>group_prepare.rs\<close>, \<open>group_accept.rs\<close>,
  \<open>group_propose.rs\<close>, \<open>group_election/recovery.rs\<close>, and \<open>repair_once\<close> of \<open>group.rs\<close>): folding the
  replies of a phase, the two phases, the proposal loop over attempts and slots, and the repair
  of a slot by a leader.

  The local handler runs when a phase starts. A phase has its replies as a list in the order in
  which they arrive: \<open>TLocal\<close> stands for the reply of the local handler, \<open>TRemote\<close> for one of a
  peer with its voting flag, \<open>None\<close> for a failed call. The replies after the point where the
  phase stops waiting are drained separately. A panic is \<open>None\<close>. Metrics, logging, watches and
  the sleeps between attempts are left out.
\<close>

section \<open>Admission\<close>

record inflight_admission =
  ia_available :: nat
  ia_window :: nat
  ia_reject_on_window_full :: bool
  ia_total_enqueued :: u64
  ia_waiting :: u64

definition inflight_new :: "nat \<Rightarrow> bool \<Rightarrow> inflight_admission" where
  "inflight_new max_inflight reject =
     \<lparr> ia_available = max_inflight, ia_window = max_inflight, ia_reject_on_window_full = reject,
       ia_total_enqueued = 0, ia_waiting = 0 \<rparr>"

definition inflight_occupied :: "inflight_admission \<Rightarrow> u64" where
  "inflight_occupied ia =
     (let n = ia_window ia - ia_available ia in if n < 2 ^ 64 then of_nat n else 0)"

datatype permit = PermitGranted | PermitRejected | PermitQueued

definition acquire_permit :: "inflight_admission \<Rightarrow> permit \<times> inflight_admission" where
  "acquire_permit ia =
     (if 0 < ia_available ia then (PermitGranted, ia\<lparr>ia_available := ia_available ia - 1\<rparr>)
      else if ia_reject_on_window_full ia then (PermitRejected, ia)
      else (PermitQueued, ia\<lparr>ia_total_enqueued := ia_total_enqueued ia + 1, ia_waiting := ia_waiting ia + 1\<rparr>))"

section \<open>Folding replies\<close>

record reply_fold =
  rf_accepted :: nat
  rf_highest_rejected_round :: "u64 option"
  rf_highest_seen_term :: "u64 option"
  rf_epoch_mismatch :: "u64 option"
  rf_adopted :: "px_log_entry option"
  rf_local_folded :: bool

definition fold_new :: reply_fold where
  "fold_new = \<lparr> rf_accepted = 0, rf_highest_rejected_round = None, rf_highest_seen_term = None,
     rf_epoch_mismatch = None, rf_adopted = None, rf_local_folded = False \<rparr>"

definition opt_max :: "u64 option \<Rightarrow> u64 \<Rightarrow> u64 option" where
  "opt_max m c = Some (case m of None \<Rightarrow> c | Some r \<Rightarrow> max r c)"

definition note_rejected :: "px_ballot \<Rightarrow> reply_fold \<Rightarrow> reply_fold" where
  "note_rejected p f = f\<lparr>rf_highest_rejected_round := opt_max (rf_highest_rejected_round f) (bal_round p)\<rparr>"

definition note_term_stale :: "u64 \<Rightarrow> reply_fold \<Rightarrow> reply_fold" where
  "note_term_stale t f = f\<lparr>rf_highest_seen_term := opt_max (rf_highest_seen_term f) t\<rparr>"

definition consider_accepted :: "px_log_entry option \<Rightarrow> px_log_entry \<Rightarrow> px_log_entry option" where
  "consider_accepted adopted candidate =
     (case adopted of
        None \<Rightarrow> Some candidate
      | Some current \<Rightarrow> if e_ballot current < e_ballot candidate then Some candidate else Some current)"

definition count_voting :: "bool \<Rightarrow> reply_fold \<Rightarrow> reply_fold" where
  "count_voting voting f = (if voting then f\<lparr>rf_accepted := rf_accepted f + 1\<rparr> else f)"

definition fold_promised :: "bool \<Rightarrow> px_log_entry option \<Rightarrow> reply_fold \<Rightarrow> reply_fold" where
  "fold_promised voting accepted f =
     (let f1 = count_voting voting f in
      case accepted of
        None \<Rightarrow> f1
      | Some prev \<Rightarrow> f1\<lparr>rf_adopted := consider_accepted (rf_adopted f1) prev\<rparr>)"

fun fold_prepare_remote :: "bool \<Rightarrow> px_prepare_reply \<Rightarrow> reply_fold \<Rightarrow> reply_fold" where
  "fold_prepare_remote voting (PrepPromised _ accepted) f = fold_promised voting accepted f"
| "fold_prepare_remote voting (PrepRejected _ p) f = note_rejected p f"
| "fold_prepare_remote voting (PrepTermStale _ t) f = note_term_stale t f"
| "fold_prepare_remote voting (PrepEpochMismatch ep) f = f\<lparr>rf_epoch_mismatch := Some ep\<rparr>"

fun fold_prepare_local :: "bool \<Rightarrow> px_prepare_reply \<Rightarrow> reply_fold \<Rightarrow> reply_fold option" where
  "fold_prepare_local voting (PrepPromised _ accepted) f =
     Some ((fold_promised voting accepted f)\<lparr>rf_local_folded := True\<rparr>)"
| "fold_prepare_local voting (PrepRejected _ p) f = Some ((note_rejected p f)\<lparr>rf_local_folded := True\<rparr>)"
| "fold_prepare_local voting (PrepTermStale _ t) f = Some ((note_term_stale t f)\<lparr>rf_local_folded := True\<rparr>)"
| "fold_prepare_local voting (PrepEpochMismatch _) f = None"

fun fold_accept_remote :: "bool \<Rightarrow> px_accept_reply \<Rightarrow> reply_fold \<Rightarrow> reply_fold" where
  "fold_accept_remote voting (AccAccepted _ _) f = count_voting voting f"
| "fold_accept_remote voting (AccRejected _ p) f = note_rejected p f"
| "fold_accept_remote voting (AccTermStale _ t) f = note_term_stale t f"
| "fold_accept_remote voting (AccEpochMismatch ep) f = f\<lparr>rf_epoch_mismatch := Some ep\<rparr>"

fun fold_accept_local :: "bool \<Rightarrow> px_accept_reply \<Rightarrow> reply_fold \<Rightarrow> reply_fold option" where
  "fold_accept_local voting (AccAccepted _ _) f = Some ((count_voting voting f)\<lparr>rf_local_folded := True\<rparr>)"
| "fold_accept_local voting (AccRejected _ p) f = Some ((note_rejected p f)\<lparr>rf_local_folded := True\<rparr>)"
| "fold_accept_local voting (AccTermStale _ t) f = Some ((note_term_stale t f)\<lparr>rf_local_folded := True\<rparr>)"
| "fold_accept_local voting (AccEpochMismatch _) f = None"

section \<open>The group\<close>

record 'e px_group =
  pg_replica :: "'e px_local_replica"
  pg_next_slot :: slot_index
  pg_proposing_term :: u64
  pg_membership_epoch :: u64
  pg_cached_quorum :: nat
  pg_force_classic :: bool
  pg_wal_early_ack :: bool
  pg_async_engine_apply :: bool
  pg_leader_read_ready :: bool
  pg_inflight :: inflight_admission

definition on_replica :: "('e px_local_replica \<Rightarrow> 'e px_local_replica) \<Rightarrow> 'e px_group \<Rightarrow> 'e px_group" where
  "on_replica f g = g\<lparr>pg_replica := f (pg_replica g)\<rparr>"

definition base_entry :: "slot_index \<Rightarrow> bytes \<Rightarrow> 'e px_group \<Rightarrow> px_log_entry" where
  "base_entry slot payload g =
     \<lparr> e_slot = slot, e_ballot = PxBallot 0 (re_id (pg_replica g)),
       e_term = re_term_atomic (pg_replica g), e_payload = payload \<rparr>"

definition adopt_membership_epoch :: "u64 \<Rightarrow> 'e px_group \<Rightarrow> 'e px_group" where
  "adopt_membership_epoch epoch g = g\<lparr>pg_membership_epoch := max (pg_membership_epoch g) epoch\<rparr>"

definition take_slot :: "'e px_group \<Rightarrow> slot_index \<times> 'e px_group" where
  "take_slot g = (pg_next_slot g, g\<lparr>pg_next_slot := pg_next_slot g + 1\<rparr>)"

section \<open>Prepare phase\<close>

datatype 'r tagged = TLocal | TRemote bool "'r option"

datatype prepare_attempt =
    PaProceed px_log_entry bool
  | PaRetry u64 px_paxos_error
  | PaFail px_paxos_error

fun fold_prepare_tagged ::
    "bool \<Rightarrow> px_prepare_reply \<Rightarrow> px_prepare_reply tagged \<Rightarrow> reply_fold \<Rightarrow> reply_fold option" where
  "fold_prepare_tagged local_voting local_reply TLocal f = fold_prepare_local local_voting local_reply f"
| "fold_prepare_tagged local_voting local_reply (TRemote voting None) f = Some f"
| "fold_prepare_tagged local_voting local_reply (TRemote voting (Some reply)) f =
     Some (fold_prepare_remote voting reply f)"

fun prepare_loop ::
    "nat \<Rightarrow> bool \<Rightarrow> px_prepare_reply \<Rightarrow> px_prepare_reply tagged list \<Rightarrow> reply_fold \<Rightarrow> reply_fold option" where
  "prepare_loop quorum local_voting local_reply [] f = Some f"
| "prepare_loop quorum local_voting local_reply (t # ts) f =
     (case fold_prepare_tagged local_voting local_reply t f of
        None \<Rightarrow> None
      | Some f' \<Rightarrow>
          if quorum \<le> rf_accepted f' \<and> rf_local_folded f' \<and> rf_highest_seen_term f' = None then Some f'
          else prepare_loop quorum local_voting local_reply ts f')"

definition finish_prepare :: "nat \<Rightarrow> bytes \<Rightarrow> px_log_entry \<Rightarrow> reply_fold \<Rightarrow> prepare_attempt" where
  "finish_prepare quorum payload entry f =
     (case rf_highest_seen_term f of
        Some new_term \<Rightarrow> PaFail (TermStale new_term)
      | None \<Rightarrow>
          if rf_accepted f < quorum
          then case rf_highest_rejected_round f of
              Some round \<Rightarrow>
                let error = PrepareRejected (PxBallot round 0)
                in PaRetry (case retry_action error of RetrySameSlot (Some r) _ \<Rightarrow> r | _ \<Rightarrow> round) error
            | None \<Rightarrow>
                (case rf_epoch_mismatch f of
                   Some ep \<Rightarrow> PaFail (MembershipEpochMismatch ep)
                 | None \<Rightarrow> PaFail (QuorumUnavailable PhasePrepare))
          else case rf_adopted f of
              Some prev \<Rightarrow> PaProceed (entry\<lparr>e_payload := e_payload prev\<rparr>) (e_payload prev \<noteq> payload)
            | None \<Rightarrow> PaProceed entry False)"

definition prepare_ballot :: "slot_index \<Rightarrow> u64 \<Rightarrow> 'e px_local_replica \<Rightarrow> px_ballot" where
  "prepare_ballot slot min_round r =
     PxBallot ((case promised_at (re_acceptor r) slot of None \<Rightarrow> min_round | Some b \<Rightarrow> max min_round (bal_round b)) + 1)
       (re_id r)"

definition run_prepare_phase ::
    "bool \<Rightarrow> instant \<Rightarrow> slot_index \<Rightarrow> bytes \<Rightarrow> nat \<Rightarrow> u64 \<Rightarrow> px_prepare_reply tagged list \<Rightarrow> 'e px_group \<Rightarrow>
     prepare_attempt option \<times> 'e px_group" where
  "run_prepare_phase ok now slot payload quorum min_round replies g =
     (let r = pg_replica g;
          ballot = prepare_ballot slot min_round r;
          entry = (base_entry slot payload g)\<lparr>e_ballot := ballot\<rparr>;
          (local_reply, r') = on_prepare ok now slot ballot (e_term entry) r
      in (map_option (finish_prepare quorum payload entry)
            (prepare_loop quorum (re_voting r) local_reply replies fold_new),
          g\<lparr>pg_replica := r'\<rparr>))"

text \<open>A reply that arrives when the phase no longer waits.\<close>

fun prepare_drain_side_effect :: "instant \<Rightarrow> px_prepare_reply tagged \<Rightarrow> 'e px_group \<Rightarrow> 'e px_group" where
  "prepare_drain_side_effect now (TRemote _ (Some (PrepTermStale _ t))) g = on_replica (become_follower now t) g"
| "prepare_drain_side_effect now (TRemote _ (Some (PrepEpochMismatch ep))) g = adopt_membership_epoch ep g"
| "prepare_drain_side_effect now _ g = g"

section \<open>Accept phase\<close>

datatype accept_attempt =
    AaChosen
  | AaRetry u64 px_paxos_error
  | AaFail px_paxos_error

fun fold_accept_tagged ::
    "bool \<Rightarrow> px_accept_reply \<Rightarrow> px_accept_reply tagged \<Rightarrow> reply_fold \<Rightarrow> reply_fold option" where
  "fold_accept_tagged local_voting local_reply TLocal f = fold_accept_local local_voting local_reply f"
| "fold_accept_tagged local_voting local_reply (TRemote voting None) f = Some f"
| "fold_accept_tagged local_voting local_reply (TRemote voting (Some reply)) f =
     Some (fold_accept_remote voting reply f)"

fun accept_loop ::
    "nat \<Rightarrow> bool \<Rightarrow> px_accept_reply \<Rightarrow> px_accept_reply tagged list \<Rightarrow> reply_fold \<Rightarrow> reply_fold option" where
  "accept_loop quorum local_voting local_reply [] f = Some f"
| "accept_loop quorum local_voting local_reply (t # ts) f =
     (case fold_accept_tagged local_voting local_reply t f of
        None \<Rightarrow> None
      | Some f' \<Rightarrow>
          if quorum \<le> rf_accepted f' \<and> rf_local_folded f' then Some f'
          else accept_loop quorum local_voting local_reply ts f')"

fun is_accepted :: "px_accept_reply \<Rightarrow> bool" where
  "is_accepted (AccAccepted _ _) = True"
| "is_accepted _ = False"

text \<open>The loop of the early acknowledgement: the flag of the result says that it ended as chosen.\<close>

fun accept_loop_early ::
    "nat \<Rightarrow> bool \<Rightarrow> px_accept_reply \<Rightarrow> px_accept_reply tagged list \<Rightarrow> bool \<Rightarrow> reply_fold \<Rightarrow>
     (reply_fold \<times> bool) option" where
  "accept_loop_early quorum local_voting local_reply [] local_accepted f = Some (f, False)"
| "accept_loop_early quorum local_voting local_reply (t # ts) local_accepted f =
     (case fold_accept_tagged local_voting local_reply t f of
        None \<Rightarrow> None
      | Some f' \<Rightarrow>
          let local_accepted' = (case t of TLocal \<Rightarrow> is_accepted local_reply | _ \<Rightarrow> local_accepted) in
          if local_accepted' \<and> quorum \<le> rf_accepted f' then Some (f', True)
          else accept_loop_early quorum local_voting local_reply ts local_accepted' f')"

definition finish_accept :: "nat \<Rightarrow> reply_fold \<Rightarrow> accept_attempt" where
  "finish_accept quorum f =
     (if quorum \<le> rf_accepted f then AaChosen
      else case rf_highest_seen_term f of
          Some new_term \<Rightarrow> AaFail (TermStale new_term)
        | None \<Rightarrow>
            (case rf_highest_rejected_round f of
               Some round \<Rightarrow>
                 let error = AcceptRejected (PxBallot round 0)
                 in AaRetry (case retry_action error of RetrySameSlot (Some r) _ \<Rightarrow> r | _ \<Rightarrow> round + 1) error
             | None \<Rightarrow>
                 (case rf_epoch_mismatch f of
                    Some ep \<Rightarrow> AaFail (MembershipEpochMismatch ep)
                  | None \<Rightarrow> AaFail (QuorumUnavailable PhaseAccept))))"

definition run_accept_phase ::
    "bool \<Rightarrow> instant \<Rightarrow> px_log_entry \<Rightarrow> nat \<Rightarrow> px_accept_reply tagged list \<Rightarrow> 'e px_group \<Rightarrow>
     accept_attempt option \<times> 'e px_group" where
  "run_accept_phase ok now entry quorum replies g =
     (let r = pg_replica g in
      if pg_wal_early_ack g \<and> 1 < pg_cached_quorum g
      then let (local_reply, r') = on_accept_inner now entry r; g' = g\<lparr>pg_replica := r'\<rparr> in
        case accept_loop_early quorum (re_voting r) local_reply replies False fold_new of
          None \<Rightarrow> (None, g')
        | Some (f, True) \<Rightarrow> (Some AaChosen, on_replica (on_accept_persist ok entry) g')
        | Some (f, False) \<Rightarrow> (Some (finish_accept quorum f), g')
      else let (local_reply, r') = on_accept ok now entry r in
        (map_option (finish_accept quorum) (accept_loop quorum (re_voting r) local_reply replies fold_new),
         g\<lparr>pg_replica := r'\<rparr>))"

fun accept_drain_side_effect :: "instant \<Rightarrow> px_accept_reply tagged \<Rightarrow> 'e px_group \<Rightarrow> 'e px_group" where
  "accept_drain_side_effect now (TRemote _ (Some (AccTermStale _ t))) g = on_replica (become_follower now t) g"
| "accept_drain_side_effect now (TRemote _ (Some (AccEpochMismatch ep))) g = adopt_membership_epoch ep g"
| "accept_drain_side_effect now _ g = g"

section \<open>Proposals\<close>

text \<open>What one attempt meets: the outcome of its log appends, the clock, and the replies of its two
  phases. The replies of the accept phase are answers to the entry that was sent: \<open>ae_accept\<close> says
  for every entry what comes back, and in which order, when that entry is sent.\<close>

record attempt_env =
  ae_ok :: bool
  ae_now :: instant
  ae_prepare :: "px_prepare_reply tagged list"
  ae_accept :: "px_log_entry \<Rightarrow> px_accept_reply tagged list"

datatype propose_result =
    PrChosen slot_index
  | PrNotLeader
  | PrBusy
  | PrErr string
  | PrPanic

datatype attempt_end = AeReturn propose_result | AeNextSlot

definition max_paxos_retries :: nat where
  "max_paxos_retries = 3"

definition max_slot_retries :: nat where
  "max_slot_retries = 3"

definition learn_locally ::
    "'e kv_iface \<Rightarrow> px_log_entry \<Rightarrow> request_identity list \<Rightarrow> 'e px_group \<Rightarrow> 'e px_group" where
  "learn_locally ki e ids g =
     on_replica (if pg_async_engine_apply g then spawn_learn_chosen e ids else learn_chosen ki e ids) g"

text \<open>One attempt either ends the work on the slot, with the last error, or goes on with what the next
  attempt starts from: whether to prepare, the least round, the last error.\<close>

type_synonym 'e attempt_result = "(attempt_end \<times> string \<times> 'e px_group) + (bool \<times> u64 \<times> string \<times> 'e px_group)"

text \<open>What an attempt does about a failed accept phase.\<close>

definition accept_failed ::
    "bool \<Rightarrow> u64 \<Rightarrow> string \<Rightarrow> instant \<Rightarrow> px_paxos_error \<Rightarrow> 'e px_group \<Rightarrow> 'e attempt_result" where
  "accept_failed force_prepare min_round last_error now error g =
     (case error of
        TermStale t \<Rightarrow> Inl (AeReturn PrNotLeader, last_error, on_replica (become_follower now t) g)
      | MembershipEpochMismatch ep \<Rightarrow> Inr (force_prepare, min_round, keyword error, adopt_membership_epoch ep g)
      | _ \<Rightarrow> Inl (AeNextSlot, keyword error, g))"

text \<open>The accept phase of an attempt of a proposal without a condition: a slot in which another value
  was chosen is left at once.\<close>

definition attempt_accept ::
    "'e kv_iface \<Rightarrow> bytes \<Rightarrow> request_identity list \<Rightarrow> nat \<Rightarrow> slot_index \<Rightarrow> bool \<Rightarrow> u64 \<Rightarrow> string \<Rightarrow> attempt_env \<Rightarrow>
     px_log_entry \<Rightarrow> bool \<Rightarrow> 'e px_group \<Rightarrow> 'e attempt_result" where
  "attempt_accept ki payload ids quorum slot force_prepare min_round last_error env entry foreign g =
     (case run_accept_phase (ae_ok env) (ae_now env) entry quorum (ae_accept env entry) g of
        (None, g2) \<Rightarrow> Inl (AeReturn PrPanic, last_error, g2)
      | (Some AaChosen, g2) \<Rightarrow>
          let own = (\<not> foreign \<and> e_payload entry = payload);
              g3 = learn_locally ki entry (if own then ids else []) g2
          in if own then Inl (AeReturn (PrChosen slot), last_error, g3)
             else Inl (AeNextSlot, keyword (ForeignValueChosen slot), g3)
      | (Some (AaRetry next_min_round error), g2) \<Rightarrow> Inr (True, next_min_round, keyword error, g2)
      | (Some (AaFail error), g2) \<Rightarrow>
          accept_failed force_prepare min_round last_error (ae_now env) error g2)"

definition paxos_attempt ::
    "'e kv_iface \<Rightarrow> bytes \<Rightarrow> request_identity list \<Rightarrow> nat \<Rightarrow> px_log_entry \<Rightarrow> bool \<Rightarrow> u64 \<Rightarrow> string \<Rightarrow> attempt_env \<Rightarrow>
     'e px_group \<Rightarrow> 'e attempt_result" where
  "paxos_attempt ki payload ids quorum base force_prepare min_round last_error env g =
     (let accept = attempt_accept ki payload ids quorum (e_slot base) force_prepare min_round last_error env in
      if force_prepare
      then case run_prepare_phase (ae_ok env) (ae_now env) (e_slot base) payload quorum min_round (ae_prepare env) g of
          (None, g1) \<Rightarrow> Inl (AeReturn PrPanic, last_error, g1)
        | (Some (PaProceed entry foreign), g1) \<Rightarrow> accept entry foreign g1
        | (Some (PaRetry next_min_round error), g1) \<Rightarrow> Inr (force_prepare, next_min_round, keyword error, g1)
        | (Some (PaFail error), g1) \<Rightarrow>
            (case error of
               TermStale t \<Rightarrow> Inl (AeReturn PrNotLeader, last_error, on_replica (become_follower (ae_now env) t) g1)
             | MembershipEpochMismatch ep \<Rightarrow>
                 Inr (force_prepare, min_round, keyword error, adopt_membership_epoch ep g1)
             | _ \<Rightarrow> Inl (AeNextSlot, keyword error, g1))
      else accept
             (if bal_round (e_ballot base) < min_round
              then base\<lparr>e_ballot := PxBallot min_round (bal_leader (e_ballot base))\<rparr> else base)
             False g)"

text \<open>The attempts of one slot, one per environment.\<close>

fun paxos_attempts ::
    "'e kv_iface \<Rightarrow> bytes \<Rightarrow> request_identity list \<Rightarrow> nat \<Rightarrow> px_log_entry \<Rightarrow> bool \<Rightarrow> u64 \<Rightarrow> string \<Rightarrow>
     attempt_env list \<Rightarrow> 'e px_group \<Rightarrow> attempt_end \<times> string \<times> 'e px_group" where
  "paxos_attempts ki payload ids quorum base force_prepare min_round last_error [] g = (AeNextSlot, last_error, g)"
| "paxos_attempts ki payload ids quorum base force_prepare min_round last_error (env # envs) g =
     (case paxos_attempt ki payload ids quorum base force_prepare min_round last_error env g of
        Inl result \<Rightarrow> result
      | Inr (force_prepare', min_round', last_error', g') \<Rightarrow>
          paxos_attempts ki payload ids quorum base force_prepare' min_round' last_error' envs g')"

text \<open>The slots, each with the environments of its attempts. The slot is taken from the group before
  the first try and after every abandoned one.\<close>

fun slot_attempts ::
    "'e kv_iface \<Rightarrow> bytes \<Rightarrow> request_identity list \<Rightarrow> nat \<Rightarrow> slot_index \<Rightarrow> string \<Rightarrow> attempt_env list list \<Rightarrow>
     'e px_group \<Rightarrow> propose_result \<times> 'e px_group" where
  "slot_attempts ki payload ids quorum slot last_error [] g =
     (PrErr (if last_error = [] then ''paxos retry exhausted''
             else last_error @ '' (after 3 paxos retries, 3 slot retries)''), g)"
| "slot_attempts ki payload ids quorum slot last_error (envs # rest) g =
     (case paxos_attempts ki payload ids quorum (base_entry slot payload g) (pg_force_classic g) 0 last_error envs g of
        (AeReturn res, last_error', g1) \<Rightarrow> (res, g1)
      | (AeNextSlot, last_error', g1) \<Rightarrow>
          let (slot', g2) = take_slot g1 in slot_attempts ki payload ids quorum slot' last_error' rest g2)"

definition leads_tenure :: "u64 option \<Rightarrow> 'e px_group \<Rightarrow> bool" where
  "leads_tenure required_term g \<longleftrightarrow>
     replica_role_of (pg_replica g) = RoleLeader \<and>
     re_term_atomic (pg_replica g) = pg_proposing_term g \<and>
     (case required_term of None \<Rightarrow> True | Some t \<Rightarrow> t = re_term_atomic (pg_replica g))"

text \<open>\<open>propose_inner_impl\<close> without a condition. A proposal that has to queue for its permit goes on
  when it gets one, and the permit is given back at the end; \<open>envs s a\<close> is what attempt \<open>a\<close> on the
  \<open>s\<close>-th slot meets.\<close>

definition propose_inner_impl ::
    "'e kv_iface \<Rightarrow> bytes \<Rightarrow> request_identity list \<Rightarrow> u64 option \<Rightarrow> (nat \<Rightarrow> nat \<Rightarrow> attempt_env) \<Rightarrow> 'e px_group \<Rightarrow>
     propose_result \<times> 'e px_group" where
  "propose_inner_impl ki payload ids required_term envs g =
     (if \<not> leads_tenure required_term g then (PrNotLeader, g)
      else if fst (acquire_permit (pg_inflight g)) = PermitRejected then (PrBusy, g)
      else let (slot, g1) = take_slot g
           in slot_attempts ki payload ids (pg_cached_quorum g) slot []
                (map (\<lambda>s. map (envs s) [0..<max_paxos_retries]) [0..<max_slot_retries]) g1)"

definition request_identity_of :: "u64 option \<Rightarrow> u64 option \<Rightarrow> request_identity option" where
  "request_identity_of client_id seq =
     (case (client_id, seq) of
        (Some cid, Some s) \<Rightarrow> if cid \<noteq> 0 then Some \<lparr> ri_client_id = cid, ri_seq = s \<rparr> else None
      | _ \<Rightarrow> None)"

text \<open>\<open>propose_with_tenure\<close> of a group that does not coalesce.\<close>

definition propose_with_tenure ::
    "'e kv_iface \<Rightarrow> bytes \<Rightarrow> u64 option \<Rightarrow> u64 option \<Rightarrow> u64 option \<Rightarrow> (nat \<Rightarrow> nat \<Rightarrow> attempt_env) \<Rightarrow> 'e px_group \<Rightarrow>
     propose_result \<times> 'e px_group" where
  "propose_with_tenure ki payload client_id seq required_term envs g =
     (if \<not> leads_tenure required_term g then (PrNotLeader, g)
      else case (case (client_id, seq) of
                   (Some cid, Some s) \<Rightarrow> request_result_lookup cid s (re_learner (pg_replica g))
                 | _ \<Rightarrow> None) of
          Some cached_slot \<Rightarrow> (PrChosen cached_slot, g)
        | None \<Rightarrow>
            propose_inner_impl ki payload
              (case request_identity_of client_id seq of None \<Rightarrow> [] | Some ri \<Rightarrow> [ri]) required_term envs g)"

section \<open>Repair of a slot\<close>

text \<open>The recovery of one slot by a new leader, one step of the background repair, and the closing
  of a slot of a conditional request, with an empty payload for a slot nobody has a value for. A
  panic of a phase ends the task like a failure.\<close>

definition still_leads :: "u64 \<Rightarrow> 'e px_group \<Rightarrow> bool" where
  "still_leads t g \<longleftrightarrow> re_term_atomic (pg_replica g) = t \<and> is_leader (pg_replica g)"

definition recover_prefix_slot ::
    "'e kv_iface \<Rightarrow> attempt_env \<Rightarrow> u64 \<Rightarrow> slot_index \<Rightarrow> 'e px_group \<Rightarrow> bool \<times> 'e px_group" where
  "recover_prefix_slot ki env t slot g =
     (if \<not> still_leads t g then (False, g)
      else case run_prepare_phase (ae_ok env) (ae_now env) slot [] (pg_cached_quorum g) 0 (ae_prepare env) g of
          (Some (PaProceed entry foreign), g1) \<Rightarrow>
            if \<not> still_leads t g1 then (False, g1)
            else let entry' = entry\<lparr>e_term := t\<rparr> in
              (case run_accept_phase (ae_ok env) (ae_now env) entry' (pg_cached_quorum g1) (ae_accept env entry') g1 of
                 (Some AaChosen, g2) \<Rightarrow> (True, on_replica (learn_chosen ki entry' []) g2)
               | (_, g2) \<Rightarrow> (False, g2))
        | (_, g1) \<Rightarrow> (False, g1))"

datatype repair_outcome = RepairNotLeader | RepairNoGap | RepairFilled slot_index | RepairFailed

definition repair_once :: "'e kv_iface \<Rightarrow> attempt_env \<Rightarrow> 'e px_group \<Rightarrow> repair_outcome \<times> 'e px_group" where
  "repair_once ki env g =
     (let r = pg_replica g; contiguous = lr_contiguous_chosen (re_learner r); gap_slot = contiguous + 1 in
      if replica_role_of r \<noteq> RoleLeader then (RepairNotLeader, g)
      else if lr_last_chosen_slot (re_learner r) \<le> contiguous then (RepairNoGap, g)
      else case run_prepare_phase (ae_ok env) (ae_now env) gap_slot [] (pg_cached_quorum g) 0 (ae_prepare env) g of
          (Some (PaProceed entry foreign), g1) \<Rightarrow>
            (case run_accept_phase (ae_ok env) (ae_now env) entry (pg_cached_quorum g) (ae_accept env entry) g1 of
               (Some AaChosen, g2) \<Rightarrow> (RepairFilled gap_slot, on_replica (learn_chosen ki entry []) g2)
             | (_, g2) \<Rightarrow> (RepairFailed, g2))
        | (_, g1) \<Rightarrow> (RepairFailed, g1))"

fun resolve_conditional_slot ::
    "'e kv_iface \<Rightarrow> slot_index \<Rightarrow> nat \<Rightarrow> u64 \<Rightarrow> attempt_env list \<Rightarrow> 'e px_group \<Rightarrow> px_log_entry option \<times> 'e px_group" where
  "resolve_conditional_slot ki slot quorum min_round [] g = (None, g)"
| "resolve_conditional_slot ki slot quorum min_round (env # envs) g =
     (case run_prepare_phase (ae_ok env) (ae_now env) slot [] quorum min_round (ae_prepare env) g of
        (Some (PaProceed entry foreign), g1) \<Rightarrow>
          (case run_accept_phase (ae_ok env) (ae_now env) entry quorum (ae_accept env entry) g1 of
             (Some AaChosen, g2) \<Rightarrow> (Some entry, on_replica (learn_chosen ki entry []) g2)
           | (Some (AaRetry next_min_round error), g2) \<Rightarrow>
               resolve_conditional_slot ki slot quorum next_min_round envs g2
           | (_, g2) \<Rightarrow> (None, g2))
      | (Some (PaRetry next_min_round error), g1) \<Rightarrow>
          resolve_conditional_slot ki slot quorum next_min_round envs g1
      | (_, g1) \<Rightarrow> (None, g1))"

section \<open>Backoff\<close>

definition sat_mul :: "u64 \<Rightarrow> u64 \<Rightarrow> u64" where
  "sat_mul a b = (if unat a * unat b < 2 ^ 64 then a * b else u64_max)"

definition retry_jitter_multiplier :: "u64 \<Rightarrow> u64 \<times> u64" where
  "retry_jitter_multiplier state = (let (x, state') = xorshift_next state in (500 + x mod 1001, state'))"

text \<open>The wait in milliseconds before the next attempt.\<close>

definition retry_backoff :: "nat \<Rightarrow> u64 \<Rightarrow> u64 \<times> u64" where
  "retry_backoff attempt state =
     (let base = sat_mul 5 (push_bit (min attempt 6) 1); (mult, state') = retry_jitter_multiplier state
      in (sat_mul base mult div 1000, state'))"

section \<open>What a reported slot stands for\<close>

lemma finish_prepare_proceed:
  assumes "finish_prepare q payload entry f = PaProceed e foreign"
  shows "q \<le> rf_accepted f" "e_slot e = e_slot entry" "e_ballot e = e_ballot entry"
    "rf_adopted f = Some a \<Longrightarrow> e_payload e = e_payload a"
  using assms by (auto simp: finish_prepare_def Let_def split: option.splits if_splits px_retry_action.splits)

text \<open>The replies that count: accepts of voting members.\<close>

fun counts_accept :: "bool \<Rightarrow> px_accept_reply \<Rightarrow> px_accept_reply tagged \<Rightarrow> bool" where
  "counts_accept local_voting local_reply TLocal \<longleftrightarrow> local_voting \<and> is_accepted local_reply"
| "counts_accept local_voting local_reply (TRemote voting (Some reply)) \<longleftrightarrow> voting \<and> is_accepted reply"
| "counts_accept local_voting local_reply (TRemote voting None) \<longleftrightarrow> False"

definition accept_votes :: "bool \<Rightarrow> px_accept_reply \<Rightarrow> px_accept_reply tagged list \<Rightarrow> nat" where
  "accept_votes local_voting local_reply replies = length (filter (counts_accept local_voting local_reply) replies)"

lemma fold_accept_tagged_count:
  "fold_accept_tagged lv lr t f = Some f' \<Longrightarrow>
   rf_accepted f' = rf_accepted f + (if counts_accept lv lr t then 1 else 0)"
proof (induction lv lr t f rule: fold_accept_tagged.induct)
  case (1 lv lr f)
  then show ?case by (cases lr) (auto simp: count_voting_def note_rejected_def note_term_stale_def)
next
  case (3 lv lr voting reply f)
  then show ?case by (cases reply) (auto simp: count_voting_def note_rejected_def note_term_stale_def)
qed simp

lemma accept_loop_count:
  "accept_loop q lv lr ts f = Some f' \<Longrightarrow> rf_accepted f' \<le> rf_accepted f + accept_votes lv lr ts"
proof (induction ts arbitrary: f)
  case (Cons t ts)
  then show ?case
    by (fastforce simp: accept_votes_def dest: fold_accept_tagged_count split: option.splits if_splits)
qed simp

lemma accept_loop_early_count:
  "accept_loop_early q lv lr ts la f = Some (f', won) \<Longrightarrow>
   rf_accepted f' \<le> rf_accepted f + accept_votes lv lr ts \<and> (won \<longrightarrow> q \<le> rf_accepted f')"
proof (induction ts arbitrary: la f)
  case (Cons t ts)
  then show ?case
    by (fastforce simp: accept_votes_def Let_def dest: fold_accept_tagged_count split: option.splits if_splits)
qed simp

lemma finish_accept_chosen: "finish_accept q f = AaChosen \<Longrightarrow> q \<le> rf_accepted f"
  by (auto simp: finish_accept_def Let_def split: option.splits if_splits)

text \<open>Accepting with the log append at once or later gives the same reply.\<close>

lemma on_accept_reply: "fst (on_accept ok now e r) = fst (on_accept_inner now e r)"
  by (simp add: on_accept_def case_prod_beta)

lemma accept_phase_quorum:
  assumes "run_accept_phase ok now e q ts g = (Some AaChosen, g')"
  shows "q \<le> accept_votes (re_voting (pg_replica g)) (fst (on_accept_inner now e (pg_replica g))) ts"
proof -
  let ?lv = "re_voting (pg_replica g)" and ?lr = "fst (on_accept_inner now e (pg_replica g))"
  have zero: "rf_accepted fold_new = 0" by (simp add: fold_new_def)
  show ?thesis
  proof (cases "pg_wal_early_ack g \<and> 1 < pg_cached_quorum g")
    case True
    show ?thesis
    proof (cases "accept_loop_early q ?lv ?lr ts False fold_new")
      case None
      then show ?thesis using assms True by (simp add: run_accept_phase_def case_prod_beta Let_def)
    next
      case (Some res)
      obtain f won where res: "res = (f, won)" by (cases res)
      have "won \<or> finish_accept q f = AaChosen"
        using assms True Some by (cases won) (simp_all add: run_accept_phase_def case_prod_beta Let_def res)
      then have "q \<le> rf_accepted f" using accept_loop_early_count [OF Some [unfolded res]] finish_accept_chosen by blast
      then show ?thesis using accept_loop_early_count [OF Some [unfolded res]] zero by simp
    qed
  next
    case False
    have "map_option (finish_accept q) (accept_loop q ?lv ?lr ts fold_new) = Some AaChosen"
      using assms unfolding run_accept_phase_def Let_def if_not_P [OF False] case_prod_beta on_accept_reply
      by (rule Pair_inject)
    then obtain f where f: "accept_loop q ?lv ?lr ts fold_new = Some f" "finish_accept q f = AaChosen" by auto
    show ?thesis using accept_loop_count [OF f(1)] finish_accept_chosen [OF f(2)] zero by simp
  qed
qed

text \<open>What the phases leave alone.\<close>

lemma become_follower_learner [simp]:
  "re_learner (become_follower now t r) = re_learner r" "re_voting (become_follower now t r) = re_voting r"
  by (simp_all add: become_follower_def reset_lease_to_def set_role_atomic_def with_election_state_def Let_def)

lemma wal_append_voting [simp]: "re_voting (wal_append ok mk r) = re_voting r"
  by (simp add: wal_append_def split: option.split)

lemma on_prepare_learner: "re_learner (snd (on_prepare ok now s b t r)) = re_learner r"
  by (simp add: on_prepare_def case_prod_beta Let_def split: px_prepare_reply.split)

lemma on_accept_inner_learner: "re_learner (snd (on_accept_inner now e r)) = re_learner r"
  by (simp add: on_accept_inner_def case_prod_beta Let_def)

lemma on_accept_learner: "re_learner (snd (on_accept ok now e r)) = re_learner r"
  by (simp add: on_accept_def on_accept_persist_def case_prod_beta on_accept_inner_learner split: px_accept_reply.split)

lemma prepare_phase_learner:
  "run_prepare_phase ok now s p q mr ts g = (res, g') \<Longrightarrow> re_learner (pg_replica g') = re_learner (pg_replica g)"
  by (auto simp: run_prepare_phase_def case_prod_beta Let_def on_prepare_learner)

lemma accept_phase_learner:
  "run_accept_phase ok now e q ts g = (res, g') \<Longrightarrow> re_learner (pg_replica g') = re_learner (pg_replica g)"
  by (auto simp: run_accept_phase_def case_prod_beta Let_def on_accept_learner on_accept_inner_learner on_replica_def
      on_accept_persist_def split: option.splits bool.splits if_splits)

lemma prepare_phase_slot:
  "run_prepare_phase ok now s p q mr ts g = (Some (PaProceed e foreign), g') \<Longrightarrow> e_slot e = s"
  by (auto simp: run_prepare_phase_def case_prod_beta Let_def base_entry_def dest!: finish_prepare_proceed(2) split: option.splits)

abbreviation learner_of :: "'e px_group \<Rightarrow> 'e px_learner" where
  "learner_of g \<equiv> re_learner (pg_replica g)"

lemma group_frames [simp]:
  "learner_of (on_replica (become_follower now t) g) = learner_of g"
  "learner_of (adopt_membership_epoch ep g) = learner_of g"
  by (simp_all add: on_replica_def adopt_membership_epoch_def)

lemma learn_locally_chosen:
  assumes "chosen_inv (learner_of g)"
  shows "chosen_inv (learner_of (learn_locally ki e ids g))" "is_chosen (e_slot e) (learner_of (learn_locally ki e ids g))"
proof -
  let ?l = "learner_of g" and ?l' = "learner_of (learn_locally ki e ids g)"
  have "chosen_inv ?l' \<and> is_chosen (e_slot e) ?l'"
  proof (cases "pg_async_engine_apply g")
    case True
    let ?u = "learner_step ki (EvChosen (e_slot e) (e_term e)) ?l"
    have l': "?l' = record_request_results ids (e_slot e) ?u"
      using True by (simp add: learn_locally_def on_replica_def spawn_learn_chosen_def)
    have "chosen_inv ?u" "is_chosen (e_slot e) ?u"
      using chosen.step_inv [OF assms, of ki "EvChosen (e_slot e) (e_term e)"]
        learner_step_chosen [OF assms, of "e_slot e" "EvChosen (e_slot e) (e_term e)" ki] by auto
    then show ?thesis unfolding l' by (simp add: chosen_inv_def is_chosen_def)
  next
    case False
    then have "?l' = learner_step ki (EvLearn e ids) ?l"
      by (simp add: learn_locally_def on_replica_def learn_chosen_def)
    then show ?thesis
      using chosen.step_inv [OF assms, of ki "EvLearn e ids"] learner_step_chosen [OF assms, of "e_slot e" "EvLearn e ids" ki] by auto
  qed
  then show "chosen_inv ?l'" "is_chosen (e_slot e) ?l'" by simp_all
qed

lemma phase_voting:
  "run_prepare_phase ok now s p q mr ts g = (res, g') \<Longrightarrow> re_voting (pg_replica g') = re_voting (pg_replica g)"
  "run_accept_phase ok now e q ts' g = (res', g'') \<Longrightarrow> re_voting (pg_replica g'') = re_voting (pg_replica g)"
  "re_voting (pg_replica (learn_locally ki e' ids g)) = re_voting (pg_replica g)"
  "re_voting (pg_replica (on_replica (become_follower now t) g)) = re_voting (pg_replica g)"
  "re_voting (pg_replica (adopt_membership_epoch ep g)) = re_voting (pg_replica g)"
  by (auto simp: run_prepare_phase_def run_accept_phase_def case_prod_beta Let_def on_prepare_def on_accept_def
      on_accept_inner_def on_replica_def on_accept_persist_def learn_locally_def spawn_learn_chosen_def
      learn_chosen_def on_learner_def adopt_membership_epoch_def
      split: option.splits bool.splits if_splits px_prepare_reply.splits px_accept_reply.splits)

text \<open>The slot was won with the payload: an entry with this payload was sent for the slot, the answers
  to that entry hold accepts of a quorum of voting members, and the group ends in the state in
  which that accept phase and learning that entry for the requests \<open>ids\<close> leave it.\<close>

definition won_slot ::
    "'e kv_iface \<Rightarrow> bytes \<Rightarrow> request_identity list \<Rightarrow> bool \<Rightarrow> nat \<Rightarrow> slot_index \<Rightarrow> attempt_env \<Rightarrow> 'e px_group \<Rightarrow> bool" where
  "won_slot ki payload ids voting quorum slot env g' \<longleftrightarrow>
     (\<exists>e g1 g2. e_slot e = slot \<and> e_payload e = payload \<and> re_voting (pg_replica g1) = voting \<and>
        quorum \<le> accept_votes voting (fst (on_accept_inner (ae_now env) e (pg_replica g1))) (ae_accept env e) \<and>
        run_accept_phase (ae_ok env) (ae_now env) e quorum (ae_accept env e) g1 = (Some AaChosen, g2) \<and>
        g' = learn_locally ki e ids g2)"

text \<open>What every step of the work on a proposal keeps, and what a reported slot stands for. The
  arguments that stay the same are those of the proposal.\<close>

definition attempt_ok ::
    "'e kv_iface \<Rightarrow> bytes \<Rightarrow> request_identity list \<Rightarrow> bool \<Rightarrow> nat \<Rightarrow> slot_index \<Rightarrow> attempt_env set \<Rightarrow>
     propose_result option \<Rightarrow> 'e px_group \<Rightarrow> bool" where
  "attempt_ok ki payload ids voting quorum slot envs res g \<longleftrightarrow>
     chosen_inv (learner_of g) \<and> re_voting (pg_replica g) = voting \<and>
     (\<forall>s. res = Some (PrChosen s) \<longrightarrow>
        s = slot \<and> is_chosen s (learner_of g) \<and> (\<exists>env \<in> envs. won_slot ki payload ids voting quorum s env g))"

fun result_of :: "attempt_end \<Rightarrow> propose_result option" where
  "result_of (AeReturn res) = Some res"
| "result_of AeNextSlot = None"

fun attempt_result_ok ::
    "'e kv_iface \<Rightarrow> bytes \<Rightarrow> request_identity list \<Rightarrow> bool \<Rightarrow> nat \<Rightarrow> slot_index \<Rightarrow> attempt_env set \<Rightarrow>
     'e attempt_result \<Rightarrow> bool" where
  "attempt_result_ok ki payload ids voting quorum slot envs (Inl (ae, err, g)) =
     attempt_ok ki payload ids voting quorum slot envs (result_of ae) g"
| "attempt_result_ok ki payload ids voting quorum slot envs (Inr (fp, mr, err, g)) =
     attempt_ok ki payload ids voting quorum slot envs None g"

lemma attempt_accept_ok:
  assumes "attempt_ok ki payload ids voting q slot {env} None g" and "e_slot entry = slot"
  shows "attempt_result_ok ki payload ids voting q slot {env} (attempt_accept ki payload ids q slot fp mr err env entry foreign g)"
proof -
  obtain res g2 where run: "run_accept_phase (ae_ok env) (ae_now env) entry q (ae_accept env entry) g = (res, g2)" by fastforce
  note frame = accept_phase_learner [OF run] phase_voting(2) [OF run]
  have inv: "chosen_inv (learner_of g2)" "re_voting (pg_replica g2) = voting"
    using assms(1) frame by (simp_all add: attempt_ok_def)
  have "won_slot ki payload ids voting q slot env (learn_locally ki entry ids g2)"
    if h: "res = Some AaChosen" "e_payload entry = payload"
    unfolding won_slot_def
    using accept_phase_quorum [OF run [unfolded h(1)]] run [unfolded h(1)] assms h(2)
    by (intro exI [of _ entry] exI [of _ g] exI [of _ g2]) (simp add: attempt_ok_def)
  then show ?thesis
    using inv learn_locally_chosen [OF inv(1), where ki = ki and e = entry] assms(2)
    by (auto simp: attempt_accept_def accept_failed_def run attempt_ok_def phase_voting Let_def
        split: option.split accept_attempt.split px_paxos_error.split)
qed

lemma paxos_attempt_ok:
  assumes "attempt_ok ki payload ids voting q (e_slot base) {env} None g"
  shows "attempt_result_ok ki payload ids voting q (e_slot base) {env} (paxos_attempt ki payload ids q base fp mr err env g)"
proof (cases fp)
  case True
  obtain res g1 where run: "run_prepare_phase (ae_ok env) (ae_now env) (e_slot base) payload q mr (ae_prepare env) g = (res, g1)"
    by fastforce
  have ok: "attempt_ok ki payload ids voting q (e_slot base) {env} None g1"
    using assms prepare_phase_learner [OF run] phase_voting(1) [OF run] by (simp add: attempt_ok_def)
  then have "attempt_result_ok ki payload ids voting q (e_slot base) {env}
      (attempt_accept ki payload ids q (e_slot base) fp mr err env e foreign g1)"
    if "res = Some (PaProceed e foreign)" for e foreign
    using attempt_accept_ok prepare_phase_slot [OF run [unfolded that]] by blast
  with ok show ?thesis using True
    by (auto simp: paxos_attempt_def run attempt_ok_def phase_voting Let_def
        split: option.split prepare_attempt.split px_paxos_error.split)
qed (use assms in \<open>auto simp: paxos_attempt_def Let_def intro!: attempt_accept_ok\<close>)

lemma attempt_ok_mono:
  "attempt_ok ki payload ids voting q slot E res g \<Longrightarrow> E \<subseteq> E' \<Longrightarrow> attempt_ok ki payload ids voting q slot E' res g"
  unfolding attempt_ok_def by blast

lemma paxos_attempts_ok:
  "attempt_ok ki payload ids voting q (e_slot base) (set envs) None g \<Longrightarrow>
   paxos_attempts ki payload ids q base fp mr err envs g = (ae, err', g') \<Longrightarrow>
   attempt_ok ki payload ids voting q (e_slot base) (set envs) (result_of ae) g'"
proof (induction envs arbitrary: fp mr err g)
  case (Cons env envs)
  have start: "attempt_ok ki payload ids voting q (e_slot base) E None g" for E
    using Cons.prems(1) by (simp add: attempt_ok_def)
  note one = paxos_attempt_ok [OF start, where fp = fp and mr = mr and err = err and env = env]
  show ?case
  proof (cases "paxos_attempt ki payload ids q base fp mr err env g")
    case (Inl a)
    then have "attempt_ok ki payload ids voting q (e_slot base) {env} (result_of ae) g'" using one Cons.prems(2) by simp
    then show ?thesis by (rule attempt_ok_mono) simp
  next
    case (Inr b)
    obtain fp' mr' err1 g1 where b: "b = (fp', mr', err1, g1)" by (cases b)
    then have "attempt_ok ki payload ids voting q (e_slot base) (set envs) None g1" using one Inr by (simp add: attempt_ok_def)
    then have "attempt_ok ki payload ids voting q (e_slot base) (set envs) (result_of ae) g'"
      using Cons.IH Cons.prems(2) Inr b by simp
    then show ?thesis by (rule attempt_ok_mono) auto
  qed
qed simp

lemma take_slot_frame: "take_slot g = (s, g') \<Longrightarrow> attempt_ok ki payload ids voting q slot E None g' = attempt_ok ki payload ids voting q slot' E' None g"
  by (auto simp: take_slot_def attempt_ok_def)

lemma slot_attempts_ok:
  "attempt_ok ki payload ids voting q slot {} None g \<Longrightarrow>
   slot_attempts ki payload ids q slot err envss g = (PrChosen s, g') \<Longrightarrow>
   is_chosen s (learner_of g') \<and> (\<exists>envs \<in> set envss. \<exists>env \<in> set envs. won_slot ki payload ids voting q s env g')"
proof (induction envss arbitrary: slot err g)
  case (Cons envs envss)
  let ?base = "base_entry slot payload g"
  obtain ae err1 g1 where run: "paxos_attempts ki payload ids q ?base (pg_force_classic g) 0 err envs g = (ae, err1, g1)"
    using prod_cases3 by blast
  have "attempt_ok ki payload ids voting q (e_slot ?base) (set envs) None g"
    using Cons.prems(1) by (simp add: attempt_ok_def)
  from paxos_attempts_ok [OF this run] have ok: "attempt_ok ki payload ids voting q slot (set envs) (result_of ae) g1"
    by (simp add: base_entry_def)
  show ?case
  proof (cases ae)
    case (AeReturn res)
    then have "res = PrChosen s" "g' = g1" using Cons.prems(2) run by simp_all
    then show ?thesis using ok AeReturn by (auto simp: attempt_ok_def)
  next
    case AeNextSlot
    obtain slot' g2 where next_slot: "take_slot g1 = (slot', g2)" by fastforce
    have "attempt_ok ki payload ids voting q slot' {} None g2"
      using ok AeNextSlot take_slot_frame [OF next_slot, of ki payload ids voting q slot' "{}" slot "set envs"] by simp
    moreover have "slot_attempts ki payload ids q slot' err1 envss g2 = (PrChosen s, g')"
      using Cons.prems(2) run AeNextSlot next_slot by simp
    ultimately show ?thesis using Cons.IH by (meson list.set_intros(2))
  qed
qed simp

text \<open>C15 A proposal is reported as chosen only for its own value. When the proposal of a group returns a
  slot, the group led its term, one of its attempts sent an entry with this payload for this slot,
  the answers to that entry are accepts of a quorum of voting members, and the call ends right
  after that entry was learned for the requests of the proposal: the leader's learner knows the
  slot as chosen, so that its next linearizable read waits for it.\<close>

theorem proposal_reports_own_value:
  assumes "propose_inner_impl ki payload ids required_term envs g = (PrChosen slot, g')"
    and "chosen_inv (re_learner (pg_replica g))"
  shows "leads_tenure required_term g \<and> is_chosen slot (re_learner (pg_replica g')) \<and>
    (\<exists>s < max_slot_retries. \<exists>a < max_paxos_retries.
       won_slot ki payload ids (re_voting (pg_replica g)) (pg_cached_quorum g) slot (envs s a) g')"
proof -
  let ?E = "map (\<lambda>s. map (envs s) [0..<max_paxos_retries]) [0..<max_slot_retries]"
  let ?v = "re_voting (pg_replica g)" and ?q = "pg_cached_quorum g"
  obtain slot0 g1 where slot0: "take_slot g = (slot0, g1)" by fastforce
  have leads: "leads_tenure required_term g"
    using assms(1) by (auto simp: propose_inner_impl_def split: if_splits)
  have run: "slot_attempts ki payload ids ?q slot0 [] ?E g1 = (PrChosen slot, g')"
    using assms(1) by (auto simp: propose_inner_impl_def slot0 split: if_splits)
  have "attempt_ok ki payload ids ?v ?q slot0 {} None g" using assms(2) by (simp add: attempt_ok_def)
  then have "attempt_ok ki payload ids ?v ?q slot0 {} None g1" using take_slot_frame [OF slot0] by metis
  note won = slot_attempts_ok [OF this run]
  then obtain s a where "s < max_slot_retries" "a < max_paxos_retries" "won_slot ki payload ids ?v ?q slot (envs s a) g'"
    by auto
  then show ?thesis using leads won by blast
qed

text \<open>A leader and a second member, whose answer to an entry is the one its acceptor gives.\<close>

definition pair_group :: "mem_kv px_group" where
  "pair_group =
     \<lparr> pg_replica = become_leader 0 (member_start 1 7 []), pg_next_slot = 1, pg_proposing_term = 0,
       pg_membership_epoch = 0, pg_cached_quorum = 2, pg_force_classic = True, pg_wal_early_ack = False,
       pg_async_engine_apply = False, pg_leader_read_ready = True, pg_inflight = inflight_new 8 True \<rparr>"

definition pair_env :: attempt_env where
  "pair_env =
     \<lparr> ae_ok = True, ae_now = 0, ae_prepare = [TLocal, TRemote True (Some (PrepPromised 1 None))],
       ae_accept = (\<lambda>e. [TLocal, TRemote True (Some (fst (on_accept True 0 e (member_start 2 7 ([] :: mem_kv)))))]) \<rparr>"

lemma proposal_reports_own_value_witness:
  "\<exists>g'. propose_inner_impl mem_iface [] [] None (\<lambda>_ _. pair_env) pair_group = (PrChosen 1, g') \<and>
     is_chosen 1 (re_learner (pg_replica g')) \<and> won_slot mem_iface [] [] True 2 1 pair_env g'"
proof -
  have res: "fst (propose_inner_impl mem_iface [] [] None (\<lambda>_ _. pair_env) pair_group) = PrChosen 1" by code_simp
  have start: "re_learner (pg_replica pair_group) = learner_new []" "re_voting (pg_replica pair_group) = True"
    "pg_cached_quorum pair_group = 2" by code_simp+
  obtain g' where run: "propose_inner_impl mem_iface [] [] None (\<lambda>_ _. pair_env) pair_group = (PrChosen 1, g')"
    using res by (metis prod.collapse)
  from proposal_reports_own_value [OF this] run show ?thesis unfolding start by auto
qed

end
