(* ===== verification/Agreement.thy ===== *)
theory Agreement
  imports Proposer
begin

text \<open>
  What the proposer and the acceptors of a group achieve together: when every proposal is preceded
  by a prepare phase, no two values are chosen for a slot.
\<close>

section \<open>Runs of classic Paxos\<close>

text \<open>
  The prepare phases of a group, numbered, each with what it asks for; and what the members and
  the phases have done so far: the members themselves, the promises given to each phase with the
  entry they reported, the entries the phases decided to propose, and the entries accepted.
\<close>

record prepare_call =
  pc_proposer :: node_id
  pc_slot :: slot_index
  pc_ballot :: px_ballot
  pc_term :: u64
  pc_payload :: bytes

record 'e paxos_state =
  ps_members :: "node_id \<Rightarrow> 'e px_local_replica"
  ps_promises :: "(nat \<times> node_id \<times> px_log_entry option) set"
  ps_proposals :: "(nat \<times> px_log_entry) set"
  ps_accepts :: "(node_id \<times> px_log_entry) set"

definition call_entry :: "prepare_call \<Rightarrow> px_log_entry" where
  "call_entry c = \<lparr> e_slot = pc_slot c, e_ballot = pc_ballot c, e_term = pc_term c, e_payload = pc_payload c \<rparr>"

text \<open>The answers a phase hears, in order, as the phase sees them.\<close>

definition tag_answers ::
    "node_id list \<Rightarrow> node_id \<Rightarrow> (node_id \<times> px_prepare_reply option) list \<Rightarrow> px_prepare_reply tagged list" where
  "tag_answers ms self answers =
     map (\<lambda>(n, reply). if n = self then TLocal else TRemote (n \<in> set ms) reply) answers"

definition heard :: "(node_id \<times> px_prepare_reply option) list \<Rightarrow> (node_id \<times> px_log_entry option) set" where
  "heard answers = {(n, acc). \<exists>s. (n, Some (PrepPromised s acc)) \<in> set answers}"

inductive paxos_run :: "node_id list \<Rightarrow> (nat \<Rightarrow> prepare_call) \<Rightarrow> 'e paxos_state \<Rightarrow> bool"
  for ms :: "node_id list" and calls :: "nat \<Rightarrow> prepare_call" where
  start: "\<forall>n. re_acceptor (rs n) = acceptor_new \<Longrightarrow>
    paxos_run ms calls \<lparr> ps_members = rs, ps_promises = {}, ps_proposals = {}, ps_accepts = {} \<rparr>"
| prepare: "paxos_run ms calls st \<Longrightarrow> ballot_zero < pc_ballot (calls k) \<Longrightarrow>
    on_prepare ok now (pc_slot (calls k)) (pc_ballot (calls k)) (pc_term (calls k)) (ps_members st n) = (reply, r) \<Longrightarrow>
    paxos_run ms calls (st\<lparr>ps_members := (ps_members st)(n := r),
      ps_promises := ps_promises st \<union> {(k, n, acc) | acc. reply = PrepPromised (pc_slot (calls k)) acc}\<rparr>)"
| propose: "paxos_run ms calls st \<Longrightarrow> \<forall>e'. (k, e') \<notin> ps_proposals st \<Longrightarrow> distinct (map fst answers) \<Longrightarrow>
    \<forall>(n, acc) \<in> heard answers. (k, n, acc) \<in> ps_promises st \<Longrightarrow>
    \<forall>reply. (pc_proposer (calls k), reply) \<in> set answers \<longrightarrow> reply = Some local_reply \<Longrightarrow>
    prepare_loop (group_quorum (length ms)) (pc_proposer (calls k) \<in> set ms) local_reply
      (tag_answers ms (pc_proposer (calls k)) answers) fold_new = Some f \<Longrightarrow>
    finish_prepare (group_quorum (length ms)) (pc_payload (calls k)) (call_entry (calls k)) f = PaProceed e foreign \<Longrightarrow>
    paxos_run ms calls (st\<lparr>ps_proposals := insert (k, e\<lparr>e_term := t\<rparr>) (ps_proposals st)\<rparr>)"
| accept: "paxos_run ms calls st \<Longrightarrow> (k, e) \<in> ps_proposals st \<Longrightarrow>
    on_accept_inner now e (ps_members st n) = (reply, r) \<Longrightarrow>
    paxos_run ms calls (st\<lparr>ps_members := (ps_members st)(n := r),
      ps_accepts := ps_accepts st \<union> {(n, e) | s b. reply = AccAccepted s b}\<rparr>)"
| elsewhere: "paxos_run ms calls st \<Longrightarrow> re_acceptor r = re_acceptor (ps_members st n) \<Longrightarrow>
    paxos_run ms calls (st\<lparr>ps_members := (ps_members st)(n := r)\<rparr>)"

text \<open>A value is chosen for a slot when a quorum of voting members has accepted it in one ballot.\<close>

definition chosen_value :: "node_id list \<Rightarrow> 'e paxos_state \<Rightarrow> slot_index \<Rightarrow> px_ballot \<Rightarrow> bytes \<Rightarrow> bool" where
  "chosen_value ms st s b v \<longleftrightarrow>
     (\<exists>Q \<subseteq> set ms. group_quorum (length ms) \<le> card Q \<and>
       (\<forall>n \<in> Q. \<exists>e. (n, e) \<in> ps_accepts st \<and> e_slot e = s \<and> e_ballot e = b \<and> e_payload e = v))"

section \<open>What a prepare phase has heard\<close>

definition promisers :: "node_id list \<Rightarrow> (node_id \<times> px_prepare_reply option) list \<Rightarrow> node_id set" where
  "promisers ms answers = {n \<in> set ms. \<exists>acc. (n, acc) \<in> heard answers}"

lemma heard_Cons:
  "heard ((n, reply) # answers) =
     (case reply of Some (PrepPromised s acc) \<Rightarrow> {(n, acc)} | _ \<Rightarrow> {}) \<union> heard answers"
  by (auto simp: heard_def split: option.split px_prepare_reply.split)

lemma heard_fst: "(n, acc) \<in> heard answers \<Longrightarrow> n \<in> fst ` set answers"
  by (force simp: heard_def)

lemma finite_promisers [simp]: "finite (promisers ms answers)"
  by (simp add: promisers_def)

lemma promisers_Cons:
  "n \<notin> fst ` set answers \<Longrightarrow>
   card (promisers ms ((n, reply) # answers)) =
     (case reply of Some (PrepPromised s acc) \<Rightarrow> (if n \<in> set ms then 1 else 0) | _ \<Rightarrow> 0) + card (promisers ms answers)"
proof -
  assume "n \<notin> fst ` set answers"
  then have "n \<notin> promisers ms answers" using heard_fst by (fastforce simp: promisers_def)
  moreover have "promisers ms ((n, reply) # answers) =
      (case reply of Some (PrepPromised s acc) \<Rightarrow> {n} \<inter> set ms | _ \<Rightarrow> {}) \<union> promisers ms answers"
    by (auto simp: promisers_def heard_Cons split: option.split px_prepare_reply.split)
  ultimately show ?thesis by (auto split: option.split px_prepare_reply.split)
qed

text \<open>One reply, whether it is the local one or a remote one, adds its promise to the count and offers
  its entry for adoption.\<close>

definition fold_step :: "bool \<Rightarrow> px_prepare_reply option \<Rightarrow> reply_fold \<Rightarrow> reply_fold \<Rightarrow> bool" where
  "fold_step voting reply f f' \<longleftrightarrow>
     (case reply of
        Some (PrepPromised s acc) \<Rightarrow>
          rf_accepted f' = rf_accepted f + (if voting then 1 else 0) \<and>
          rf_adopted f' = (case acc of None \<Rightarrow> rf_adopted f | Some e \<Rightarrow> consider_accepted (rf_adopted f) e)
      | _ \<Rightarrow> rf_accepted f' = rf_accepted f \<and> rf_adopted f' = rf_adopted f)"

lemma fold_promised_fields:
  "rf_accepted (fold_promised voting acc f) = rf_accepted f + (if voting then 1 else 0)"
  "rf_adopted (fold_promised voting acc f) =
     (case acc of None \<Rightarrow> rf_adopted f | Some e \<Rightarrow> consider_accepted (rf_adopted f) e)"
  by (simp_all add: fold_promised_def count_voting_def Let_def split: option.split)

lemma fold_step_remote: "fold_step voting (Some reply) f (fold_prepare_remote voting reply f)"
  by (cases reply) (simp_all add: fold_step_def fold_promised_fields note_rejected_def note_term_stale_def)

lemma fold_step_local:
  "fold_prepare_local voting reply f = Some f' \<Longrightarrow> fold_step voting (Some reply) f f'"
  by (cases reply) (auto simp: fold_step_def fold_promised_fields note_rejected_def note_term_stale_def)

lemma fold_step_tagged:
  assumes "fold_prepare_tagged lv lr (if n = self then TLocal else TRemote (n \<in> set ms) reply) f = Some f'"
    and "n = self \<Longrightarrow> reply = Some lr" and "lv = (self \<in> set ms)"
  shows "fold_step (n \<in> set ms) reply f f'"
proof (cases "n = self")
  case False
  then show ?thesis
    using assms(1) fold_step_remote [of "n \<in> set ms" "the reply" f] by (cases reply) (simp add: fold_step_def, simp)
qed (use assms fold_step_local in auto)

text \<open>The adopted entry is one that was heard, and none that was heard has a higher ballot.\<close>

definition adopts_max :: "reply_fold \<Rightarrow> (node_id \<times> px_log_entry option) set \<Rightarrow> reply_fold \<Rightarrow> bool" where
  "adopts_max f H f' \<longleftrightarrow>
     (\<forall>a. (rf_adopted f = Some a \<or> (\<exists>n. (n, Some a) \<in> H)) \<longrightarrow>
        (\<exists>b. rf_adopted f' = Some b \<and> e_ballot a \<le> e_ballot b)) \<and>
     (\<forall>b. rf_adopted f' = Some b \<longrightarrow> rf_adopted f = Some b \<or> (\<exists>n. (n, Some b) \<in> H))"

lemma adopts_max_refl: "adopts_max f {} f"
  by (simp add: adopts_max_def)

lemma consider_accepted_max:
  obtains b where "consider_accepted m e = Some b" "e_ballot e \<le> e_ballot b" "b = e \<or> m = Some b"
    "\<forall>a. m = Some a \<longrightarrow> e_ballot a \<le> e_ballot b"
  by (cases m; cases "e_ballot (the m) < e_ballot e") (auto simp: consider_accepted_def less_imp_le)

lemma adopts_max_step:
  assumes "fold_step voting reply f f'"
  shows "adopts_max f (heard [(n, reply)]) f'"
proof (cases "\<exists>s e. reply = Some (PrepPromised s (Some e))")
  case True
  then obtain s e where reply: "reply = Some (PrepPromised s (Some e))" by blast
  then have heard: "heard [(n, reply)] = {(n, Some e)}" by (auto simp: heard_def)
  have adopted: "rf_adopted f' = consider_accepted (rf_adopted f) e"
    using assms by (simp add: reply fold_step_def)
  obtain b where b: "consider_accepted (rf_adopted f) e = Some b" "e_ballot e \<le> e_ballot b" "b = e \<or> rf_adopted f = Some b"
    "\<forall>a. rf_adopted f = Some a \<longrightarrow> e_ballot a \<le> e_ballot b"
    by (rule consider_accepted_max)
  show ?thesis unfolding adopts_max_def heard adopted b(1) using b(2-4) by auto
next
  case False
  then have "\<forall>m a. (m, Some a) \<notin> heard [(n, reply)]" by (auto simp: heard_def)
  moreover have "rf_adopted f' = rf_adopted f"
    using assms False by (cases reply; cases "the reply") (auto simp: fold_step_def split: option.splits)
  ultimately show ?thesis by (simp add: adopts_max_def)
qed

lemma adopts_max_trans:
  assumes "adopts_max f H f1" "adopts_max f1 H' f2"
  shows "adopts_max f (H \<union> H') f2"
  unfolding adopts_max_def
proof (intro conjI allI impI)
  fix a assume "rf_adopted f = Some a \<or> (\<exists>n. (n, Some a) \<in> H \<union> H')"
  then consider "rf_adopted f = Some a \<or> (\<exists>n. (n, Some a) \<in> H)" | "\<exists>n. (n, Some a) \<in> H'" by blast
  then show "\<exists>b. rf_adopted f2 = Some b \<and> e_ballot a \<le> e_ballot b"
  proof cases
    case 1
    then obtain b where b: "rf_adopted f1 = Some b" "e_ballot a \<le> e_ballot b"
      using assms(1) unfolding adopts_max_def by blast
    then obtain c where "rf_adopted f2 = Some c" "e_ballot b \<le> e_ballot c"
      using assms(2) unfolding adopts_max_def by blast
    then show ?thesis using b(2) by fastforce
  next
    case 2
    then show ?thesis using assms(2) unfolding adopts_max_def by blast
  qed
next
  fix b assume "rf_adopted f2 = Some b"
  then show "rf_adopted f = Some b \<or> (\<exists>n. (n, Some b) \<in> H \<union> H')"
    using assms unfolding adopts_max_def by blast
qed

text \<open>A phase folds the answers up to some point.\<close>

lemma prepare_loop_heard:
  assumes "prepare_loop q (self \<in> set ms) lr (tag_answers ms self answers) f = Some f'"
    and "distinct (map fst answers)" and "\<forall>reply. (self, reply) \<in> set answers \<longrightarrow> reply = Some lr"
  obtains used rest where "answers = used @ rest" "rf_accepted f' = rf_accepted f + card (promisers ms used)"
    "adopts_max f (heard used) f'"
proof -
  have "\<exists>used rest. answers = used @ rest \<and> rf_accepted f' = rf_accepted f + card (promisers ms used) \<and>
      adopts_max f (heard used) f'"
    using assms
  proof (induction answers arbitrary: f)
    case Nil
    then show ?case by (simp add: tag_answers_def adopts_max_refl promisers_def heard_def)
  next
    case (Cons x answers)
    obtain n reply where x: "x = (n, reply)" by fastforce
    let ?t = "if n = self then TLocal else TRemote (n \<in> set ms) reply"
    obtain f1 where f1: "fold_prepare_tagged (self \<in> set ms) lr ?t f = Some f1"
      using Cons.prems(1) by (auto simp: x tag_answers_def split: option.splits)
    have step: "fold_step (n \<in> set ms) reply f f1"
      by (rule fold_step_tagged [OF f1]) (use Cons.prems(3) x in auto)
    have one: "rf_accepted f1 = rf_accepted f + card (promisers ms [(n, reply)])"
      using step promisers_Cons [of n "[]" ms reply]
      by (auto simp: fold_step_def promisers_def heard_def split: option.splits px_prepare_reply.splits)
    note adopt = adopts_max_step [OF step, of n]
    show ?case
    proof (cases "prepare_loop q (self \<in> set ms) lr (tag_answers ms self answers) f1 = Some f'")
      case True
      then obtain used rest where ih: "answers = used @ rest"
        "rf_accepted f' = rf_accepted f1 + card (promisers ms used)" "adopts_max f1 (heard used) f'"
        using Cons.IH [of f1] Cons.prems(2,3) by auto
      have "n \<notin> fst ` set used" "n \<notin> fst ` set []" using Cons.prems(2) ih(1) x by auto
      note cards = this [THEN promisers_Cons, of ms reply]
      have "rf_accepted f' = rf_accepted f + card (promisers ms (x # used))"
        using ih(2) one cards by (simp add: x promisers_def heard_def)
      moreover have "heard (x # used) = heard [x] \<union> heard used" by (auto simp: heard_def)
      ultimately show ?thesis
        using ih(1) adopts_max_trans [OF adopt ih(3)] x by (metis append_Cons)
    next
      case False
      then have "f' = f1" using Cons.prems(1) f1 by (auto simp: x tag_answers_def split: if_splits)
      then show ?thesis using one adopt x by (intro exI [of _ "[x]"] exI [of _ answers]) simp
    qed
  qed
  then show thesis using that by blast
qed

section \<open>The invariant of a run\<close>

abbreviation acc_of :: "'e paxos_state \<Rightarrow> node_id \<Rightarrow> px_acceptor" where
  "acc_of st n \<equiv> re_acceptor (ps_members st n)"

definition inv_acceptors :: "'e paxos_state \<Rightarrow> bool" where
  "inv_acceptors st \<longleftrightarrow> (\<forall>n. acceptor_inv (acc_of st n) \<and> acc_trim (acc_of st n) = 0)"

text \<open>What an acceptor holds for a slot is the last entry it accepted, of the highest ballot.\<close>

definition inv_accepts :: "'e paxos_state \<Rightarrow> bool" where
  "inv_accepts st \<longleftrightarrow>
     (\<forall>n e. (n, e) \<in> ps_accepts st \<longrightarrow>
        (\<exists>k. (k, e) \<in> ps_proposals st) \<and>
        (\<exists>a. accepted_at (acc_of st n) (e_slot e) = Some a \<and> e_ballot e \<le> e_ballot a)) \<and>
     (\<forall>n s a. accepted_at (acc_of st n) s = Some a \<longrightarrow> (n, a) \<in> ps_accepts st)"

text \<open>A promise binds its member, reports the last entry below it, and is given once per ballot.\<close>

definition promise_ok :: "(nat \<Rightarrow> prepare_call) \<Rightarrow> 'e paxos_state \<Rightarrow> nat \<Rightarrow> node_id \<Rightarrow> px_log_entry option \<Rightarrow> bool" where
  "promise_ok calls st k n acc \<longleftrightarrow>
     (\<exists>p. promised_at (acc_of st n) (pc_slot (calls k)) = Some p \<and> pc_ballot (calls k) \<le> p) \<and>
     (\<forall>e. (n, e) \<in> ps_accepts st \<longrightarrow> e_slot e = pc_slot (calls k) \<longrightarrow> e_ballot e < pc_ballot (calls k) \<longrightarrow>
        (\<exists>a. acc = Some a \<and> e_ballot e \<le> e_ballot a)) \<and>
     (\<forall>a. acc = Some a \<longrightarrow>
        (n, a) \<in> ps_accepts st \<and> e_slot a = pc_slot (calls k) \<and> e_ballot a < pc_ballot (calls k))"

definition inv_promises :: "(nat \<Rightarrow> prepare_call) \<Rightarrow> 'e paxos_state \<Rightarrow> bool" where
  "inv_promises calls st \<longleftrightarrow>
     (\<forall>k n acc. (k, n, acc) \<in> ps_promises st \<longrightarrow>
        promise_ok calls st k n acc \<and>
        (\<forall>k' acc'. (k', n, acc') \<in> ps_promises st \<longrightarrow> pc_slot (calls k') = pc_slot (calls k) \<longrightarrow>
           pc_ballot (calls k') = pc_ballot (calls k) \<longrightarrow> k' = k))"

text \<open>A proposal rests on the promises of a quorum, and when any of them reported an entry it has the
  payload of a reported entry that is at least as high.\<close>

definition proposal_ok ::
    "node_id list \<Rightarrow> (nat \<Rightarrow> prepare_call) \<Rightarrow> 'e paxos_state \<Rightarrow> nat \<Rightarrow> px_log_entry \<Rightarrow> bool" where
  "proposal_ok ms calls st k e \<longleftrightarrow>
     e_slot e = pc_slot (calls k) \<and> e_ballot e = pc_ballot (calls k) \<and>
     (\<exists>Q \<subseteq> set ms. group_quorum (length ms) \<le> card Q \<and>
       (\<forall>n \<in> Q. \<exists>acc. (k, n, acc) \<in> ps_promises st \<and>
          (\<forall>a. acc = Some a \<longrightarrow>
             (\<exists>n' a'. (k, n', Some a') \<in> ps_promises st \<and> e_ballot a \<le> e_ballot a' \<and> e_payload e = e_payload a'))))"

definition inv_proposals :: "node_id list \<Rightarrow> (nat \<Rightarrow> prepare_call) \<Rightarrow> 'e paxos_state \<Rightarrow> bool" where
  "inv_proposals ms calls st \<longleftrightarrow>
     (\<forall>k e. (k, e) \<in> ps_proposals st \<longrightarrow>
        proposal_ok ms calls st k e \<and> (\<forall>e'. (k, e') \<in> ps_proposals st \<longrightarrow> e' = e))"

definition paxos_inv :: "node_id list \<Rightarrow> (nat \<Rightarrow> prepare_call) \<Rightarrow> 'e paxos_state \<Rightarrow> bool" where
  "paxos_inv ms calls st \<longleftrightarrow>
     inv_acceptors st \<and> inv_accepts st \<and> inv_promises calls st \<and> inv_proposals ms calls st"

lemmas paxos_inv_defs = paxos_inv_def inv_acceptors_def inv_accepts_def inv_promises_def inv_proposals_def

text \<open>The two consensus handlers, as they change the views of the acceptor.\<close>

lemma on_prepare_cases:
  assumes "on_prepare ok now s b t r = (reply, r')" and "acc_trim (re_acceptor r) = 0"
  obtains (refused) "promised_at (re_acceptor r') = promised_at (re_acceptor r)"
      "\<forall>s' acc. reply \<noteq> PrepPromised s' acc"
  | (granted) "reply = PrepPromised s (accepted_at (re_acceptor r) s)" "grants (re_acceptor r) s b"
      "promised_at (re_acceptor r') = (promised_at (re_acceptor r))(s := Some b)"
proof (cases "t < re_term_atomic r")
  case True
  then show thesis using assms(1) refused by (auto simp: on_prepare_def)
next
  case False
  let ?a = "re_acceptor r"
  have "reply = fst (prepare s b ?a)" "re_acceptor r' = snd (prepare s b ?a)"
    using assms(1) False
    by (auto simp: on_prepare_def Let_def case_prod_beta wal_append_sel split: px_prepare_reply.splits if_splits)
  then show thesis
    using granted refused by (cases "grants ?a s b") (simp_all add: prepare_reply prepare_promised_at)
qed

lemma on_prepare_frame:
  assumes "on_prepare ok now s b t r = (reply, r')"
  shows "accepted_at (re_acceptor r') = accepted_at (re_acceptor r)" "acc_trim (re_acceptor r') = acc_trim (re_acceptor r)"
    "acceptor_inv (re_acceptor r) \<Longrightarrow> acceptor_inv (re_acceptor r')"
  using assms
  by (auto simp: on_prepare_def Let_def case_prod_beta prepare_accepted_at inv_prepare
      split: px_prepare_reply.splits if_splits)

lemma on_accept_inner_cases:
  assumes "on_accept_inner now e r = (reply, r')"
  obtains (refused) "promised_at (re_acceptor r') = promised_at (re_acceptor r)"
      "accepted_at (re_acceptor r') = accepted_at (re_acceptor r)" "\<forall>s b. reply \<noteq> AccAccepted s b"
  | (accepted) "reply = AccAccepted (e_slot e) (e_ballot e)" "admits (re_acceptor r) e"
      "promised_at (re_acceptor r') = promised_at (re_acceptor r) \<or>
       promise_floor (re_acceptor r) (e_slot e) < e_ballot e \<and>
       promised_at (re_acceptor r') = (promised_at (re_acceptor r))(e_slot e := Some (e_ballot e))"
      "accepted_at (re_acceptor r') = (accepted_at (re_acceptor r))(e_slot e := Some e)"
proof (cases "e_term e < re_term_atomic r")
  case True
  then show thesis using assms(1) refused by (auto simp: on_accept_inner_def)
next
  case False
  let ?a = "re_acceptor r"
  have "reply = fst (accept e ?a)" "re_acceptor r' = snd (accept e ?a)"
    using assms(1) False by (auto simp: on_accept_inner_def Let_def case_prod_beta split: if_splits)
  then show thesis
    using accepted refused by (cases "admits ?a e") (simp_all add: accept_reply accept_promised_at accept_accepted_at)
qed

lemma on_accept_inner_frame:
  assumes "on_accept_inner now e r = (reply, r')"
  shows "acc_trim (re_acceptor r') = acc_trim (re_acceptor r)"
    "acceptor_inv (re_acceptor r) \<Longrightarrow> acceptor_inv (re_acceptor r')"
  using assms by (auto simp: on_accept_inner_def Let_def case_prod_beta inv_accept split: if_splits)

lemma grants_above:
  "promise_ok calls st k n acc \<Longrightarrow> grants (acc_of st n) (pc_slot (calls k)) b \<Longrightarrow> pc_ballot (calls k) < b"
  by (auto simp: promise_ok_def grants_def)

lemma admits_above:
  "promise_ok calls st k n acc \<Longrightarrow> admits (acc_of st n) e \<Longrightarrow> e_slot e = pc_slot (calls k) \<Longrightarrow>
   \<not> e_ballot e < pc_ballot (calls k)"
  by (auto simp: promise_ok_def admits_def)

lemma promise_reports:
  "promise_ok calls st k n acc \<Longrightarrow> (n, c) \<in> ps_accepts st \<Longrightarrow> e_slot c = pc_slot (calls k) \<Longrightarrow>
   e_ballot c < pc_ballot (calls k) \<Longrightarrow> \<exists>a. acc = Some a \<and> e_ballot c \<le> e_ballot a"
  unfolding promise_ok_def by blast

lemma proposal_ok_mono:
  "proposal_ok ms calls st k e \<Longrightarrow> ps_promises st \<subseteq> ps_promises st' \<Longrightarrow> proposal_ok ms calls st' k e"
  unfolding proposal_ok_def by (meson subsetD)

lemma accepted_below_grant:
  assumes "acceptor_inv a" "accepted_at a s = Some e" "grants a s b" "ballot_zero < b"
  shows "e_ballot e < b"
proof -
  have "promise_floor a s < b" using assms(3,4) by (auto simp: grants_def promise_floor_def split: option.splits)
  then show ?thesis using inv_accepted_ballot [OF assms(1,2)] by simp
qed

lemma paxos_inv_prepare:
  assumes inv: "paxos_inv ms calls st" and pos: "ballot_zero < pc_ballot (calls k)"
    and run: "on_prepare ok now (pc_slot (calls k)) (pc_ballot (calls k)) t (ps_members st n) = (reply, r)"
  shows "paxos_inv ms calls (st\<lparr>ps_members := (ps_members st)(n := r),
      ps_promises := ps_promises st \<union> {(k, n, acc) | acc. reply = PrepPromised (pc_slot (calls k)) acc}\<rparr>)"
    (is "paxos_inv ms calls ?st'")
proof -
  let ?a = "acc_of st n" and ?s = "pc_slot (calls k)" and ?b = "pc_ballot (calls k)"
  note frame = on_prepare_frame [OF run]
  have a: "acceptor_inv ?a" "acc_trim ?a = 0" using inv by (simp_all add: paxos_inv_defs)
  have accepted: "accepted_at (acc_of ?st' m) = accepted_at (acc_of st m)" for m using frame(1) by simp
  have "inv_acceptors ?st'" using inv frame(2,3) by (simp add: paxos_inv_defs)
  moreover have "inv_accepts ?st'" using inv accepted by (simp add: paxos_inv_defs)
  moreover have "inv_proposals ms calls ?st'"
    using inv proposal_ok_mono [of ms calls st _ _ ?st'] by (auto simp: paxos_inv_defs)
  moreover have "inv_promises calls ?st'"
    using run a(2)
  proof (cases rule: on_prepare_cases)
    case refused
    then have "ps_promises ?st' = ps_promises st" by auto
    moreover have "promise_ok calls ?st' k' m acc \<longleftrightarrow> promise_ok calls st k' m acc" for k' m acc
      using refused(1) by (simp add: promise_ok_def)
    ultimately show ?thesis using inv unfolding paxos_inv_def inv_promises_def by blast
  next
    case granted
    have promises: "ps_promises ?st' = insert (k, n, accepted_at ?a ?s) (ps_promises st)"
      using granted(1) by auto
    have above: "pc_ballot (calls k') < ?b"
      if "(k', n, acc) \<in> ps_promises st" "pc_slot (calls k') = ?s" for k' acc
      using that granted(2) inv grants_above [of calls st k' n acc ?b] by (simp add: paxos_inv_defs)
    have old: "promise_ok calls ?st' k' m acc" if "(k', m, acc) \<in> ps_promises st" for k' m acc
    proof -
      have "promise_ok calls st k' m acc" using inv that by (auto simp: paxos_inv_defs)
      then show ?thesis using granted(3) above [of k' acc] that by (auto simp: promise_ok_def less_imp_le)
    qed
    have "e_slot e = ?s \<and> e_ballot e < ?b \<and> (n, e) \<in> ps_accepts st" if "accepted_at ?a ?s = Some e" for e
      using that inv inv_accepted_slot [OF a(1) that] accepted_below_grant [OF a(1) that granted(2) pos]
      by (auto simp: paxos_inv_defs)
    moreover have "\<exists>a. accepted_at ?a ?s = Some a \<and> e_ballot e \<le> e_ballot a"
      if "(n, e) \<in> ps_accepts st" "e_slot e = ?s" for e
      using that inv by (fastforce simp: paxos_inv_defs)
    ultimately have new: "promise_ok calls ?st' k n (accepted_at ?a ?s)"
      using granted(3) by (auto simp: promise_ok_def)
    have unique: "k' = k''"
      if "(k', m, acc) \<in> ps_promises st" "(k'', m, acc') \<in> ps_promises st"
        "pc_slot (calls k') = pc_slot (calls k'')" "pc_ballot (calls k') = pc_ballot (calls k'')" for k' k'' m acc acc'
      using that inv unfolding paxos_inv_def inv_promises_def by blast
    have differs: False
      if "(k', n, acc) \<in> ps_promises st" "pc_slot (calls k') = ?s" "pc_ballot (calls k') = ?b" for k' acc
      using above [OF that(1,2)] that(3) by simp
    show ?thesis unfolding inv_promises_def promises
      using old new by (auto dest: differs differs [OF _ sym sym] intro: unique)
  qed
  ultimately show ?thesis by (simp add: paxos_inv_def)
qed

lemma accepted_below_admitted:
  assumes "acceptor_inv a" "accepted_at a (e_slot e) = Some e0" "admits a e"
  shows "e_ballot e0 \<le> e_ballot e"
proof -
  have "promise_floor a (e_slot e) \<le> e_ballot e"
    using assms(3) by (auto simp: admits_def promise_floor_def split: option.splits)
  then show ?thesis using inv_accepted_ballot [OF assms(1,2)] by simp
qed

lemma paxos_inv_accept:
  assumes inv: "paxos_inv ms calls st" and proposed: "(k, e) \<in> ps_proposals st"
    and run: "on_accept_inner now e (ps_members st n) = (reply, r)"
  shows "paxos_inv ms calls (st\<lparr>ps_members := (ps_members st)(n := r),
      ps_accepts := ps_accepts st \<union> {(n, e) | s b. reply = AccAccepted s b}\<rparr>)"
    (is "paxos_inv ms calls ?st'")
proof -
  let ?a = "acc_of st n"
  note frame = on_accept_inner_frame [OF run]
  have a: "acceptor_inv ?a" using inv by (simp add: paxos_inv_defs)
  have "inv_acceptors ?st'" using inv frame by (simp add: paxos_inv_defs)
  moreover have "inv_proposals ms calls ?st'"
    using inv proposal_ok_mono [of ms calls st _ _ ?st'] by (auto simp: paxos_inv_defs)
  moreover have "inv_accepts ?st' \<and> inv_promises calls ?st'"
    using run
  proof (cases rule: on_accept_inner_cases)
    case refused
    have "ps_accepts ?st' = ps_accepts st" using refused(3) by auto
    then have "promise_ok calls ?st' k' m acc \<longleftrightarrow> promise_ok calls st k' m acc" for k' m acc
      using refused(1) by (simp add: promise_ok_def)
    then show ?thesis using inv refused by (auto simp: paxos_inv_defs)
  next
    case accepted
    have accepts: "ps_accepts ?st' = insert (n, e) (ps_accepts st)" using accepted(1) by auto
    have held: "\<exists>k. (k, e0) \<in> ps_proposals st" "\<exists>a. accepted_at (acc_of st m) (e_slot e0) = Some a \<and> e_ballot e0 \<le> e_ballot a"
      if "(m, e0) \<in> ps_accepts st" for m e0
      using that inv by (auto simp: paxos_inv_defs)
    have below: "e_ballot e0 \<le> e_ballot e" if "(n, e0) \<in> ps_accepts st" "e_slot e0 = e_slot e" for e0
      using held(2) [OF that(1)] that(2) accepted_below_admitted [OF a _ accepted(2)] by (metis order_trans)
    have "(m, b) \<in> ps_accepts ?st'" if "accepted_at (acc_of ?st' m) s = Some b" for m s b
      using that inv accepted(4) unfolding accepts by (auto simp: paxos_inv_defs split: if_splits)
    moreover have "\<exists>b. accepted_at (acc_of ?st' m) (e_slot e0) = Some b \<and> e_ballot e0 \<le> e_ballot b"
      if "(m, e0) \<in> ps_accepts ?st'" for m e0
      using that below held(2) [of m e0] accepted(4) unfolding accepts by auto
    moreover have "\<exists>k. (k, e0) \<in> ps_proposals st" if "(m, e0) \<in> ps_accepts ?st'" for m e0
      using that held(1) proposed unfolding accepts by auto
    ultimately have "inv_accepts ?st'" unfolding inv_accepts_def by simp
    moreover have "promise_ok calls ?st' k' m acc" if "promise_ok calls st k' m acc" for k' m acc
    proof -
      have "\<exists>p. promised_at (acc_of ?st' m) (pc_slot (calls k')) = Some p \<and> pc_ballot (calls k') \<le> p"
        using that accepted(3) by (auto simp: promise_ok_def promise_floor_def)
      moreover have "\<not> e_ballot e < pc_ballot (calls k')" if "m = n" "e_slot e = pc_slot (calls k')"
        using that admits_above [OF _ accepted(2)] \<open>promise_ok calls st k' m acc\<close> by blast
      ultimately show ?thesis using that unfolding promise_ok_def accepts by auto
    qed
    then have "inv_promises calls ?st'" using inv unfolding paxos_inv_def inv_promises_def by simp
    ultimately show ?thesis by simp
  qed
  ultimately show ?thesis by (simp add: paxos_inv_def)
qed

lemma proposal_from_phase:
  assumes "distinct (map fst answers)" "\<forall>(n, acc) \<in> heard answers. (k, n, acc) \<in> ps_promises st"
    and "\<forall>reply. (pc_proposer (calls k), reply) \<in> set answers \<longrightarrow> reply = Some local_reply"
    and loop: "prepare_loop (group_quorum (length ms)) (pc_proposer (calls k) \<in> set ms) local_reply
      (tag_answers ms (pc_proposer (calls k)) answers) fold_new = Some f"
    and proceed: "finish_prepare (group_quorum (length ms)) (pc_payload (calls k)) (call_entry (calls k)) f = PaProceed e foreign"
  shows "proposal_ok ms calls st k (e\<lparr>e_term := t\<rparr>)"
proof -
  note fin = finish_prepare_proceed [OF proceed]
  obtain used rest where used: "answers = used @ rest"
    "rf_accepted f = rf_accepted fold_new + card (promisers ms used)" "adopts_max fold_new (heard used) f"
    by (rule prepare_loop_heard [OF loop assms(1,3)])
  have promises: "(k, n, acc) \<in> ps_promises st" if "(n, acc) \<in> heard used" for n acc
    using that assms(2) used(1) by (fastforce simp: heard_def)
  have adopted: "\<exists>n' a'. (k, n', Some a') \<in> ps_promises st \<and> e_ballot a \<le> e_ballot a' \<and> e_payload e = e_payload a'"
    if h: "(n, Some a) \<in> heard used" for n a
  proof -
    obtain b where b: "rf_adopted f = Some b" "e_ballot a \<le> e_ballot b"
      using used(3) h unfolding adopts_max_def by blast
    moreover have "rf_adopted fold_new = None" by (simp add: fold_new_def)
    ultimately obtain n' where "(n', Some b) \<in> heard used" using used(3) unfolding adopts_max_def by force
    then show ?thesis using b promises fin(4) by blast
  qed
  have "group_quorum (length ms) \<le> card (promisers ms used)" using fin(1) used(2) by (simp add: fold_new_def)
  moreover have "\<exists>acc. (k, n, acc) \<in> ps_promises st \<and> (\<forall>a. acc = Some a \<longrightarrow>
      (\<exists>n' a'. (k, n', Some a') \<in> ps_promises st \<and> e_ballot a \<le> e_ballot a' \<and> e_payload e = e_payload a'))"
    if "n \<in> promisers ms used" for n
    using that promises adopted unfolding promisers_def by blast
  moreover have "promisers ms used \<subseteq> set ms" by (auto simp: promisers_def)
  ultimately show ?thesis
    using fin(2,3) unfolding proposal_ok_def by (auto simp: call_entry_def intro!: exI [of _ "promisers ms used"])
qed

lemma paxos_inv_propose:
  assumes inv: "paxos_inv ms calls st" and fresh: "\<forall>e'. (k, e') \<notin> ps_proposals st"
    and ok: "proposal_ok ms calls st k e"
  shows "paxos_inv ms calls (st\<lparr>ps_proposals := insert (k, e) (ps_proposals st)\<rparr>)" (is "paxos_inv ms calls ?st'")
proof -
  have "promise_ok calls ?st' k' m acc \<longleftrightarrow> promise_ok calls st k' m acc" for k' m acc
    by (simp add: promise_ok_def)
  moreover have "proposal_ok ms calls ?st' k' e' \<longleftrightarrow> proposal_ok ms calls st k' e'" for k' e'
    by (simp add: proposal_ok_def)
  ultimately have "inv_promises calls ?st'" "inv_proposals ms calls ?st'"
    using inv fresh ok by (auto simp: paxos_inv_def inv_promises_def inv_proposals_def)
  moreover have "inv_accepts ?st'" using inv unfolding paxos_inv_def inv_accepts_def by simp blast
  moreover have "inv_acceptors ?st'" using inv by (simp add: paxos_inv_defs)
  ultimately show ?thesis by (simp add: paxos_inv_def)
qed

lemma paxos_inv_elsewhere:
  assumes inv: "paxos_inv ms calls st" and same: "re_acceptor r = acc_of st n"
  shows "paxos_inv ms calls (st\<lparr>ps_members := (ps_members st)(n := r)\<rparr>)" (is "paxos_inv ms calls ?st'")
proof -
  have "acc_of ?st' m = acc_of st m" for m using same by simp
  then show ?thesis using inv by (simp add: paxos_inv_defs promise_ok_def proposal_ok_def)
qed

lemma paxos_run_inv: "paxos_run ms calls st \<Longrightarrow> paxos_inv ms calls st"
proof (induction rule: paxos_run.induct)
  case (start rs)
  then show ?case by (simp add: paxos_inv_defs acceptor_new_def accepted_at_def acceptor_inv_def)
next
  case (propose st k answers local_reply f e foreign t)
  show ?case
    using propose.IH propose.hyps(2) proposal_from_phase [where ms = ms and calls = calls and k = k, OF propose.hyps(3-7)] by (rule paxos_inv_propose)
next
  case (accept st k e now n reply r)
  show ?case by (rule paxos_inv_accept [OF accept.IH accept.hyps(2,3)])
qed (auto intro: paxos_inv_prepare paxos_inv_elsewhere)

section \<open>Agreement\<close>

definition ballot_rank :: "px_ballot \<Rightarrow> nat" where
  "ballot_rank b = unat (bal_round b) * 2 ^ 64 + unat (bal_leader b)"

lemma ballot_rank_less: "b < b' \<Longrightarrow> ballot_rank b < ballot_rank b'"
proof (cases b; cases b')
  fix r l r' l' assume "b < b'" and [simp]: "b = PxBallot r l" "b' = PxBallot r' l'"
  then consider "unat r < unat r'" | "r = r'" "unat l < unat l'" by (auto simp: word_less_nat_alt)
  then show ?thesis
  proof cases
    case 1
    then have "Suc (unat r) * 2 ^ 64 \<le> unat r' * 2 ^ 64" by (intro mult_le_mono1) simp
    moreover have "unat l < 2 ^ 64" using unat_bound [of l] by simp
    ultimately show ?thesis by (simp add: ballot_rank_def)
  qed (simp add: ballot_rank_def)
qed

lemma accepted_is_proposed:
  "paxos_inv ms calls st \<Longrightarrow> (n, e) \<in> ps_accepts st \<Longrightarrow> \<exists>k. (k, e) \<in> ps_proposals st"
  by (simp add: paxos_inv_defs)

lemma proposal_quorum:
  assumes "proposal_ok ms calls st k e"
  obtains Q where "Q \<subseteq> set ms" "group_quorum (length ms) \<le> card Q"
    "\<forall>n \<in> Q. \<exists>acc. (k, n, acc) \<in> ps_promises st \<and> (\<forall>a. acc = Some a \<longrightarrow>
      (\<exists>n' a'. (k, n', Some a') \<in> ps_promises st \<and> e_ballot a \<le> e_ballot a' \<and> e_payload e = e_payload a'))"
  using assms unfolding proposal_ok_def by (elim conjE exE) (rule that; assumption)

lemma proposals_of_ballot:
  assumes inv: "paxos_inv ms calls st" and "(k, e) \<in> ps_proposals st" "(k', e') \<in> ps_proposals st"
    and "e_slot e = e_slot e'" "e_ballot e = e_ballot e'"
  shows "e = e'"
proof -
  have ok: "proposal_ok ms calls st k e" "proposal_ok ms calls st k' e'"
    using inv assms(2,3) by (auto simp: paxos_inv_def inv_proposals_def)
  obtain Q where Q: "Q \<subseteq> set ms" "group_quorum (length ms) \<le> card Q" "\<forall>n \<in> Q. \<exists>acc. (k, n, acc) \<in> ps_promises st"
    by (rule proposal_quorum [OF ok(1)]) fast
  obtain Q' where Q': "Q' \<subseteq> set ms" "group_quorum (length ms) \<le> card Q'" "\<forall>n \<in> Q'. \<exists>acc. (k', n, acc) \<in> ps_promises st"
    by (rule proposal_quorum [OF ok(2)]) fast
  obtain n where "n \<in> Q" "n \<in> Q'" by (rule group.quorums_meet [OF Q(1) Q'(1) Q(2) Q'(2)])
  then obtain acc acc' where promised: "(k, n, acc) \<in> ps_promises st" "(k', n, acc') \<in> ps_promises st"
    using Q(3) Q'(3) by blast
  have "pc_slot (calls k') = pc_slot (calls k)" "pc_ballot (calls k') = pc_ballot (calls k)"
    using ok assms(4,5) by (simp_all add: proposal_ok_def)
  with promised have "k' = k" using inv unfolding paxos_inv_def inv_promises_def by blast
  then show ?thesis using inv assms(2,3) unfolding paxos_inv_def inv_proposals_def by blast
qed

text \<open>Once a value is chosen in a ballot, every proposal from that ballot on is for it.\<close>

lemma proposals_after_choice:
  assumes inv: "paxos_inv ms calls st" and chosen: "chosen_value ms st s b v"
  shows "(k, e) \<in> ps_proposals st \<Longrightarrow> e_slot e = s \<Longrightarrow> b \<le> e_ballot e \<Longrightarrow> e_payload e = v"
proof (induction "ballot_rank (e_ballot e)" arbitrary: k e rule: less_induct)
  case less
  obtain C where C: "C \<subseteq> set ms" "group_quorum (length ms) \<le> card C"
    and acc: "\<forall>n \<in> C. \<exists>c. (n, c) \<in> ps_accepts st \<and> e_slot c = s \<and> e_ballot c = b \<and> e_payload c = v"
    using chosen unfolding chosen_value_def by blast
  have ok: "proposal_ok ms calls st k e" using inv less.prems(1) by (auto simp: paxos_inv_def inv_proposals_def)
  then obtain Q where Q: "Q \<subseteq> set ms" "group_quorum (length ms) \<le> card Q"
    and prom: "\<forall>n \<in> Q. \<exists>acc. (k, n, acc) \<in> ps_promises st \<and> (\<forall>a. acc = Some a \<longrightarrow>
      (\<exists>n' a'. (k, n', Some a') \<in> ps_promises st \<and> e_ballot a \<le> e_ballot a' \<and> e_payload e = e_payload a'))"
    by (rule proposal_quorum)
  obtain n where n: "n \<in> C" "n \<in> Q" by (rule group.quorums_meet [OF C(1) Q(1) C(2) Q(2)])
  obtain c where c: "(n, c) \<in> ps_accepts st" "e_slot c = s" "e_ballot c = b" "e_payload c = v" using acc n(1) by blast
  show ?case
  proof (cases "b = e_ballot e")
    case True
    obtain k' where "(k', c) \<in> ps_proposals st" using accepted_is_proposed [OF inv c(1)] by blast
    then show ?thesis using proposals_of_ballot [OF inv less.prems(1), of k' c] c less.prems(2) True by simp
  next
    case False
    then have "b < e_ballot e" using less.prems(3) by simp
    obtain m where m: "(k, n, m) \<in> ps_promises st" "\<forall>a. m = Some a \<longrightarrow>
        (\<exists>n' a'. (k, n', Some a') \<in> ps_promises st \<and> e_ballot a \<le> e_ballot a' \<and> e_payload e = e_payload a')"
      using prom n(2) by blast
    have call: "pc_slot (calls k) = s" "pc_ballot (calls k) = e_ballot e" using ok less.prems(2) by (simp_all add: proposal_ok_def)
    have "promise_ok calls st k n m" using inv m(1) by (auto simp: paxos_inv_def inv_promises_def)
    from promise_reports [OF this c(1)] have "\<exists>a. m = Some a \<and> e_ballot c \<le> e_ballot a"
      using c(2,3) \<open>b < e_ballot e\<close> call by simp
    then obtain a where a: "m = Some a" "b \<le> e_ballot a" using c(3) by blast
    then obtain n' a' where a': "(k, n', Some a') \<in> ps_promises st" "e_ballot a \<le> e_ballot a'" "e_payload e = e_payload a'"
      using m(2) by blast
    have "promise_ok calls st k n' (Some a')" using inv a'(1) by (auto simp: paxos_inv_def inv_promises_def)
    then have low: "(n', a') \<in> ps_accepts st" "e_slot a' = s" "e_ballot a' < e_ballot e"
      using call by (simp_all add: promise_ok_def)
    obtain k' where "(k', a') \<in> ps_proposals st" using accepted_is_proposed [OF inv low(1)] by blast
    then have "e_payload a' = v" using less.hyps [OF ballot_rank_less [OF low(3)]] low(2) order_trans [OF a(2) a'(2)] by simp
    then show ?thesis using a'(3) by simp
  qed
qed

text \<open>C1 Classic Paxos agrees. In every run of a group in which each entry a member is asked to
  accept was proposed by a prepare phase that heard a quorum, whatever phases run concurrently, with
  whatever ballots, and whatever else the members do, no two values are chosen for one slot.\<close>

theorem classic_paxos_agreement:
  assumes "paxos_run ms calls st" and "chosen_value ms st s b v" and "chosen_value ms st s b' v'"
  shows "v = v'"
proof -
  note inv = paxos_run_inv [OF assms(1)]
  have chosen: "\<exists>k e. (k, e) \<in> ps_proposals st \<and> e_slot e = s \<and> e_ballot e = c \<and> e_payload e = u"
    if h: "chosen_value ms st s c u" for c u
  proof -
    obtain Q where Q: "group_quorum (length ms) \<le> card Q"
      "\<forall>n \<in> Q. \<exists>e. (n, e) \<in> ps_accepts st \<and> e_slot e = s \<and> e_ballot e = c \<and> e_payload e = u"
      using h unfolding chosen_value_def by blast
    then obtain n where "n \<in> Q" by (fastforce simp: group_quorum_def)
    then show ?thesis using Q(2) accepted_is_proposed [OF inv] by blast
  qed
  show ?thesis
  proof (cases "b \<le> b'")
    case True
    then show ?thesis using chosen [OF assms(3)] proposals_after_choice [OF inv assms(2)] by blast
  next
    case False
    then show ?thesis using chosen [OF assms(2)] proposals_after_choice [OF inv assms(3)] by fastforce
  qed
qed

text \<open>A run of one phase: members 1 and 2 promise, the phase proposes its payload, both accept it.\<close>

definition demo_calls :: "nat \<Rightarrow> prepare_call" where
  "demo_calls k = \<lparr> pc_proposer = 1, pc_slot = 1, pc_ballot = PxBallot 1 1, pc_term = 1, pc_payload = [9] \<rparr>"

definition demo_promised :: "node_id \<Rightarrow> unit px_local_replica" where
  "demo_promised n = snd (on_prepare True 0 1 (PxBallot 1 1) 1 (member_start n 7 ()))"

definition demo_accepted :: "node_id \<Rightarrow> unit px_local_replica" where
  "demo_accepted n = snd (on_accept_inner 0 (call_entry (demo_calls 0)) (demo_promised n))"

lemma demo_prepare: "n \<in> {1, 2} \<Longrightarrow>
    on_prepare True 0 1 (PxBallot 1 1) 1 (member_start n 7 ()) = (PrepPromised 1 None, demo_promised n)"
  unfolding demo_promised_def prod_eq_iff fst_conv snd_conv by (elim insertE emptyE; hypsubst) (intro conjI refl; code_simp)+

lemma demo_accept: "n \<in> {1, 2} \<Longrightarrow>
    on_accept_inner 0 (call_entry (demo_calls 0)) (demo_promised n) = (AccAccepted 1 (PxBallot 1 1), demo_accepted n)"
  unfolding demo_accepted_def prod_eq_iff fst_conv snd_conv by (elim insertE emptyE; hypsubst) (intro conjI refl; code_simp)+

lemma run_promise:
  assumes "paxos_run ms calls st" "ballot_zero < pc_ballot (calls k)"
    and "on_prepare ok now (pc_slot (calls k)) (pc_ballot (calls k)) (pc_term (calls k)) (ps_members st n) =
      (PrepPromised (pc_slot (calls k)) acc, r)"
  shows "paxos_run ms calls (st\<lparr>ps_members := (ps_members st)(n := r), ps_promises := insert (k, n, acc) (ps_promises st)\<rparr>)"
  using paxos_run.prepare [OF assms] by simp

lemma run_accept:
  assumes "paxos_run ms calls st" "(k, e) \<in> ps_proposals st"
    and "on_accept_inner now e (ps_members st n) = (AccAccepted s b, r)"
  shows "paxos_run ms calls (st\<lparr>ps_members := (ps_members st)(n := r), ps_accepts := insert (n, e) (ps_accepts st)\<rparr>)"
  using paxos_run.accept [OF assms] by simp

lemma demo_run:
  obtains st :: "unit paxos_state" where "paxos_run [1, 2, 3] demo_calls st"
    "ps_accepts st = {(1, call_entry (demo_calls 0)), (2, call_entry (demo_calls 0))}"
proof -
  let ?e = "call_entry (demo_calls 0)" and ?ms = "[1, 2, 3] :: node_id list"
  let ?m0 = "\<lambda>n. member_start n 7 ()"
  let ?m1 = "?m0(1 := demo_promised 1)" let ?m2 = "?m1(2 := demo_promised 2)"
  let ?answers = "[(1, Some (PrepPromised 1 None)), (2, Some (PrepPromised 1 None))]"
  let ?fold = "fold_new\<lparr>rf_accepted := 2, rf_local_folded := True\<rparr>"
  have calls [simp]: "pc_slot (demo_calls 0) = 1" "pc_ballot (demo_calls 0) = PxBallot 1 1" "pc_term (demo_calls 0) = 1"
    "pc_proposer (demo_calls 0) = 1" by (simp_all add: demo_calls_def)
  have run: "paxos_run ?ms demo_calls \<lparr> ps_members = ?m0, ps_promises = {}, ps_proposals = {}, ps_accepts = {} \<rparr>"
    by (rule paxos_run.start) simp
  note run = run_promise [OF this, where k = 0 and n = 1 and ok = True and now = 0, simplified, OF demo_prepare, simplified]
  note run = run_promise [OF run, where k = 0 and n = 2 and ok = True and now = 0, simplified, OF demo_prepare, simplified]
  have "prepare_loop (group_quorum (length ?ms)) True (PrepPromised 1 None) (tag_answers ?ms 1 ?answers) fold_new = Some ?fold"
    by code_simp
  moreover have "finish_prepare (group_quorum (length ?ms)) (pc_payload (demo_calls 0)) ?e ?fold = PaProceed ?e False"
    by code_simp
  moreover have "heard ?answers = {(1, None), (2, None)}" by (auto simp: heard_def)
  ultimately have "paxos_run ?ms demo_calls \<lparr> ps_members = ?m2, ps_promises = {(0, 2, None), (0, 1, None)},
      ps_proposals = {(0, ?e\<lparr>e_term := 1\<rparr>)}, ps_accepts = {} \<rparr>"
    using paxos_run.propose [OF run, of 0 ?answers "PrepPromised 1 None" ?fold ?e False 1] by simp
  then have "paxos_run ?ms demo_calls \<lparr> ps_members = ?m2, ps_promises = {(0, 2, None), (0, 1, None)},
      ps_proposals = {(0, ?e)}, ps_accepts = {} \<rparr>"
    by (simp add: call_entry_def)
  note run = run_accept [OF this, where k = 0 and e = ?e and n = 1 and now = 0, simplified, OF demo_accept, simplified]
  note run = run_accept [OF run, where k = 0 and e = ?e and n = 2 and now = 0, simplified, OF demo_accept, simplified]
  show thesis by (rule that [OF run]) auto
qed

lemma classic_paxos_agreement_witness:
  "\<exists>st :: unit paxos_state. paxos_run [1, 2, 3] demo_calls st \<and>
     {v. \<exists>b. chosen_value [1, 2, 3] st 1 b v} = {[9]}"
proof -
  obtain st :: "unit paxos_state" where run: "paxos_run [1, 2, 3] demo_calls st"
    and accepts: "ps_accepts st = {(1, call_entry (demo_calls 0)), (2, call_entry (demo_calls 0))}"
    by (rule demo_run)
  have chosen: "chosen_value [1, 2, 3] st 1 (PxBallot 1 1) [9]"
    unfolding chosen_value_def
    by (rule exI [of _ "{1, 2}"]) (auto simp: accepts group_quorum_def call_entry_def demo_calls_def)
  then show ?thesis using run classic_paxos_agreement [OF run chosen] by blast
qed

end
