(* ===== verification/Lost_Choice.thy ===== *)
theory Lost_Choice
  imports Proposer
begin

text \<open>
  A run of three elections in which a value that was chosen and acknowledged is replaced, because
  leaders propose in new slots without a prepare phase and the ballots of such proposals are
  blind to the term.
\<close>

section \<open>A chosen value is replaced\<close>

definition lead_group :: "'e election_group \<Rightarrow> 'e px_group" where
  "lead_group g =
     \<lparr> pg_replica = eg_replica g, pg_next_slot = eg_next_slot g, pg_proposing_term = eg_proposing_term g,
       pg_membership_epoch = 0, pg_cached_quorum = 2, pg_force_classic = False, pg_wal_early_ack = False,
       pg_async_engine_apply = False, pg_leader_read_ready = False, pg_inflight = inflight_new 8 True \<rparr>"

text \<open>Member \<open>c\<close> of three becomes leader of term \<open>t\<close> with its own vote and the one of member \<open>v\<close>.\<close>

definition ask_vote ::
    "instant \<Rightarrow> u64 \<Rightarrow> 'e px_local_replica \<Rightarrow> 'e px_local_replica \<Rightarrow> 'e px_group \<times> 'e px_local_replica" where
  "ask_vote now t c v =
     (case handle_request_vote True now (vote_payload t c) v of
        (vote, v') \<Rightarrow>
          (lead_group (run_candidate_election now 2 [re_id v] [Some vote]
             \<lparr> eg_replica = c, eg_next_slot = 1, eg_handoff = None, eg_proposing_term = 0 \<rparr>), v'))"

definition elect ::
    "instant \<Rightarrow> u64 \<Rightarrow> 'e px_local_replica \<Rightarrow> 'e px_local_replica \<Rightarrow> 'e px_group \<times> 'e px_local_replica" where
  "elect now t c v = ask_vote now t (replica_step (RvCandidate True now t) c) v"

definition put_payload :: "u8 \<Rightarrow> bytes" where
  "put_payload v = encode_kv_payload [([7], Some [v])]"

text \<open>Term 1: member 3 leads with the vote of member 1 and accepts an entry that reaches nobody else.\<close>

definition scene1 :: "mem_kv px_group \<times> mem_kv px_local_replica" where
  "scene1 =
     (case elect 0 1 (member_start 3 7 []) (member_start 1 7 []) of
        (g3, m1) \<Rightarrow>
          (snd (run_accept_phase True 0 (base_entry 1 (put_payload 5) g3) 2
             [TLocal, TRemote True None, TRemote True None] g3), m1))"

text \<open>What a leader hears about an entry: its own reply, the one of a member, and nothing from the third.\<close>

definition member_answers :: "instant \<Rightarrow> 'e px_local_replica \<Rightarrow> px_log_entry \<Rightarrow> px_accept_reply tagged list" where
  "member_answers now m e = [TLocal, TRemote True (Some (fst (on_accept True now e m))), TRemote True None]"

text \<open>Term 2: member 2 leads with the vote of member 1, and both accept its entry.\<close>

definition propose_at :: "instant \<Rightarrow> u8 \<Rightarrow> mem_kv px_group \<times> mem_kv px_local_replica \<Rightarrow>
    (propose_result \<times> mem_kv px_group) \<times> mem_kv px_local_replica" where
  "propose_at now v gm =
     (case on_accept True now (base_entry 1 (put_payload v) (fst gm)) (snd gm) of
        (_, m) \<Rightarrow>
          (propose_inner_impl mem_iface (put_payload v) [] None
             (\<lambda>_ _. \<lparr> ae_ok = True, ae_now = now, ae_prepare = [],
                      ae_accept = member_answers now (snd gm) \<rparr>) (fst gm), m))"

definition scene2 :: "(propose_result \<times> mem_kv px_group) \<times> mem_kv px_local_replica" where
  "scene2 = propose_at 9000 6 (elect 9000 2 (member_start 2 7 []) (snd scene1))"

text \<open>Term 3: member 1 leads with the vote of member 3 and recovers the slot.\<close>

definition recover_with :: "instant \<Rightarrow> u64 \<Rightarrow> mem_kv px_group \<times> mem_kv px_local_replica \<Rightarrow> bool \<times> mem_kv px_group" where
  "recover_with now t gm =
     (case on_prepare True now 1 (prepare_ballot 1 0 (pg_replica (fst gm))) t (snd gm) of
        (promise, m) \<Rightarrow>
          recover_prefix_slot mem_iface
            \<lparr> ae_ok = True, ae_now = now, ae_prepare = [TLocal, TRemote True (Some promise), TRemote True None],
              ae_accept = member_answers now m \<rparr> t 1 (fst gm))"

definition scene3 :: "bool \<times> mem_kv px_group" where
  "scene3 = recover_with 18000 3 (elect 18000 3 (snd scene2) (pg_replica (fst scene1)))"

text \<open>C14 A value that was chosen and acknowledged is replaced. Leaders propose in a slot that is new to
  them without a prepare phase, with ballots of round 0 that are ordered by the leader's id and
  not by the term. Leader 3 of term 1 gets its value 5 accepted by itself alone; leader 2 of term
  2 gets the value 6 accepted by members 1 and 2, a quorum, applies it and reports the slot as
  chosen. Member 1 becomes leader of term 3 with the vote of member 3, and its recovery adopts
  the value 5, because the ballot of leader 3 is the higher one; it is accepted by members 1 and 3
  and applied.\<close>

theorem chosen_value_replaced:
  "let ((result, g2), m1) = scene2; (recovered, g1) = scene3
   in result = PrChosen 1 \<and> mem_get (lr_engine (re_learner (pg_replica g2))) [7] = Some (1, [6]) \<and>
      recovered \<and> mem_get (lr_engine (re_learner (pg_replica g1))) [7] = Some (1, [5])"
proof -
  have "fst (fst scene2) = PrChosen 1"
    "mem_get (lr_engine (re_learner (pg_replica (snd (fst scene2))))) [7] = Some (1, [6])"
    "fst scene3" "mem_get (lr_engine (re_learner (pg_replica (snd scene3)))) [7] = Some (1, [5])"
    by code_simp+
  then show ?thesis by (simp add: Let_def case_prod_beta)
qed

end
