(* ===== verification/Disk_Bitmap.thy ===== *)
theory Disk_Bitmap
  imports Prelude
begin

unbundle bit_operations_syntax

text \<open>
  The usage bitmap of a disk zone (\<open>crowdb-protocol/src/bitmap.rs\<close>) and the lazily allocated bitmap
  around it (\<open>crowdb-diskdb/src/model/zone_bitmap.rs\<close>).

  A call is one step, so the compare-and-swap of a word sees the word its call has loaded. A
  panic, here an index past the words of the bitmap, is the result \<open>None\<close>. The bitmap is read
  through \<open>ub_set\<close>, the set of the units it marks as used, and every operation is shown to be
  the set operation it stands for; a range operation is all or nothing.
\<close>

section \<open>The usage bitmap\<close>

record usage_bitmap =
  ub_bits :: "u64 list"
  ub_block_count :: u32

definition div_ceil :: "nat \<Rightarrow> nat \<Rightarrow> nat" where
  "div_ceil a b = (a + b - 1) div b"

definition bit_mask :: "nat \<Rightarrow> u64" where
  "bit_mask n = push_bit n 1"

definition count_ones :: "u64 \<Rightarrow> nat" where
  "count_ones w = length (filter (bit w) [0..<64])"

definition ub_new :: "u32 \<Rightarrow> usage_bitmap" where
  "ub_new block_count =
     \<lparr>ub_bits = replicate (div_ceil (unat block_count) 64) 0, ub_block_count = block_count\<rparr>"

definition ub_load_word :: "nat \<Rightarrow> usage_bitmap \<Rightarrow> u64 option" where
  "ub_load_word index b = (if index < length (ub_bits b) then Some (ub_bits b ! index) else None)"

definition ub_store_word :: "nat \<Rightarrow> u64 \<Rightarrow> usage_bitmap \<Rightarrow> usage_bitmap" where
  "ub_store_word index w b = b\<lparr>ub_bits := (ub_bits b)[index := w]\<rparr>"

definition ub_cas_word :: "nat \<Rightarrow> u64 \<Rightarrow> u64 \<Rightarrow> usage_bitmap \<Rightarrow> ((u64 + u64) \<times> usage_bitmap) option" where
  "ub_cas_word index expected new b =
     (case ub_load_word index b of
        None \<Rightarrow> None
      | Some w \<Rightarrow> Some (if w = expected then (Inr w, ub_store_word index new b) else (Inl w, b)))"

definition ub_cas_bit :: "u32 \<Rightarrow> bool \<Rightarrow> usage_bitmap \<Rightarrow> (bool \<times> usage_bitmap) option" where
  "ub_cas_bit bit_index s b =
     (let word_index = unat bit_index div 64; m = bit_mask (unat bit_index mod 64) in
      case ub_load_word word_index b of
        None \<Rightarrow> None
      | Some current \<Rightarrow>
          if s = (current AND m \<noteq> 0) then Some (False, b)
          else
            let new = if s then current OR m else current AND NOT m in
            map_option (\<lambda>(r, b'). (\<not> isl r, b')) (ub_cas_word word_index current new b))"

text \<open>\<open>fetch_or\<close> and \<open>fetch_and\<close> with the mask of a bit: the bit becomes \<open>s\<close>, the result is what it was.\<close>

definition ub_fetch_bit :: "bool \<Rightarrow> nat \<Rightarrow> usage_bitmap \<Rightarrow> (bool \<times> usage_bitmap) option" where
  "ub_fetch_bit s bit_index b =
     (let m = bit_mask (bit_index mod 64) in
      case ub_load_word (bit_index div 64) b of
        None \<Rightarrow> None
      | Some prev \<Rightarrow>
          Some (prev AND m \<noteq> 0, ub_store_word (bit_index div 64) (if s then prev OR m else prev AND NOT m) b))"

fun ub_undo :: "bool \<Rightarrow> u32 \<Rightarrow> nat list \<Rightarrow> usage_bitmap \<Rightarrow> usage_bitmap option" where
  "ub_undo s offset [] b = Some b"
| "ub_undo s offset (j # js) b =
     (case ub_fetch_bit (\<not> s) (unat (offset + of_nat j)) b of
        None \<Rightarrow> None
      | Some (_, b') \<Rightarrow> ub_undo s offset js b')"

text \<open>The loop of \<open>range_set\<close> (\<open>s\<close>) and of \<open>range_clear\<close> from its step \<open>i\<close> on, with \<open>n\<close> steps left.\<close>

fun ub_range_loop :: "bool \<Rightarrow> u32 \<Rightarrow> nat \<Rightarrow> nat \<Rightarrow> usage_bitmap \<Rightarrow> (bool \<times> usage_bitmap) option" where
  "ub_range_loop s offset i 0 b = Some (True, b)"
| "ub_range_loop s offset i (Suc n) b =
     (case ub_fetch_bit s (unat (offset + of_nat i)) b of
        None \<Rightarrow> None
      | Some (prev, b') \<Rightarrow>
          if prev = s then map_option (Pair False) (ub_undo s offset [0..<i] b')
          else ub_range_loop s offset (Suc i) n b')"

definition ub_range_set :: "u32 \<Rightarrow> u32 \<Rightarrow> usage_bitmap \<Rightarrow> (bool \<times> usage_bitmap) option" where
  "ub_range_set offset count = ub_range_loop True offset 0 (unat count)"

definition ub_range_clear :: "u32 \<Rightarrow> u32 \<Rightarrow> usage_bitmap \<Rightarrow> (bool \<times> usage_bitmap) option" where
  "ub_range_clear offset count = ub_range_loop False offset 0 (unat count)"

definition ub_is_set :: "u32 \<Rightarrow> usage_bitmap \<Rightarrow> bool option" where
  "ub_is_set offset b =
     map_option (\<lambda>w. w AND bit_mask (unat offset mod 64) \<noteq> 0) (ub_load_word (unat offset div 64) b)"

definition ub_snapshot :: "usage_bitmap \<Rightarrow> bytes" where
  "ub_snapshot b = concat (map u64_le (ub_bits b))"

text \<open>A last group of fewer than eight bytes is filled up with zero bytes.\<close>

definition ub_restore :: "bytes \<Rightarrow> usage_bitmap" where
  "ub_restore bs =
     (let word_count = div_ceil (length bs) 8;
          buf = (\<lambda>i. let part = slice (i * 8) (min (i * 8 + 8) (length bs)) bs
                     in part @ replicate (8 - length part) 0)
      in \<lparr>ub_bits = map (\<lambda>i. u64_of_le (buf i)) [0..<word_count], ub_block_count = of_nat (word_count * 64)\<rparr>)"

definition ub_restore_for_block_count :: "bytes \<Rightarrow> u32 \<Rightarrow> usage_bitmap" where
  "ub_restore_for_block_count bs block_count =
     (let restored = ub_restore bs; bitmap = ub_new block_count; n = length (ub_bits bitmap) in
      bitmap\<lparr>ub_bits := map (\<lambda>index.
        let word = (if index < length (ub_bits restored) then ub_bits restored ! index else 0) in
        if index + 1 = n \<and> block_count mod 64 \<noteq> 0
        then word AND (bit_mask (unat (block_count mod 64)) - 1) else word) [0..<n]\<rparr>)"

definition ub_count_set :: "usage_bitmap \<Rightarrow> u64" where
  "ub_count_set b = sum_list (map (\<lambda>w. of_nat (count_ones w)) (ub_bits b))"

section \<open>The lazily allocated bitmap\<close>

record zone_bitmap =
  zb_bitmap :: "usage_bitmap option"
  zb_block_count :: u32

definition zb_new :: "u32 \<Rightarrow> zone_bitmap" where
  "zb_new block_count = \<lparr>zb_bitmap = None, zb_block_count = block_count\<rparr>"

definition zb_restore :: "bytes \<Rightarrow> u32 \<Rightarrow> zone_bitmap" where
  "zb_restore bs block_count =
     (if \<forall>byte \<in> set bs. byte = 0 then zb_new block_count
      else \<lparr>zb_bitmap = Some (ub_restore_for_block_count bs block_count), zb_block_count = block_count\<rparr>)"

definition zb_materialize :: "zone_bitmap \<Rightarrow> usage_bitmap" where
  "zb_materialize z = (case zb_bitmap z of Some b \<Rightarrow> b | None \<Rightarrow> ub_new (zb_block_count z))"

definition zb_word_count :: "zone_bitmap \<Rightarrow> nat" where
  "zb_word_count z = div_ceil (unat (zb_block_count z)) 64"

definition zb_load_word :: "nat \<Rightarrow> zone_bitmap \<Rightarrow> u64 option" where
  "zb_load_word index z =
     (if index < zb_word_count z
      then (case zb_bitmap z of None \<Rightarrow> Some 0 | Some b \<Rightarrow> ub_load_word index b) else None)"

text \<open>An operation on the allocated bitmap; allocating it is a write of its own.\<close>

definition zb_on :: "(usage_bitmap \<Rightarrow> ('r \<times> usage_bitmap) option) \<Rightarrow> zone_bitmap \<Rightarrow> ('r \<times> zone_bitmap) option" where
  "zb_on f z = map_option (\<lambda>(r, b). (r, z\<lparr>zb_bitmap := Some b\<rparr>)) (f (zb_materialize z))"

definition zb_cas_word :: "nat \<Rightarrow> u64 \<Rightarrow> u64 \<Rightarrow> zone_bitmap \<Rightarrow> ((u64 + u64) \<times> zone_bitmap) option" where
  "zb_cas_word index expected new = zb_on (ub_cas_word index expected new)"

definition zb_cas_bit :: "u32 \<Rightarrow> bool \<Rightarrow> zone_bitmap \<Rightarrow> (bool \<times> zone_bitmap) option" where
  "zb_cas_bit index s = zb_on (ub_cas_bit index s)"

definition zb_range_set :: "u32 \<Rightarrow> u32 \<Rightarrow> zone_bitmap \<Rightarrow> (bool \<times> zone_bitmap) option" where
  "zb_range_set offset count = zb_on (ub_range_set offset count)"

definition zb_range_clear :: "u32 \<Rightarrow> u32 \<Rightarrow> zone_bitmap \<Rightarrow> (bool \<times> zone_bitmap) option" where
  "zb_range_clear offset count z =
     (case zb_bitmap z of
        None \<Rightarrow> Some (count = 0, z)
      | Some b \<Rightarrow> map_option (\<lambda>(r, b'). (r, z\<lparr>zb_bitmap := Some b'\<rparr>)) (ub_range_clear offset count b))"

definition zb_is_set :: "u32 \<Rightarrow> zone_bitmap \<Rightarrow> bool option" where
  "zb_is_set offset z =
     (if offset < zb_block_count z
      then (case zb_bitmap z of None \<Rightarrow> Some False | Some b \<Rightarrow> ub_is_set offset b) else None)"

definition zb_count_set :: "zone_bitmap \<Rightarrow> u64" where
  "zb_count_set z = (case zb_bitmap z of None \<Rightarrow> 0 | Some b \<Rightarrow> ub_count_set b)"

definition zb_snapshot :: "zone_bitmap \<Rightarrow> bytes" where
  "zb_snapshot z =
     (case zb_bitmap z of None \<Rightarrow> replicate (zb_word_count z * 8) 0 | Some b \<Rightarrow> ub_snapshot b)"

section \<open>Calls\<close>

text \<open>The calls a bitmap answers with a boolean, and reloading it from its own snapshot. \<open>set_call\<close> is
  what a call means for the set of the units in use.\<close>

datatype bitmap_call =
    CasBit u32 bool
  | RangeSet u32 u32
  | RangeClear u32 u32
  | IsSet u32
  | Reload

definition units :: "u32 \<Rightarrow> u32 \<Rightarrow> nat set" where
  "units offset count = {unat offset..<unat offset + unat count}"

fun within :: "u32 \<Rightarrow> bitmap_call \<Rightarrow> bool" where
  "within n (CasBit i s) = (i < n)"
| "within n (RangeSet offset count) = (unat offset + unat count \<le> unat n)"
| "within n (RangeClear offset count) = (unat offset + unat count \<le> unat n)"
| "within n (IsSet i) = (i < n)"
| "within n Reload = True"

fun set_call :: "bitmap_call \<Rightarrow> nat set \<Rightarrow> bool \<times> nat set" where
  "set_call (CasBit i s) U = ((unat i \<in> U) \<noteq> s, if s then insert (unat i) U else U - {unat i})"
| "set_call (RangeSet offset count) U =
     (if units offset count \<inter> U = {} then (True, U \<union> units offset count) else (False, U))"
| "set_call (RangeClear offset count) U =
     (if units offset count \<subseteq> U then (True, U - units offset count) else (False, U))"
| "set_call (IsSet i) U = (unat i \<in> U, U)"
| "set_call Reload U = (True, U)"

fun ub_call :: "bitmap_call \<Rightarrow> usage_bitmap \<Rightarrow> (bool \<times> usage_bitmap) option" where
  "ub_call (CasBit i s) b = ub_cas_bit i s b"
| "ub_call (RangeSet offset count) b = ub_range_set offset count b"
| "ub_call (RangeClear offset count) b = ub_range_clear offset count b"
| "ub_call (IsSet i) b = map_option (\<lambda>r. (r, b)) (ub_is_set i b)"
| "ub_call Reload b = Some (True, ub_restore_for_block_count (ub_snapshot b) (ub_block_count b))"

fun zb_call :: "bitmap_call \<Rightarrow> zone_bitmap \<Rightarrow> (bool \<times> zone_bitmap) option" where
  "zb_call (CasBit i s) z = zb_cas_bit i s z"
| "zb_call (RangeSet offset count) z = zb_range_set offset count z"
| "zb_call (RangeClear offset count) z = zb_range_clear offset count z"
| "zb_call (IsSet i) z = map_option (\<lambda>r. (r, z)) (zb_is_set i z)"
| "zb_call Reload z = Some (True, zb_restore (zb_snapshot z) (zb_block_count z))"

fun run_calls :: "(bitmap_call \<Rightarrow> 's \<Rightarrow> (bool \<times> 's) option) \<Rightarrow> bitmap_call list \<Rightarrow> 's \<Rightarrow> (bool list \<times> 's) option" where
  "run_calls step [] st = Some ([], st)"
| "run_calls step (c # cs) st =
     (case step c st of
        None \<Rightarrow> None
      | Some (r, st') \<Rightarrow> map_option (\<lambda>(rs, st''). (r # rs, st'')) (run_calls step cs st'))"

fun run_set :: "bitmap_call list \<Rightarrow> nat set \<Rightarrow> bool list \<times> nat set" where
  "run_set [] U = ([], U)"
| "run_set (c # cs) U = (let (r, U') = set_call c U; (rs, U'') = run_set cs U' in (r # rs, U''))"

section \<open>The bitmap as a set of units\<close>

definition ub_mem :: "usage_bitmap \<Rightarrow> nat \<Rightarrow> bool" where
  "ub_mem b i \<longleftrightarrow> i div 64 < length (ub_bits b) \<and> bit (ub_bits b ! (i div 64)) (i mod 64)"

definition ub_set :: "usage_bitmap \<Rightarrow> nat set" where
  "ub_set b = {i. ub_mem b i}"

text \<open>The words match the geometry and no unit past it is marked.\<close>

definition ub_ok :: "usage_bitmap \<Rightarrow> bool" where
  "ub_ok b \<longleftrightarrow>
     length (ub_bits b) = div_ceil (unat (ub_block_count b)) 64 \<and> (\<forall>i \<in> ub_set b. i < unat (ub_block_count b))"

lemma bit_mask_bit: "bit (bit_mask n) m \<longleftrightarrow> m = n \<and> n < 64"
  by (auto simp: bit_mask_def bit_simps)

lemma and_bit_mask: "n < 64 \<Longrightarrow> w AND bit_mask n \<noteq> 0 \<longleftrightarrow> bit w n"
  by (auto simp: bit_eq_iff [where a = "w AND bit_mask n" and b = 0] bit_and_iff bit_mask_bit)

lemma div_ceil_less: "i < n \<Longrightarrow> i div 64 < div_ceil n 64"
  by (simp add: div_ceil_def div_less_iff_less_mult)

lemma unit_eq_iff: "(i :: nat) = j \<longleftrightarrow> i div 64 = j div 64 \<and> i mod 64 = j mod 64"
  by (metis div_mult_mod_eq)

lemma ub_eqI:
  assumes "length (ub_bits b) = length (ub_bits b')" "ub_block_count b = ub_block_count b'"
    and "ub_set b = ub_set b'"
  shows "b = b'"
proof -
  have "ub_bits b ! k = ub_bits b' ! k" if k: "k < length (ub_bits b)" for k
  proof (rule bit_word_eqI)
    fix n assume n: "n < LENGTH(64)"
    have "64 * k + n \<in> ub_set b \<longleftrightarrow> 64 * k + n \<in> ub_set b'" by (simp add: assms(3))
    then show "bit (ub_bits b ! k) n \<longleftrightarrow> bit (ub_bits b' ! k) n"
      using k n assms(1) by (simp add: ub_set_def ub_mem_def)
  qed
  then have "ub_bits b = ub_bits b'" using assms(1) by (simp add: nth_equalityI)
  then show ?thesis using assms(2) by simp
qed

lemma store_word_frame [simp]:
  "length (ub_bits (ub_store_word k w b)) = length (ub_bits b)"
  "ub_block_count (ub_store_word k w b) = ub_block_count b"
  by (simp_all add: ub_store_word_def)

lemma ub_fetch_bit_spec:
  assumes "i div 64 < length (ub_bits b)"
  shows "\<exists>b'. ub_fetch_bit s i b = Some (ub_mem b i, b') \<and> length (ub_bits b') = length (ub_bits b) \<and>
    ub_block_count b' = ub_block_count b \<and> (\<forall>j. ub_mem b' j \<longleftrightarrow> (if j = i then s else ub_mem b j))"
proof -
  let ?m = "bit_mask (i mod 64)" and ?w = "ub_bits b ! (i div 64)"
  let ?b = "ub_store_word (i div 64) (if s then ?w OR ?m else ?w AND NOT ?m) b"
  have "ub_fetch_bit s i b = Some (ub_mem b i, ?b)"
    using assms by (simp add: ub_fetch_bit_def ub_load_word_def ub_mem_def and_bit_mask Let_def)
  moreover have "ub_mem ?b j \<longleftrightarrow> (if j = i then s else ub_mem b j)" for j
    using assms unit_eq_iff [of j i]
    by (auto simp: ub_mem_def ub_store_word_def nth_list_update bit_simps bit_mask_bit)
  ultimately show ?thesis by simp
qed

lemma ub_undo_spec:
  assumes "\<And>j. j \<in> set js \<Longrightarrow> unat (offset + of_nat j) div 64 < length (ub_bits b)"
  shows "\<exists>b'. ub_undo s offset js b = Some b' \<and> length (ub_bits b') = length (ub_bits b) \<and>
    ub_block_count b' = ub_block_count b \<and>
    (\<forall>k. ub_mem b' k \<longleftrightarrow> (if k \<in> (\<lambda>j. unat (offset + of_nat j)) ` set js then \<not> s else ub_mem b k))"
  using assms
proof (induction js arbitrary: b)
  case (Cons j js)
  from Cons.prems have "unat (offset + of_nat j) div 64 < length (ub_bits b)" by simp
  then obtain b1 where b1: "ub_fetch_bit (\<not> s) (unat (offset + of_nat j)) b = Some (ub_mem b (unat (offset + of_nat j)), b1)"
    "length (ub_bits b1) = length (ub_bits b)" "ub_block_count b1 = ub_block_count b"
    "\<And>k. ub_mem b1 k \<longleftrightarrow> (if k = unat (offset + of_nat j) then \<not> s else ub_mem b k)"
    using ub_fetch_bit_spec [of "unat (offset + of_nat j)" b "\<not> s"] by blast
  have "\<And>i. i \<in> set js \<Longrightarrow> unat (offset + of_nat i) div 64 < length (ub_bits b1)"
    using Cons.prems b1(2) by simp
  from Cons.IH [OF this] b1 show ?case by auto
qed simp

text \<open>The units of a range that does not run past the last 32-bit number.\<close>

lemma offset_add:
  assumes "unat (offset :: u32) + n \<le> 2 ^ 32" "i < n"
  shows "unat (offset + of_nat i) = unat offset + i"
proof -
  have "unat (of_nat i :: u32) = i" using assms by (simp add: unat_of_nat take_bit_eq_mod)
  then show ?thesis using assms by (simp add: unat_add_lem [THEN iffD1])
qed

lemma offset_image:
  assumes "unat (offset :: u32) + n \<le> 2 ^ 32"
  shows "(\<lambda>j. unat (offset + of_nat j)) ` set [0..<n] = {unat offset..<unat offset + n}"
proof -
  have "(\<lambda>j. unat (offset + of_nat j)) ` set [0..<n] = (\<lambda>j. unat offset + j) ` {0..<n}"
    using offset_add [OF assms] by (intro image_cong) auto
  then show ?thesis by (simp add: add.commute)
qed

lemma ub_range_loop_spec:
  assumes "unat offset + (i + n) \<le> 2 ^ 32" "unat offset + (i + n) \<le> 64 * length (ub_bits b)"
  shows "\<exists>ok b'. ub_range_loop s offset i n b = Some (ok, b') \<and> length (ub_bits b') = length (ub_bits b) \<and>
    ub_block_count b' = ub_block_count b \<and>
    (ok \<longleftrightarrow> (\<forall>k \<in> {unat offset + i..<unat offset + i + n}. ub_mem b k \<noteq> s)) \<and>
    (\<forall>k. ub_mem b' k \<longleftrightarrow>
       (if ok then (if k \<in> {unat offset + i..<unat offset + i + n} then s else ub_mem b k)
        else if k \<in> {unat offset..<unat offset + i} then \<not> s else ub_mem b k))"
  using assms
proof (induction n arbitrary: i b)
  case (Suc n)
  let ?k = "unat offset + i"
  have k: "unat (offset + of_nat i) = ?k" using Suc.prems by (intro offset_add [of _ "i + Suc n"]) auto
  have "?k div 64 < length (ub_bits b)" using Suc.prems by (simp add: div_less_iff_less_mult)
  then obtain b1 where b1: "ub_fetch_bit s ?k b = Some (ub_mem b ?k, b1)"
    "length (ub_bits b1) = length (ub_bits b)" "ub_block_count b1 = ub_block_count b"
    "\<And>j. ub_mem b1 j \<longleftrightarrow> (if j = ?k then s else ub_mem b j)"
    using ub_fetch_bit_spec [of ?k b s] by blast
  show ?case
  proof (cases "ub_mem b ?k = s")
    case True
    have img: "(\<lambda>j. unat (offset + of_nat j)) ` set [0..<i] = {unat offset..<unat offset + i}"
      using Suc.prems by (intro offset_image) simp
    have "unat (offset + of_nat j) div 64 < length (ub_bits b1)" if "j \<in> set [0..<i]" for j
      using that Suc.prems b1(2) offset_add [of offset i j] by (simp add: div_less_iff_less_mult)
    from ub_undo_spec [OF this, of "[0..<i]" s] obtain b2 where
      "ub_undo s offset [0..<i] b1 = Some b2" "length (ub_bits b2) = length (ub_bits b)"
      "ub_block_count b2 = ub_block_count b"
      "\<And>k. ub_mem b2 k \<longleftrightarrow> (if k \<in> {unat offset..<unat offset + i} then \<not> s else ub_mem b1 k)"
      unfolding img using b1(2,3) by auto
    then show ?thesis using True b1 by (auto simp: k)
  next
    case False
    have "unat offset + (Suc i + n) \<le> 2 ^ 32" "unat offset + (Suc i + n) \<le> 64 * length (ub_bits b1)"
      using Suc.prems b1(2) by auto
    from Suc.IH [OF this] obtain ok b2 where b2:
      "ub_range_loop s offset (Suc i) n b1 = Some (ok, b2)" "length (ub_bits b2) = length (ub_bits b1)"
      "ub_block_count b2 = ub_block_count b1"
      "ok \<longleftrightarrow> (\<forall>k \<in> {unat offset + Suc i..<unat offset + Suc i + n}. ub_mem b1 k \<noteq> s)"
      "\<And>k. ub_mem b2 k \<longleftrightarrow>
         (if ok then (if k \<in> {unat offset + Suc i..<unat offset + Suc i + n} then s else ub_mem b1 k)
          else if k \<in> {unat offset..<unat offset + Suc i} then \<not> s else ub_mem b1 k)"
      by blast
    have split: "{?k..<?k + Suc n} = insert ?k {unat offset + Suc i..<unat offset + Suc i + n}" by auto
    have "ok \<longleftrightarrow> (\<forall>k \<in> {?k..<?k + Suc n}. ub_mem b k \<noteq> s)"
      unfolding split b2(4) using False by (auto simp: b1(4))
    moreover have "ub_range_loop s offset i (Suc n) b = Some (ok, b2)"
      using False b1(1) b2(1) by (simp add: k)
    moreover have "ub_mem b2 k \<longleftrightarrow>
       (if ok then (if k \<in> {?k..<?k + Suc n} then s else ub_mem b k)
        else if k \<in> {unat offset..<?k} then \<not> s else ub_mem b k)" for k
      unfolding split b2(5) b1(4) using False by (cases "k = ?k"; cases ok) auto
    ultimately show ?thesis using b1(2,3) b2(2,3) by (intro exI [of _ ok] exI [of _ b2] conjI allI) simp_all
  qed
qed (auto intro: exI [of _ True])

text \<open>A range operation marks (or frees) all units of the range, or leaves the bitmap as it is.\<close>

lemma ub_range_spec:
  assumes "unat offset + unat count \<le> 2 ^ 32" "unat offset + unat count \<le> 64 * length (ub_bits b)"
  shows "ub_range_loop s offset 0 (unat count) b = Some (ok, b') \<longleftrightarrow>
    (ok \<longleftrightarrow> (if s then units offset count \<inter> ub_set b = {} else units offset count \<subseteq> ub_set b)) \<and>
    length (ub_bits b') = length (ub_bits b) \<and> ub_block_count b' = ub_block_count b \<and>
    ub_set b' = (if \<not> ok then ub_set b else if s then ub_set b \<union> units offset count else ub_set b - units offset count)"
proof -
  from ub_range_loop_spec [of offset 0 "unat count" b s] assms obtain ok1 b1 where b1:
    "ub_range_loop s offset 0 (unat count) b = Some (ok1, b1)" "length (ub_bits b1) = length (ub_bits b)"
    "ub_block_count b1 = ub_block_count b" "ok1 \<longleftrightarrow> (\<forall>k \<in> units offset count. ub_mem b k \<noteq> s)"
    "\<And>k. ub_mem b1 k \<longleftrightarrow> (if ok1 then (if k \<in> units offset count then s else ub_mem b k) else ub_mem b k)"
    unfolding units_def by auto
  have ok1: "ok1 \<longleftrightarrow> (if s then units offset count \<inter> ub_set b = {} else units offset count \<subseteq> ub_set b)"
    unfolding b1(4) by (auto simp: ub_set_def)
  have set1: "ub_set b1 =
      (if \<not> ok1 then ub_set b else if s then ub_set b \<union> units offset count else ub_set b - units offset count)"
    unfolding ub_set_def b1(5) by auto
  show ?thesis (is "_ \<longleftrightarrow> ?R")
  proof
    assume "ub_range_loop s offset 0 (unat count) b = Some (ok, b')"
    then have "ok = ok1" "b' = b1" using b1(1) by auto
    then show ?R using b1(2,3) ok1 set1 by blast
  next
    assume R: ?R
    then have "ok = ok1" using ok1 by blast
    moreover from this R have "b' = b1" using b1(2,3) set1 by (intro ub_eqI) auto
    ultimately show "ub_range_loop s offset 0 (unat count) b = Some (ok, b')" using b1(1) by simp
  qed
qed

lemma ub_cas_bit_fetch:
  "ub_cas_bit i s b =
     (case ub_fetch_bit s (unat i) b of None \<Rightarrow> None | Some (prev, b') \<Rightarrow> Some (prev \<noteq> s, if prev = s then b else b'))"
  by (auto simp: ub_cas_bit_def ub_fetch_bit_def ub_cas_word_def Let_def split: option.splits)

lemma ub_cas_bit_spec:
  assumes "unat i < 64 * length (ub_bits b)"
  shows "\<exists>b'. ub_cas_bit i s b = Some (ub_mem b (unat i) \<noteq> s, b') \<and> length (ub_bits b') = length (ub_bits b) \<and>
    ub_block_count b' = ub_block_count b \<and> ub_set b' = (if s then insert (unat i) (ub_set b) else ub_set b - {unat i})"
proof -
  have "unat i div 64 < length (ub_bits b)" using assms by (simp add: div_less_iff_less_mult mult.commute)
  from ub_fetch_bit_spec [OF this, of s] obtain b1 where b1:
    "ub_fetch_bit s (unat i) b = Some (ub_mem b (unat i), b1)" "length (ub_bits b1) = length (ub_bits b)"
    "ub_block_count b1 = ub_block_count b" "\<And>j. ub_mem b1 j \<longleftrightarrow> (if j = unat i then s else ub_mem b j)"
    by blast
  have "ub_set b1 = (if s then insert (unat i) (ub_set b) else ub_set b - {unat i})"
    unfolding ub_set_def b1(4) by auto
  moreover have "ub_mem b (unat i) = s \<Longrightarrow> ub_set b = (if s then insert (unat i) (ub_set b) else ub_set b - {unat i})"
    by (auto simp: ub_set_def)
  ultimately show ?thesis using b1(1-3) by (cases "ub_mem b (unat i) = s") (simp_all add: ub_cas_bit_fetch)
qed

lemma ub_mem_bound: "ub_mem b i \<Longrightarrow> i < 64 * length (ub_bits b)"
  by (simp add: ub_mem_def div_less_iff_less_mult mult.commute)

lemma finite_ub_set [simp]: "finite (ub_set b)"
  by (rule finite_subset [of _ "{..<64 * length (ub_bits b)}"]) (auto simp: ub_set_def ub_mem_bound)

lemma ub_new_set [simp]: "ub_set (ub_new n) = {}"
  by (auto simp: ub_set_def ub_mem_def ub_new_def)

lemma ub_new_ok: "ub_ok (ub_new n)" "ub_block_count (ub_new n) = n"
  by (simp_all add: ub_ok_def) (simp_all add: ub_new_def)

lemma count_ones_card: "count_ones w = card {n. n < 64 \<and> bit w n}"
proof -
  have "{n. n < 64 \<and> bit w n} = set (filter (bit w) [0..<64])" by auto
  then show ?thesis by (simp add: count_ones_def distinct_card del: set_filter)
qed

lemma ub_card_set: "card (ub_set b) = sum_list (map count_ones (ub_bits b))"
proof -
  let ?A = "\<lambda>k. (\<lambda>n. 64 * k + n) ` {n. n < 64 \<and> bit (ub_bits b ! k) n}"
  have "ub_set b = (\<Union>k \<in> {..<length (ub_bits b)}. ?A k)"
  proof (intro set_eqI iffI)
    fix i assume "i \<in> ub_set b"
    then have "i div 64 < length (ub_bits b)" "i \<in> ?A (i div 64)"
      by (auto simp: ub_set_def ub_mem_def intro!: image_eqI [of _ _ "i mod 64"])
    then show "i \<in> (\<Union>k \<in> {..<length (ub_bits b)}. ?A k)" by blast
  qed (auto simp: ub_set_def ub_mem_def)
  moreover have "card (\<Union>k \<in> {..<length (ub_bits b)}. ?A k) = (\<Sum>k < length (ub_bits b). card (?A k))"
  proof (intro card_UN_disjoint ballI impI)
    fix k l :: nat assume "k \<noteq> l"
    then show "?A k \<inter> ?A l = {}" by auto
  qed auto
  moreover have "card (?A k) = count_ones (ub_bits b ! k)" for k
    by (simp add: count_ones_card card_image inj_on_def)
  ultimately show ?thesis by (simp add: sum_list_sum_nth atLeast0LessThan)
qed

lemma ub_count_set_eq: "ub_count_set b = of_nat (card (ub_set b))"
proof -
  have "sum_list (map (\<lambda>w. of_nat (count_ones w)) ws) = (of_nat (sum_list (map count_ones ws)) :: u64)" for ws
    by (induction ws) simp_all
  then show ?thesis by (simp add: ub_count_set_def ub_card_set)
qed

section \<open>Snapshots\<close>

lemma length_concat_u64: "length (concat (map u64_le ws)) = 8 * length ws"
  by (induction ws) auto

lemma slice_concat_u64: "i < length ws \<Longrightarrow> slice (i * 8) (i * 8 + 8) (concat (map u64_le ws)) = u64_le (ws ! i)"
proof (induction ws arbitrary: i)
  case (Cons w ws)
  show ?case
  proof (cases i)
    case 0
    then show ?thesis by (simp add: slice_def)
  next
    case (Suc k)
    have "slice (Suc k * 8) (Suc k * 8 + 8) (concat (map u64_le (w # ws))) =
        slice (k * 8) (k * 8 + 8) (concat (map u64_le ws))"
      by (simp add: slice_def)
    with Suc Cons show ?thesis by simp
  qed
qed simp

lemma ub_restore_nth:
  assumes "i * 8 + 8 \<le> length bs"
  shows "ub_bits (ub_restore bs) ! i = u64_of_le (slice (i * 8) (i * 8 + 8) bs)"
proof -
  have "i < div_ceil (length bs) 8" using assms by (simp add: div_ceil_def Suc_le_eq [symmetric] less_eq_div_iff_mult_less_eq)
  moreover have "length (slice (i * 8) (i * 8 + 8) bs) = 8" using assms by (simp add: slice_def)
  ultimately show ?thesis using assms by (simp add: ub_restore_def Let_def min_absorb1)
qed

lemma length_ub_restore: "length (ub_bits (ub_restore bs)) = div_ceil (length bs) 8"
  by (simp add: ub_restore_def Let_def)

lemma div_ceil_mult: "div_ceil (8 * n) 8 = n"
  by (simp add: div_ceil_def)

lemma ub_restore_snapshot: "ub_bits (ub_restore (ub_snapshot b)) = ub_bits b"
proof (rule nth_equalityI)
  show l: "length (ub_bits (ub_restore (ub_snapshot b))) = length (ub_bits b)"
    by (simp add: length_ub_restore ub_snapshot_def length_concat_u64 div_ceil_mult)
  fix i assume "i < length (ub_bits (ub_restore (ub_snapshot b)))"
  then have i: "i < length (ub_bits b)" by (simp only: l)
  then have "i * 8 + 8 \<le> length (ub_snapshot b)" by (simp add: ub_snapshot_def length_concat_u64)
  then show "ub_bits (ub_restore (ub_snapshot b)) ! i = ub_bits b ! i"
    by (simp add: ub_restore_nth) (simp add: ub_snapshot_def slice_concat_u64 [OF i])
qed

lemma div_ceil_rest:
  assumes "n mod 64 \<noteq> 0"
  shows "div_ceil n 64 = n div 64 + 1"
proof -
  obtain q r where n: "n = 64 * q + r" "n div 64 = q" "0 < r" "r < 64"
    using assms by (metis mod_less_divisor mult_div_mod_eq neq0_conv zero_less_numeral)
  then have "(n + 64 - 1) div 64 = q + 1" by (intro div_nat_eqI) simp_all
  then show ?thesis by (simp add: div_ceil_def n(2))
qed

lemma last_word_masked:
  assumes "ub_ok b" "index < length (ub_bits b)" "index + 1 = length (ub_bits b)" "ub_block_count b mod 64 \<noteq> 0"
  shows "ub_bits b ! index AND (bit_mask (unat (ub_block_count b mod 64)) - 1) = ub_bits b ! index"
proof (rule bit_word_eqI)
  let ?n = "unat (ub_block_count b)" and ?r = "unat (ub_block_count b mod 64)"
  have r: "?r = ?n mod 64" by (simp add: unat_mod)
  have r0: "?r \<noteq> 0" using assms(4) by (simp add: unat_eq_0)
  have mask: "bit_mask ?r - 1 = (mask ?r :: u64)"
    by (simp add: bit_mask_def mask_eq_exp_minus_1)
  have "index = ?n div 64"
    using assms(1,3) div_ceil_rest [of ?n] r r0 by (simp add: ub_ok_def)
  fix k assume k: "k < LENGTH(64)"
  have "k < ?r" if "bit (ub_bits b ! index) k"
  proof -
    have "64 * index + k \<in> ub_set b" using that k assms(2) by (simp add: ub_set_def ub_mem_def)
    then have "64 * index + k < ?n" using assms(1) by (simp add: ub_ok_def)
    then show ?thesis using r \<open>index = ?n div 64\<close> div_mult_mod_eq [of ?n 64] by linarith
  qed
  then show "bit (ub_bits b ! index AND (bit_mask ?r - 1)) k \<longleftrightarrow> bit (ub_bits b ! index) k"
    unfolding mask using k by (auto simp: bit_simps)
qed

lemma ub_restore_for_snapshot:
  assumes "ub_ok b"
  shows "ub_restore_for_block_count (ub_snapshot b) (ub_block_count b) = b"
proof -
  let ?R = "ub_restore_for_block_count (ub_snapshot b) (ub_block_count b)"
  have n: "length (ub_bits (ub_new (ub_block_count b))) = length (ub_bits b)"
    using assms by (simp add: ub_ok_def ub_new_def)
  have "ub_bits ?R = ub_bits b"
  proof (rule nth_equalityI)
    show l: "length (ub_bits ?R) = length (ub_bits b)"
      by (simp add: ub_restore_for_block_count_def Let_def n)
    fix i assume "i < length (ub_bits ?R)"
    then show "ub_bits ?R ! i = ub_bits b ! i"
      using last_word_masked [OF assms, of i] l
      by (auto simp: ub_restore_for_block_count_def Let_def n ub_restore_snapshot)
  qed
  then show ?thesis by (simp add: ub_restore_for_block_count_def Let_def ub_new_def)
qed

section \<open>The lazily allocated bitmap as a set\<close>

definition zb_set :: "zone_bitmap \<Rightarrow> nat set" where
  "zb_set z = ub_set (zb_materialize z)"

definition zb_ok :: "zone_bitmap \<Rightarrow> bool" where
  "zb_ok z \<longleftrightarrow> ub_ok (zb_materialize z) \<and> ub_block_count (zb_materialize z) = zb_block_count z"

lemma zb_ok_bound: "zb_ok z \<Longrightarrow> i \<in> zb_set z \<Longrightarrow> i < unat (zb_block_count z)"
  by (auto simp: zb_ok_def ub_ok_def zb_set_def)

lemma zb_ok_words: "zb_ok z \<Longrightarrow> length (ub_bits (zb_materialize z)) = zb_word_count z"
  by (auto simp: zb_ok_def ub_ok_def zb_word_count_def)

lemma zb_words_cover: "unat (zb_block_count z) \<le> 64 * zb_word_count z"
proof (cases "unat (zb_block_count z) = 0")
  case False
  then have "(unat (zb_block_count z) - 1) div 64 < zb_word_count z"
    unfolding zb_word_count_def by (intro div_ceil_less) simp
  then show ?thesis using False by (simp add: div_less_iff_less_mult)
qed simp

lemma finite_zb_set [simp]: "finite (zb_set z)"
  by (simp add: zb_set_def)

lemma zb_new_ok: "zb_ok (zb_new n)" "zb_set (zb_new n) = {}"
  by (simp_all add: zb_ok_def zb_set_def zb_materialize_def zb_new_def ub_new_ok)

lemma zb_materialize_update [simp]: "zb_materialize (z\<lparr>zb_bitmap := Some b\<rparr>) = b"
  by (simp add: zb_materialize_def)

lemma zb_load_word_eq:
  "zb_ok z \<Longrightarrow> zb_load_word index z = ub_load_word index (zb_materialize z)"
  using zb_ok_words [of z]
  by (auto simp: zb_load_word_def ub_load_word_def zb_materialize_def ub_new_def split: option.splits)

lemma zb_load_bit:
  assumes "zb_ok z" "i < unat (zb_block_count z)"
  shows "\<exists>w. zb_load_word (i div 64) z = Some w \<and> (w AND bit_mask (i mod 64) \<noteq> 0 \<longleftrightarrow> i \<in> zb_set z)"
proof -
  have "i div 64 < zb_word_count z" using assms(2) unfolding zb_word_count_def by (rule div_ceil_less)
  then show ?thesis
    using assms(1) zb_ok_words [of z]
    by (simp add: zb_load_word_eq ub_load_word_def and_bit_mask zb_set_def ub_set_def ub_mem_def)
qed

lemma zb_cas_bit_spec:
  assumes "zb_ok z" "unat i < unat (zb_block_count z)"
  shows "\<exists>z'. zb_cas_bit i s z = Some ((unat i \<in> zb_set z) \<noteq> s, z') \<and> zb_ok z' \<and>
    zb_block_count z' = zb_block_count z \<and>
    zb_set z' = (if s then insert (unat i) (zb_set z) else zb_set z - {unat i})"
proof -
  have "unat i < 64 * length (ub_bits (zb_materialize z))"
    using assms zb_words_cover [of z] by (simp add: zb_ok_words)
  from ub_cas_bit_spec [OF this, of s] obtain b where b:
    "ub_cas_bit i s (zb_materialize z) = Some (ub_mem (zb_materialize z) (unat i) \<noteq> s, b)"
    "length (ub_bits b) = length (ub_bits (zb_materialize z))"
    "ub_block_count b = ub_block_count (zb_materialize z)"
    "ub_set b = (if s then insert (unat i) (ub_set (zb_materialize z)) else ub_set (zb_materialize z) - {unat i})"
    by blast
  then have "zb_ok (z\<lparr>zb_bitmap := Some b\<rparr>)"
    using assms by (auto simp: zb_ok_def ub_ok_def)
  then show ?thesis using b by (simp add: zb_cas_bit_def zb_on_def zb_set_def) (simp add: ub_set_def)
qed

lemma zb_count_set_eq: "zb_count_set z = of_nat (card (zb_set z))"
  by (simp add: zb_count_set_def zb_set_def zb_materialize_def ub_count_set_eq split: option.split)

lemma le_bytes_zero: "le_bytes n 0 = replicate n 0"
  by (induction n) simp_all

lemma u64_le_zero: "u64_le 0 = replicate 8 0"
  by (simp add: u64_le_def le_bytes_zero)

lemma zb_snapshot_eq: "zb_snapshot z = ub_snapshot (zb_materialize z)"
proof -
  have "concat (map u64_le (replicate n 0)) = replicate (n * 8) 0" for n
    by (induction n) (simp_all add: u64_le_zero replicate_add)
  then show ?thesis
    by (simp add: zb_snapshot_def zb_materialize_def ub_snapshot_def ub_new_def zb_word_count_def split: option.split)
qed

lemma zb_restore_snapshot:
  assumes "zb_ok z"
  shows "zb_ok (zb_restore (zb_snapshot z) (zb_block_count z))"
    "zb_set (zb_restore (zb_snapshot z) (zb_block_count z)) = zb_set z"
    "zb_block_count (zb_restore (zb_snapshot z) (zb_block_count z)) = zb_block_count z"
proof -
  let ?b = "zb_materialize z"
  have b: "ub_restore_for_block_count (zb_snapshot z) (zb_block_count z) = ?b"
    using assms ub_restore_for_snapshot [of ?b] by (simp add: zb_ok_def zb_snapshot_eq)
  have zero: "zb_set z = {}" if h: "\<forall>byte \<in> set (zb_snapshot z). byte = 0"
  proof -
    have "w = 0" if w: "w \<in> set (ub_bits ?b)" for w
    proof -
      have "set (u64_le w) \<subseteq> set (zb_snapshot z)" using w by (auto simp: zb_snapshot_eq ub_snapshot_def)
      then have "u64_le w = replicate 8 0" using h by (intro replicate_eqI) auto
      also have "\<dots> = u64_le 0" by (simp only: u64_le_zero)
      finally show "w = 0" using u64_of_le_u64_le by metis
    qed
    then have "ub_bits ?b ! k = 0" if "k < length (ub_bits ?b)" for k using that nth_mem by blast
    then have "\<not> ub_mem ?b i" for i by (simp add: ub_mem_def)
    then show ?thesis by (simp add: zb_set_def ub_set_def)
  qed
  show "zb_ok (zb_restore (zb_snapshot z) (zb_block_count z))"
    "zb_set (zb_restore (zb_snapshot z) (zb_block_count z)) = zb_set z"
    "zb_block_count (zb_restore (zb_snapshot z) (zb_block_count z)) = zb_block_count z"
    using zero assms zb_new_ok b
    by (auto simp: zb_restore_def zb_ok_def zb_set_def zb_materialize_def zb_new_def)
qed

lemma ub_range_total:
  assumes "unat offset + unat count \<le> 2 ^ 32" "unat offset + unat count \<le> 64 * length (ub_bits b)"
  shows "\<exists>ok b'. ub_range_loop s offset 0 (unat count) b = Some (ok, b')"
  using ub_range_loop_spec [of offset 0 "unat count" b s] assms by auto

lemma ub_words_cover: "ub_ok b \<Longrightarrow> unat (ub_block_count b) \<le> 64 * length (ub_bits b)"
  using zb_words_cover [of "zb_new (ub_block_count b)"] by (simp add: ub_ok_def zb_word_count_def zb_new_def)

lemma ub_range_call:
  assumes "ub_ok b" "unat offset + unat count \<le> unat (ub_block_count b)"
  shows "\<exists>ok b'. ub_range_loop s offset 0 (unat count) b = Some (ok, b') \<and>
    (ok \<longleftrightarrow> (if s then units offset count \<inter> ub_set b = {} else units offset count \<subseteq> ub_set b)) \<and>
    ub_ok b' \<and> ub_block_count b' = ub_block_count b \<and>
    ub_set b' = (if \<not> ok then ub_set b else if s then ub_set b \<union> units offset count else ub_set b - units offset count)"
proof -
  have 1: "unat offset + unat count \<le> 2 ^ 32"
    using assms(2) unat_bound [of "ub_block_count b"] by simp
  have 2: "unat offset + unat count \<le> 64 * length (ub_bits b)"
    using assms ub_words_cover [of b] by simp
  from ub_range_total [OF 1 2, of s] obtain ok b' where b':
    "ub_range_loop s offset 0 (unat count) b = Some (ok, b')" by blast
  note spec = ub_range_spec [OF 1 2, of s ok b', THEN iffD1, OF b']
  have "ub_ok b'" using spec assms by (auto simp: ub_ok_def units_def split: if_splits)
  then show ?thesis using b' spec by blast
qed

lemma zb_range_spec:
  assumes "zb_ok z" "unat offset + unat count \<le> unat (zb_block_count z)"
  shows "\<exists>ok b'. ub_range_loop s offset 0 (unat count) (zb_materialize z) = Some (ok, b') \<and>
    (ok \<longleftrightarrow> (if s then units offset count \<inter> zb_set z = {} else units offset count \<subseteq> zb_set z)) \<and>
    zb_ok (z\<lparr>zb_bitmap := Some b'\<rparr>) \<and>
    ub_set b' = (if \<not> ok then zb_set z else if s then zb_set z \<union> units offset count else zb_set z - units offset count)"
proof -
  have z: "ub_ok (zb_materialize z)" "ub_block_count (zb_materialize z) = zb_block_count z"
    using assms(1) by (simp_all add: zb_ok_def)
  have upd: "zb_ok (z\<lparr>zb_bitmap := Some b'\<rparr>) \<longleftrightarrow> ub_ok b' \<and> ub_block_count b' = zb_block_count z" for b'
    by (simp add: zb_ok_def)
  show ?thesis
    unfolding zb_set_def upd
    using ub_range_call [OF z(1), of offset count s, unfolded z(2), OF assms(2)] by (simp only: conj_assoc)
qed

lemma zb_range_set_spec:
  assumes "zb_ok z" "unat offset + unat count \<le> unat (zb_block_count z)"
  shows "\<exists>z'. zb_range_set offset count z = Some (units offset count \<inter> zb_set z = {}, z') \<and> zb_ok z' \<and>
    zb_block_count z' = zb_block_count z \<and>
    zb_set z' = (if units offset count \<inter> zb_set z = {} then zb_set z \<union> units offset count else zb_set z)"
proof -
  from zb_range_spec [OF assms, of True] obtain ok b' where
    "ub_range_loop True offset 0 (unat count) (zb_materialize z) = Some (ok, b')"
    "ok \<longleftrightarrow> units offset count \<inter> zb_set z = {}" "zb_ok (z\<lparr>zb_bitmap := Some b'\<rparr>)"
    "ub_set b' = (if \<not> ok then zb_set z else zb_set z \<union> units offset count)" by auto
  then show ?thesis
    by (intro exI [of _ "z\<lparr>zb_bitmap := Some b'\<rparr>"]) (simp add: zb_range_set_def zb_on_def ub_range_set_def zb_set_def)
qed

lemma zb_range_clear_spec:
  assumes "zb_ok z" "unat offset + unat count \<le> unat (zb_block_count z)"
  shows "\<exists>z'. zb_range_clear offset count z = Some (units offset count \<subseteq> zb_set z, z') \<and> zb_ok z' \<and>
    zb_block_count z' = zb_block_count z \<and>
    zb_set z' = (if units offset count \<subseteq> zb_set z then zb_set z - units offset count else zb_set z)"
proof (cases "zb_bitmap z")
  case None
  then have "zb_set z = {}" by (simp add: zb_set_def zb_materialize_def)
  moreover have "count = 0 \<longleftrightarrow> units offset count \<subseteq> {}" by (auto simp: units_def unat_eq_0)
  ultimately show ?thesis using None assms(1) by (simp add: zb_range_clear_def)
next
  case (Some b)
  then have b: "zb_materialize z = b" by (simp add: zb_materialize_def)
  from zb_range_spec [OF assms, of False] obtain ok b' where
    "ub_range_loop False offset 0 (unat count) b = Some (ok, b')"
    "ok \<longleftrightarrow> units offset count \<subseteq> zb_set z" "zb_ok (z\<lparr>zb_bitmap := Some b'\<rparr>)"
    "ub_set b' = (if \<not> ok then zb_set z else zb_set z - units offset count)" unfolding b by auto
  then show ?thesis using Some
    by (intro exI [of _ "z\<lparr>zb_bitmap := Some b'\<rparr>"]) (simp add: zb_range_clear_def ub_range_clear_def zb_set_def)
qed

section \<open>The interface of a bitmap\<close>

text \<open>What both bitmaps promise their clients: a call within the geometry returns, and answers and
  changes the units in use as \<open>set_call\<close> says.\<close>

locale unit_map =
  fixes ok :: "'s \<Rightarrow> bool" and used :: "'s \<Rightarrow> nat set" and geometry :: "'s \<Rightarrow> u32"
    and step :: "bitmap_call \<Rightarrow> 's \<Rightarrow> (bool \<times> 's) option"
  assumes step_set: "ok st \<Longrightarrow> within (geometry st) c \<Longrightarrow>
    \<exists>st'. step c st = Some (fst (set_call c (used st)), st') \<and> ok st' \<and> geometry st' = geometry st \<and>
      used st' = snd (set_call c (used st))"
begin

lemma run_refines:
  assumes "ok st" "\<forall>c \<in> set cs. within (geometry st) c"
  shows "\<exists>st'. run_calls step cs st = Some (fst (run_set cs (used st)), st') \<and> ok st' \<and>
    geometry st' = geometry st \<and> used st' = snd (run_set cs (used st))"
  using assms
proof (induction cs arbitrary: st)
  case (Cons c cs)
  from Cons.prems step_set [of st c] obtain st1 where st1:
    "step c st = Some (fst (set_call c (used st)), st1)" "ok st1" "geometry st1 = geometry st"
    "used st1 = snd (set_call c (used st))" by auto
  moreover from Cons.IH [of st1] Cons.prems st1 obtain st2 where
    "run_calls step cs st1 = Some (fst (run_set cs (used st1)), st2)" "ok st2" "geometry st2 = geometry st1"
    "used st2 = snd (run_set cs (used st1))" by auto
  ultimately show ?case by (simp add: case_prod_beta Let_def)
qed simp

end

subsection \<open>The usage bitmap keeps the contract\<close>

lemma ub_is_set_spec: "unat i < 64 * length (ub_bits b) \<Longrightarrow> ub_is_set i b = Some (unat i \<in> ub_set b)"
  by (auto simp: ub_is_set_def ub_load_word_def and_bit_mask ub_set_def ub_mem_def div_less_iff_less_mult mult.commute)

lemma ub_call_set:
  assumes "ub_ok b" "within (ub_block_count b) c"
  shows "\<exists>b'. ub_call c b = Some (fst (set_call c (ub_set b)), b') \<and> ub_ok b' \<and>
    ub_block_count b' = ub_block_count b \<and> ub_set b' = snd (set_call c (ub_set b))"
proof (cases c)
  case (CasBit i s)
  then have i: "unat i < unat (ub_block_count b)" using assms(2) by (simp add: word_less_nat_alt)
  with ub_words_cover [OF assms(1)] have "unat i < 64 * length (ub_bits b)" by simp
  from ub_cas_bit_spec [OF this, of s] obtain b' where
    "ub_cas_bit i s b = Some (ub_mem b (unat i) \<noteq> s, b')" "length (ub_bits b') = length (ub_bits b)"
    "ub_block_count b' = ub_block_count b"
    "ub_set b' = (if s then insert (unat i) (ub_set b) else ub_set b - {unat i})" by blast
  then show ?thesis using CasBit i assms(1) by (auto simp: ub_ok_def) (simp_all add: ub_set_def)
next
  case (RangeSet offset count)
  then have "unat offset + unat count \<le> unat (ub_block_count b)" using assms(2) by simp
  from ub_range_call [OF assms(1) this, of True, unfolded if_True if_False] obtain ok b' where
    "ub_range_loop True offset 0 (unat count) b = Some (ok, b')" "ok \<longleftrightarrow> units offset count \<inter> ub_set b = {}"
    "ub_ok b'" "ub_block_count b' = ub_block_count b" "ub_set b' = (if \<not> ok then ub_set b else ub_set b \<union> units offset count)" by blast
  then show ?thesis by (cases ok) (simp_all add: RangeSet ub_range_set_def)
next
  case (RangeClear offset count)
  then have "unat offset + unat count \<le> unat (ub_block_count b)" using assms(2) by simp
  from ub_range_call [OF assms(1) this, of False, unfolded if_True if_False] obtain ok b' where
    "ub_range_loop False offset 0 (unat count) b = Some (ok, b')" "ok \<longleftrightarrow> units offset count \<subseteq> ub_set b"
    "ub_ok b'" "ub_block_count b' = ub_block_count b" "ub_set b' = (if \<not> ok then ub_set b else ub_set b - units offset count)" by blast
  then show ?thesis by (cases ok) (simp_all add: RangeClear ub_range_clear_def)
next
  case (IsSet i)
  then have "unat i < 64 * length (ub_bits b)"
    using assms ub_words_cover [of b] by (simp add: word_less_nat_alt)
  then show ?thesis using IsSet assms(1) by (simp add: ub_is_set_spec)
next
  case Reload
  then show ?thesis using assms(1) by (simp add: ub_restore_for_snapshot)
qed

interpretation eager: unit_map ub_ok ub_set ub_block_count ub_call
  using ub_call_set by unfold_locales blast

subsection \<open>The lazily allocated bitmap keeps the contract\<close>

lemma zb_is_set_spec:
  assumes "zb_ok z" "i < zb_block_count z"
  shows "zb_is_set i z = Some (unat i \<in> zb_set z)"
proof (cases "zb_bitmap z")
  case None
  then show ?thesis using assms(2) by (simp add: zb_is_set_def zb_set_def zb_materialize_def)
next
  case (Some b)
  then have b: "zb_materialize z = b" by (simp add: zb_materialize_def)
  have "unat i < 64 * length (ub_bits b)"
    using assms zb_words_cover [of z] zb_ok_words [of z] by (simp add: b word_less_nat_alt)
  then show ?thesis using assms(2) Some by (simp add: zb_is_set_def zb_set_def b ub_is_set_spec)
qed

lemma zb_call_set:
  assumes "zb_ok z" "within (zb_block_count z) c"
  shows "\<exists>z'. zb_call c z = Some (fst (set_call c (zb_set z)), z') \<and> zb_ok z' \<and>
    zb_block_count z' = zb_block_count z \<and> zb_set z' = snd (set_call c (zb_set z))"
proof (cases c)
  case (CasBit i s)
  then show ?thesis using zb_cas_bit_spec [OF assms(1), of i s] assms(2) by (auto simp: word_less_nat_alt)
next
  case (RangeSet offset count)
  then show ?thesis using zb_range_set_spec [OF assms(1), of offset count] assms(2)
    by (cases "units offset count \<inter> zb_set z = {}") simp_all
next
  case (RangeClear offset count)
  then show ?thesis using zb_range_clear_spec [OF assms(1), of offset count] assms(2)
    by (cases "units offset count \<subseteq> zb_set z") simp_all
next
  case (IsSet i)
  then show ?thesis using assms by (simp add: zb_is_set_spec)
next
  case Reload
  then show ?thesis using zb_restore_snapshot [OF assms(1)] by simp
qed

interpretation lazy: unit_map zb_ok zb_set zb_block_count zb_call
  using zb_call_set by unfold_locales blast

section \<open>Properties\<close>

text \<open>C17 The bitmap of a zone behaves as the set of the units in use, whether its words are
  allocated from the start or on the first write. For every sequence of calls within the
  geometry both bitmaps return, give the same answers as the set and end with the units the set
  ends with: setting or clearing a range takes effect on all its units or on none, and
  restoring a bitmap from its own snapshot changes nothing.\<close>

theorem bitmap_calls_refine_set:
  assumes "\<forall>c \<in> set calls. within n c"
  shows "\<exists>z b. run_calls zb_call calls (zb_new n) = Some (fst (run_set calls {}), z) \<and>
    run_calls ub_call calls (ub_new n) = Some (fst (run_set calls {}), b) \<and>
    zb_set z = snd (run_set calls {}) \<and> ub_set b = snd (run_set calls {})"
proof -
  have n: "zb_block_count (zb_new n) = n" by (simp add: zb_new_def)
  have "\<exists>z. run_calls zb_call calls (zb_new n) = Some (fst (run_set calls {}), z) \<and> zb_set z = snd (run_set calls {})"
    using lazy.run_refines [of "zb_new n" calls] assms by (auto simp: n zb_new_ok)
  moreover have "\<exists>b. run_calls ub_call calls (ub_new n) = Some (fst (run_set calls {}), b) \<and> ub_set b = snd (run_set calls {})"
    using eager.run_refines [of "ub_new n" calls] assms by (auto simp: ub_new_ok)
  ultimately show ?thesis by blast
qed

definition demo_bitmap_calls :: "bitmap_call list" where
  "demo_bitmap_calls = [RangeSet 60 8, RangeSet 66 4, CasBit 61 True, Reload, RangeClear 62 3, IsSet 64]"

lemma bitmap_calls_refine_set_witness:
  "\<exists>z b. run_calls zb_call demo_bitmap_calls (zb_new 70) = Some ([True, False, False, True, True, False], z) \<and>
    run_calls ub_call demo_bitmap_calls (ub_new 70) = Some ([True, False, False, True, True, False], b) \<and>
    zb_set z = {60, 61, 65, 66, 67} \<and> ub_set b = {60, 61, 65, 66, 67}"
proof -
  have "run_set demo_bitmap_calls {} = ([True, False, False, True, True, False], {60, 61, 65, 66, 67})"
    by code_simp
  moreover have "\<forall>c \<in> set demo_bitmap_calls. within 70 c" by code_simp
  ultimately show ?thesis using bitmap_calls_refine_set [of demo_bitmap_calls 70] by simp
qed

text \<open>C18 A zone bitmap keeps its shape. After every sequence of calls within the geometry the words
  still match the block count it was created with, no unit past the block count is marked, the
  snapshot has eight bytes for each word, and the 64-bit count of set bits is the number of
  units in use, which the geometry bounds.\<close>

theorem zone_bitmap_well_formed:
  assumes "\<forall>c \<in> set calls. within n c" and "run_calls zb_call calls (zb_new n) = Some (answers, z)"
  shows "zb_ok z \<and> zb_block_count z = n \<and> zb_set z \<subseteq> {..<unat n} \<and> length (zb_snapshot z) = 8 * zb_word_count z \<and>
    unat (zb_count_set z) = card (zb_set z) \<and> unat (zb_count_set z) \<le> unat n"
proof -
  have n: "zb_block_count (zb_new n) = n" by (simp add: zb_new_def)
  have z: "zb_ok z" "zb_block_count z = n"
    using lazy.run_refines [of "zb_new n" calls] assms by (auto simp: n zb_new_ok)
  then have sub: "zb_set z \<subseteq> {..<unat n}" using zb_ok_bound by auto
  then have card: "card (zb_set z) \<le> unat n" using card_mono [OF _ sub] by simp
  then have "card (zb_set z) < 2 ^ 64" using unat_bound [of n] by simp
  then have "unat (zb_count_set z) = card (zb_set z)"
    by (simp add: zb_count_set_eq unat_of_nat take_bit_eq_mod)
  then show ?thesis
    using z sub card by (simp add: zb_snapshot_eq ub_snapshot_def length_concat_u64 zb_ok_words)
qed

lemma zone_bitmap_well_formed_witness:
  "\<exists>answers z. run_calls zb_call demo_bitmap_calls (zb_new 70) = Some (answers, z) \<and>
    zb_ok z \<and> zb_block_count z = 70 \<and> length (zb_snapshot z) = 8 * zb_word_count z \<and>
    unat (zb_count_set z) = card (zb_set z)"
proof -
  have calls: "\<forall>c \<in> set demo_bitmap_calls. within 70 c" by code_simp
  obtain answers z where "run_calls zb_call demo_bitmap_calls (zb_new 70) = Some (answers, z)"
    using lazy.run_refines [of "zb_new 70" demo_bitmap_calls] calls zb_new_ok by (auto simp: zb_new_def)
  then show ?thesis using zone_bitmap_well_formed [OF calls] by blast
qed

end
