(* ===== verification/Spec2Isabelle.thy ===== *)
theory Spec2Isabelle
  imports Acceptor_Race Wal_Recover Agreement Lost_Choice Disk_Bitmap
begin

text \<open>
  A verification development for CrowDB: the replicated key-value group (\<open>src/lib/crowdb-kv\<close>) and
  the usage bitmap of the disk inventory.

  \<^bold>\<open>The program.\<close> A group is a set of replicas that agree on a log of slots by Multi-Paxos. Each
  replica has an \<^emph>\<open>acceptor\<close> (the promises and accepted entries of every slot), a \<^emph>\<open>learner\<close> (the
  frontiers of chosen and applied slots, the results of recent client requests, the storage
  engine), an \<^emph>\<open>election state\<close> (term, vote, role, lease) and a \<^emph>\<open>write-ahead log\<close> of segments
  from which it is rebuilt after a crash. One replica is elected leader for a term; it proposes
  entries, and its heartbeats carry the committed prefix and renew its lease. Followers apply
  the committed prefix in a background loop and fetch from the leader the slots they miss.

  \<^bold>\<open>The theories\<close>, each with the part of the source it models.
  \<^item> \<open>Prelude\<close>: machine words, little-endian codecs, ordered maps (the skip maps and B-tree maps of
    the source), with the locales \<open>ordered_map\<close> and \<open>codec\<close>.
  \<^item> \<open>Roles\<close> (\<open>paxos/roles.rs\<close>, \<open>paxos/error.rs\<close>): ballots and their order, entries, replies, errors
    and what a proposer does about them.
  \<^item> \<open>Acceptor\<close> (\<open>paxos/acceptor.rs\<close>): \<open>prepare\<close>, \<open>accept\<close>, \<open>install_chosen\<close>, \<open>trim\<close>, \<open>reclaim\<close> and
    the log-tip queries as whole calls. The acceptor refines a per-slot specification, its
    promises and votes never go back (locale \<open>voting_register\<close>), the queries are exact.
    \<open>Acceptor_Race\<close> interleaves the single loads and compare-and-swaps of two calls; there an
    entry below the promise can be accepted, and the exact guarantee that remains is proved.
  \<^item> \<open>Kv_Op\<close> (\<open>kv/op.rs\<close>, \<open>kv/kv_engine.rs\<close>): the payload of an entry as a batch
    of operations, and the contract of a storage engine as the locale \<open>kv_engine\<close>.
  \<^item> \<open>Learner\<close> (\<open>paxos/learner.rs\<close>): both frontiers are exactly the contiguous prefix of what
    was recorded (locale \<open>gap_frontier\<close>, interpreted twice), and request results are kept for
    the last 64 requests of a client.
  \<^item> \<open>Wal_Record\<close>, \<open>Wal_Text\<close> (\<open>wal/record.rs\<close>): the binary and the text format of a record, with
    round trips and the rejection of every strict prefix. The checksum is the parameter \<open>crc\<close>.
  \<^item> \<open>Wal_Segment\<close> (\<open>wal/segment.rs\<close>, \<open>wal/segment/read_buffer.rs\<close>): creating, appending,
    sealing and reading a segment; after a crash that tears the last write exactly the records
    that were completely written are read back.
  \<^item> \<open>Wal_Index\<close> (\<open>wal/index.rs\<close>, \<open>wal/gc.rs\<close>): the segment index and garbage collection, which
    keeps what recovery needs.
  \<^item> \<open>Wal_Replay\<close> (\<open>wal/replay/records.rs\<close>) and \<open>Wal_Recover\<close> (\<open>wal/replay.rs\<close>): the accumulator of
    the scan is independent of the scan order of the disks, and the replay of a group returns
    the accumulated records of all its segments.
  \<^item> \<open>Replica\<close> (\<open>cluster/local_replica.rs\<close>, \<open>_election\<close>, \<open>_accept\<close>, \<open>_replay\<close>): the state of a member and
    its handlers. \<open>Replica_Vote\<close> shows that a member votes once per term, also across a restart
    (locale \<open>vote_register\<close>); \<open>Replica_Recovery\<close> that a restart recovers all promises and votes.
  \<^item> \<open>Election\<close> (\<open>cluster/group_election*.rs\<close>): the pre-vote and vote rounds, promotion, heartbeats,
    lease and read barrier; one leader per term (locale \<open>quorum_system\<close>), no vote within a lease.
  \<^item> \<open>Replica_Apply\<close> (\<open>cluster/local_replica_apply.rs\<close>, \<open>cluster/group_fetchgap.rs\<close>,
    \<open>rpc/px_rpc_service/notifications.rs\<close>): the apply loop comes to rest, catches up or stops at a
    recorded gap, gap fetching is bounded, and a gap leaves it only filled or, by the one
    exit that forgets it, when there is no transport to the leader.
  \<^item> \<open>Proposer\<close> (\<open>cluster/group.rs\<close>, \<open>group_inflight.rs\<close>, \<open>group_prepare.rs\<close>, \<open>group_accept.rs\<close>,
    \<open>group_propose.rs\<close>, \<open>group_election/recovery.rs\<close>): the fold of replies, both phases with their
    quorum short-circuit, the proposal loop, and the repair of a slot; a slot is reported only after
    a quorum of the answers to an entry with the proposal's own payload were accepts.
  \<^item> \<open>Agreement\<close> composes the phases with the handlers of all members in an inductive relation and
    shows that no two values are chosen for a slot when every proposal follows a prepare phase.
    \<open>Lost_Choice\<close> is a run in which leaders skip that phase and a chosen value is replaced.
  \<^item> \<open>Disk_Bitmap\<close> (\<open>crowdb-protocol/src/bitmap.rs\<close>, \<open>crowdb-diskdb/src/model/zone_bitmap.rs\<close>), apart from the
    group: the usage bitmap of a disk zone and the lazily allocated bitmap around it. Both meet the
    same interface (locale \<open>unit_map\<close>, interpreted twice) and behave as the set of the units in use.

  \<^bold>\<open>How state and effects are modelled.\<close> A struct is a record, an operation is a function that
  returns the new state, an error is a value. Slots, terms, rounds and ids are 64-bit words.
  Instants are integers (milliseconds relative to the anchor of the process); a handler that
  reads the clock has the reading as an argument. What a log append or a remote reply turns out
  to be is an argument too: \<open>ok\<close> for an append, a list of replies in arrival order for a round.
  Runs are lists of events, so that a property of every run is one about every list. Concurrency
  inside one call is modelled only in \<open>Acceptor_Race\<close>; elsewhere a call is one step, and what may
  happen between two awaits of the source is a separate event.

  \<^bold>\<open>Loops.\<close> The loops of the codecs and the segment reader are total functions with a measure on the
  bytes left. The apply loop may not end in principle, so it is a partial function with the value
  \<open>None\<close> for that, and the theorem that it comes to rest excludes the value. No fuel is used except in the UTF-8
  check, which gets one more than the number of its bytes (shown to be enough in \<open>Wal_Segment\<close>);
  the attempts of a proposal are bounded by the constants of the source, and what each attempt
  meets is a function of the counters of the two loops.

  \<^bold>\<open>Deviations of the code.\<close> Some theorems show, most by a concrete run, what the code does against its
  intent: an accept below the promise in a race, two leaders of one term after an overtaken
  pre-vote round, a restart that forgets its lockout or takes accepted entries for chosen ones,
  an embedded footer that stops the replay, a follower that applies a value that was not chosen,
  a chosen and acknowledged value that the recovery of a later leader replaces.

  \<^bold>\<open>Not modelled.\<close>
  \<^item> Of the group: membership changes, the coalescing of proposals, compare-and-set, owner fences,
    retention, watches, the driver tasks with their timers and cancellation, metrics and logging,
    and the writer task of the write-ahead log, whose effect on a segment is modelled but not
    its batching. Of a proposal: replies that arrive after the quorum act as separate steps, and
    waiting for a permit is not modelled; nor is the sweep of a new leader over its open slots,
    only the recovery of one slot.
  \<^item> Of the disk inventory: all but the bitmap of a zone, in particular the allocator, compaction and
    recovery; of the bitmap, races between calls on one word and the compressed snapshot.
  \<^item> The other services (chunk metadata, partitioned chunk store, object access,
    consoles) and their clients: they are separate programs on top of the group or of network
    interfaces, none of the modelled parts depends on them.
  \<^item> Code in other languages behind a foreign-function interface (the B+tree engine, the RPC
    transport, the disk server) and generated message types: the engine is the parameter \<open>kv_iface\<close>,
    the network is an arbitrary list of replies.
\<close>

end
